(* ===== verification/Onyx_Prelude.thy ===== *)
theory Onyx_Prelude
  imports Main "HOL-Library.Word" "HOL-Library.Signed_Division"
begin

text \<open>
  Shared vocabulary of the OnyxOS development: the machine integer types, the outcome of a Rust
  computation (a value, an error, or a panic), programs that thread a state through such outcomes,
  byte-subslice reads and writes, and the little-endian codec.

  The kernel is built with the \<open>dev\<close> profile (\<open>Cargo.toml\<close>), so arithmetic overflow, an
  out-of-range index and a failed \<open>assert!\<close> abort the machine. These are the \<open>Panic\<close> outcome;
  where a source integer can overflow, the model checks the bound explicitly. Unsigned sizes,
  addresses and counters are \<open>nat\<close> values with that check; bytes and bit patterns are words.
\<close>

section \<open>Types\<close>

type_synonym u8 = "8 word"
type_synonym u16 = "16 word"
type_synonym u32 = "32 word"
type_synonym u64 = "64 word"
type_synonym bytes = "u8 list"

datatype ('e, 'a) res = Ok 'a | Err 'e | Panic

type_synonym ('s, 'e, 'a) prog = "'s \<Rightarrow> ('e, 'a) res \<times> 's"

named_theorems prog_simps "unfolding of the state-and-outcome combinators"
named_theorems codec "little-endian codec"
named_theorems slices "reads and writes of byte slices"

section \<open>Outcomes\<close>

fun bindR :: "('e, 'a) res \<Rightarrow> ('a \<Rightarrow> ('e, 'b) res) \<Rightarrow> ('e, 'b) res" where
  "bindR (Ok a) f = f a"
| "bindR (Err e) f = Err e"
| "bindR Panic f = Panic"

fun map_err :: "('e \<Rightarrow> 'f) \<Rightarrow> ('e, 'a) res \<Rightarrow> ('f, 'a) res" where
  "map_err g (Ok a) = Ok a"
| "map_err g (Err e) = Err (g e)"
| "map_err g Panic = Panic"

lemma bindR_Ok_iff [simp]: "bindR m f = Ok b \<longleftrightarrow> (\<exists>a. m = Ok a \<and> f a = Ok b)"
  by (cases m) auto

lemma bindR_Panic_iff: "bindR m f = Panic \<longleftrightarrow> m = Panic \<or> (\<exists>a. m = Ok a \<and> f a = Panic)"
  by (cases m) auto

lemma bindR_Err_iff:
  "bindR m f = Err e \<longleftrightarrow> m = Err e \<or> (\<exists>a. m = Ok a \<and> f a = Err e)"
  by (cases m) auto

lemma map_err_Ok_iff [simp]: "map_err g m = Ok a \<longleftrightarrow> m = Ok a"
  by (cases m) auto

lemma map_err_Panic_iff [simp]: "map_err g m = Panic \<longleftrightarrow> m = Panic"
  by (cases m) auto

section \<open>Programs: state, errors and panics\<close>

definition retP :: "'a \<Rightarrow> ('s, 'e, 'a) prog" where
  "retP a s = (Ok a, s)"

definition errP :: "'e \<Rightarrow> ('s, 'e, 'a) prog" where
  "errP e s = (Err e, s)"

definition panicP :: "('s, 'e, 'a) prog" where
  "panicP s = (Panic, s)"

definition liftP :: "('e, 'a) res \<Rightarrow> ('s, 'e, 'a) prog" where
  "liftP r s = (r, s)"

definition bindP :: "('s, 'e, 'a) prog \<Rightarrow> ('a \<Rightarrow> ('s, 'e, 'b) prog) \<Rightarrow> ('s, 'e, 'b) prog" where
  "bindP m f s = (case m s of
       (Ok a, s') \<Rightarrow> f a s'
     | (Err e, s') \<Rightarrow> (Err e, s')
     | (Panic, s') \<Rightarrow> (Panic, s'))"

definition map_errP :: "('e \<Rightarrow> 'f) \<Rightarrow> ('s, 'e, 'a) prog \<Rightarrow> ('s, 'f, 'a) prog" where
  "map_errP g m s = (map_err g (fst (m s)), snd (m s))"

definition guardP :: "bool \<Rightarrow> ('s, 'e, unit) prog" where
  "guardP b s = ((if b then Ok () else Panic), s)"

declare retP_def [prog_simps] errP_def [prog_simps] panicP_def [prog_simps]
  liftP_def [prog_simps] map_errP_def [prog_simps] guardP_def [prog_simps]

lemma retP_app [simp]: "retP a s = (Ok a, s)"
  by (simp add: retP_def)

lemma errP_app [simp]: "errP e s = (Err e, s)"
  by (simp add: errP_def)

lemma panicP_app [simp]: "panicP s = (Panic, s)"
  by (simp add: panicP_def)

lemma liftP_app [simp]: "liftP r s = (r, s)"
  by (simp add: liftP_def)

lemma guardP_True [simp]: "b \<Longrightarrow> guardP b s = (Ok (), s)"
  by (simp add: guardP_def)

lemma bindP_step [simp]:
  "m s = (Ok a, s') \<Longrightarrow> bindP m f s = f a s'"
  "m s = (Err e, s') \<Longrightarrow> bindP m f s = (Err e, s')"
  "m s = (Panic, s') \<Longrightarrow> bindP m f s = (Panic, s')"
  by (simp_all add: bindP_def)

lemma bindP_Ok_iff:
  "bindP m f s = (Ok b, t) \<longleftrightarrow> (\<exists>a s'. m s = (Ok a, s') \<and> f a s' = (Ok b, t))"
  by (auto simp: bindP_def split: prod.splits res.splits)

lemma bindP_OkE [elim!]:
  assumes "bindP m f s = (Ok b, t)"
  obtains a s' where "m s = (Ok a, s')" and "f a s' = (Ok b, t)"
  using assms by (auto simp: bindP_Ok_iff)

lemma map_errP_Ok_iff: "map_errP g m s = (Ok a, t) \<longleftrightarrow> m s = (Ok a, t)"
  by (cases "m s") (auto simp: map_errP_def)

lemma map_errP_Ok [simp]: "m s = (Ok a, t) \<Longrightarrow> map_errP g m s = (Ok a, t)"
  by (simp add: map_errP_def)

text \<open>A property that every program step keeps is kept by sequencing, whatever the outcome.\<close>

definition keeps :: "('s \<Rightarrow> bool) \<Rightarrow> ('s, 'e, 'a) prog \<Rightarrow> bool" where
  "keeps I m \<longleftrightarrow> (\<forall>s. I s \<longrightarrow> I (snd (m s)))"

lemma keeps_basic [intro, simp]:
  "keeps I (retP a)" "keeps I (errP e)" "keeps I panicP" "keeps I (liftP r)" "keeps I (guardP b)"
  by (simp_all add: keeps_def guardP_def)

lemma keeps_bindP [intro]:
  "\<lbrakk>keeps I m; \<And>a. keeps I (f a)\<rbrakk> \<Longrightarrow> keeps I (bindP m f)"
  unfolding keeps_def bindP_def by (fastforce split: prod.splits res.splits)

lemma keeps_map_errP [intro]: "keeps I m \<Longrightarrow> keeps I (map_errP g m)"
  by (simp add: keeps_def map_errP_def)

lemma keepsD: "keeps I m \<Longrightarrow> I s \<Longrightarrow> m s = (r, t) \<Longrightarrow> I t"
  unfolding keeps_def by fastforce

text \<open>A \<open>for\<close> loop over the elements of a list.\<close>

primrec forP :: "('x \<Rightarrow> ('s, 'e, unit) prog) \<Rightarrow> 'x list \<Rightarrow> ('s, 'e, unit) prog" where
  "forP f [] = retP ()"
| "forP f (x # xs) = bindP (f x) (\<lambda>_. forP f xs)"

lemma keeps_forP [intro]: "(\<And>x. x \<in> set xs \<Longrightarrow> keeps I (f x)) \<Longrightarrow> keeps I (forP f xs)"
  by (induction xs) auto

text \<open>\<open>is_ok\<close> and \<open>if let Ok\<close>: an error becomes a value and the program goes on.\<close>

definition tryP :: "('s, 'e, 'a) prog \<Rightarrow> ('s, 'f, 'a option) prog" where
  "tryP m s =
     (case m s of
        (Ok a, t) \<Rightarrow> (Ok (Some a), t)
      | (Err e, t) \<Rightarrow> (Ok None, t)
      | (Panic, t) \<Rightarrow> (Panic, t))"

lemma keeps_tryP [intro]: "keeps I m \<Longrightarrow> keeps I (tryP m)"
  unfolding keeps_def tryP_def by (auto split: prod.splits res.splits)

section \<open>Searching lists\<close>

text \<open>Index of the first element that satisfies a predicate: \<open>iter().position\<close> and \<open>iter().find\<close>.\<close>

primrec position :: "('a \<Rightarrow> bool) \<Rightarrow> 'a list \<Rightarrow> nat option" where
  "position P [] = None"
| "position P (x # xs) = (if P x then Some 0 else map_option Suc (position P xs))"

lemma position_None_iff: "position P xs = None \<longleftrightarrow> (\<forall>x \<in> set xs. \<not> P x)"
  by (induction xs) auto

lemma position_SomeD:
  "position P xs = Some k \<Longrightarrow> k < length xs \<and> P (xs ! k) \<and> (\<forall>j < k. \<not> P (xs ! j))"
  by (induction xs arbitrary: k) (auto split: if_splits simp: less_Suc_eq_0_disj)

lemma position_SomeI:
  "\<lbrakk>k < length xs; P (xs ! k); \<forall>j < k. \<not> P (xs ! j)\<rbrakk> \<Longrightarrow> position P xs = Some k"
proof (induction xs arbitrary: k)
  case (Cons x xs)
  then show ?case by (cases k) fastforce+
qed simp

lemma length_filter_update_less:
  "\<lbrakk>n < length xs; P (xs ! n); \<not> P x\<rbrakk> \<Longrightarrow> length (filter P (xs[n := x])) < length (filter P xs)"
proof (induction xs arbitrary: n)
  case (Cons y ys)
  then show ?case by (cases n) auto
qed simp

section \<open>Checked arithmetic\<close>

definition add_u64 :: "nat \<Rightarrow> nat \<Rightarrow> ('e, nat) res" where
  "add_u64 a b = (if a + b < 2 ^ 64 then Ok (a + b) else Panic)"

definition add_u32 :: "nat \<Rightarrow> nat \<Rightarrow> ('e, nat) res" where
  "add_u32 a b = (if a + b < 2 ^ 32 then Ok (a + b) else Panic)"

definition mul_u32 :: "nat \<Rightarrow> nat \<Rightarrow> ('e, nat) res" where
  "mul_u32 a b = (if a * b < 2 ^ 32 then Ok (a * b) else Panic)"

definition sub_u32 :: "nat \<Rightarrow> nat \<Rightarrow> ('e, nat) res" where
  "sub_u32 a b = (if b \<le> a then Ok (a - b) else Panic)"

definition checked_add64 :: "nat \<Rightarrow> nat \<Rightarrow> nat option" where
  "checked_add64 a b = (if a + b < 2 ^ 64 then Some (a + b) else None)"

definition checked_sub :: "nat \<Rightarrow> nat \<Rightarrow> nat option" where
  "checked_sub a b = (if b \<le> a then Some (a - b) else None)"

definition div_ceil :: "nat \<Rightarrow> nat \<Rightarrow> nat" where
  "div_ceil a b = (a + b - 1) div b"

lemma div_ceil_mult_ge: "0 < b \<Longrightarrow> a \<le> div_ceil a b * b"
proof -
  assume b: "0 < b"
  have "a + b - 1 < ((a + b - 1) div b + 1) * b"
    using b by (metis Suc_eq_plus1 dividend_less_div_times mult.commute mult_Suc_right add.commute)
  then show ?thesis using b by (simp add: div_ceil_def algebra_simps)
qed

lemma div_ceil_le_iff: "0 < b \<Longrightarrow> div_ceil a b \<le> n \<longleftrightarrow> a \<le> n * b"
proof
  assume b: "0 < b" and le: "div_ceil a b \<le> n"
  have "a \<le> div_ceil a b * b" by (rule div_ceil_mult_ge [OF b])
  also have "\<dots> \<le> n * b" using le by simp
  finally show "a \<le> n * b" .
next
  assume b: "0 < b" and "a \<le> n * b"
  then have "a + b - 1 < (n + 1) * b" by (simp add: algebra_simps)
  then have "(a + b - 1) div b < n + 1" using b by (simp add: div_less_iff_less_mult)
  then show "div_ceil a b \<le> n" by (simp add: div_ceil_def)
qed

text \<open>Signed division truncates; on non-negative operands it is \<open>div\<close>.\<close>

lemma sdiv_nonneg: "0 \<le> a \<Longrightarrow> 0 < b \<Longrightarrow> a sdiv b = a div (b :: int)"
  by (cases "a = 0") (simp_all add: signed_divide_int_def)

text \<open>The \<open>k\<close>-th of \<open>n\<close> blocks of width \<open>w\<close> lies inside any buffer that holds them all.\<close>

lemma block_span:
  assumes "k < n" "n * w \<le> l"
  shows "k * w + w \<le> (l :: nat)"
proof -
  have "Suc k * w \<le> n * w" using assms(1) by (intro mult_le_mono1) simp
  then show ?thesis using assms(2) by simp
qed

section \<open>Decimal text\<close>

definition digit :: "nat \<Rightarrow> char" where
  "digit n = char_of (48 + n)"

text \<open>The \<open>{}\<close> rendering of an unsigned integer.\<close>

fun dec :: "nat \<Rightarrow> string" where
  "dec n = (if n < 10 then [digit n] else dec (n div 10) @ [digit (n mod 10)])"

declare dec.simps [simp del]

text \<open>\<open>str::trim\<close> on text whose characters are single bytes (Latin-1 code points).\<close>

definition is_ws :: "char \<Rightarrow> bool" where
  "is_ws c \<longleftrightarrow> of_char c \<in> {9, 10, 11, 12, 13, 32, 133, 160 :: nat}"

definition trim :: "string \<Rightarrow> string" where
  "trim s = rev (dropWhile is_ws (rev (dropWhile is_ws s)))"

section \<open>Byte slices\<close>

definition subslice :: "'a list \<Rightarrow> nat \<Rightarrow> nat \<Rightarrow> 'a list" where
  "subslice xs a b = take (b - a) (drop a xs)"

text \<open>\<open>dst[off .. off + src.len()].copy_from_slice(src)\<close>, for a range inside the buffer.\<close>

definition put :: "'a list \<Rightarrow> nat \<Rightarrow> 'a list \<Rightarrow> 'a list" where
  "put xs off ys = take off xs @ ys @ drop (off + length ys) xs"

lemma length_subslice [simp, slices]: "b \<le> length xs \<Longrightarrow> length (subslice xs a b) = b - a"
  by (simp add: subslice_def)

lemma nth_subslice [slices]: "i < b - a \<Longrightarrow> b \<le> length xs \<Longrightarrow> subslice xs a b ! i = xs ! (a + i)"
  by (simp add: subslice_def)

lemma length_put [simp, slices]: "off + length ys \<le> length xs \<Longrightarrow> length (put xs off ys) = length xs"
  by (simp add: put_def)

lemma nth_put [slices]:
  "\<lbrakk>off + length ys \<le> length xs; i < length xs\<rbrakk> \<Longrightarrow>
   put xs off ys ! i = (if off \<le> i \<and> i < off + length ys then ys ! (i - off) else xs ! i)"
  by (auto simp: put_def nth_append min_def)

lemma subslice_put_same [simp, slices]:
  "\<lbrakk>off + length ys \<le> length xs; b = off + length ys\<rbrakk> \<Longrightarrow> subslice (put xs off ys) off b = ys"
  by (simp add: subslice_def put_def)

lemma subslice_put_disjoint [slices]:
  assumes "off + length ys \<le> length xs" "b \<le> off \<or> off + length ys \<le> a" "b \<le> length xs"
  shows "subslice (put xs off ys) a b = subslice xs a b"
  by (rule nth_equalityI) (use assms in \<open>auto simp: nth_subslice nth_put\<close>)

lemma put_subslice_id [simp]: "b \<le> length xs \<Longrightarrow> a \<le> b \<Longrightarrow> put xs a (subslice xs a b) = xs"
  by (rule nth_equalityI) (auto simp: nth_put nth_subslice)

lemma subslice_append_left [simp]: "b \<le> length xs \<Longrightarrow> subslice (xs @ ys) a b = subslice xs a b"
  by (simp add: subslice_def)

lemma subslice_full [simp]: "b = length xs \<Longrightarrow> subslice xs 0 b = xs"
  by (simp add: subslice_def)

lemma subslice_split:
  assumes "a \<le> b" "b \<le> c"
  shows "subslice xs a b @ subslice xs b c = subslice xs a c"
proof -
  have eq: "c - a = (b - a) + (c - b)" using assms by simp
  show ?thesis
    unfolding subslice_def eq take_add using assms by simp
qed

lemma put_append:
  "off + length xs + length ys \<le> length zs \<Longrightarrow>
   put (put zs off xs) (off + length xs) ys = put zs off (xs @ ys)"
  by (rule nth_equalityI) (auto simp: nth_put nth_append)

lemma put_Nil [simp]: "put xs a [] = xs"
  by (simp add: put_def)

lemma put_whole: "length ys = length xs \<Longrightarrow> put xs 0 ys = ys"
  by (simp add: put_def)

section \<open>Little-endian codec\<close>

fun le_nat :: "bytes \<Rightarrow> nat" where
  "le_nat [] = 0"
| "le_nat (b # bs) = unat b + 256 * le_nat bs"

primrec to_le :: "nat \<Rightarrow> nat \<Rightarrow> bytes" where
  "to_le 0 x = []"
| "to_le (Suc n) x = of_nat x # to_le n (x div 256)"

lemma unat_u8_lt [simp]: "unat (b :: u8) < 256"
  using unsigned_less [of b] by simp

lemma length_to_le [simp, codec]: "length (to_le n x) = n"
  by (induction n arbitrary: x) simp_all

lemma le_nat_lt [codec]: "le_nat bs < 256 ^ length bs"
proof (induction bs)
  case Nil
  then show ?case by simp
next
  case (Cons b bs)
  have "unat b + 256 * le_nat bs < 256 + 256 * le_nat bs" by simp
  also have "\<dots> \<le> 256 * 256 ^ length bs" using Cons by simp
  finally show ?case by simp
qed

lemma le_nat_to_le [simp, codec]: "le_nat (to_le n x) = x mod 256 ^ n"
proof (induction n arbitrary: x)
  case 0
  then show ?case by simp
next
  case (Suc n)
  have "x mod (256 * 256 ^ n) = 256 * (x div 256 mod 256 ^ n) + x mod 256"
    by (rule mod_mult2_eq)
  with Suc show ?case by (simp add: unat_of_nat add.commute)
qed

lemma to_le_le_nat [simp, codec]: "n = length bs \<Longrightarrow> to_le n (le_nat bs) = bs"
proof (induction bs arbitrary: n)
  case Nil
  then show ?case by simp
next
  case (Cons b bs)
  have "(unat b + 256 * le_nat bs) div 256 = le_nat bs"
    using unat_u8_lt [of b] by simp
  moreover have "unat (of_nat (unat b + 256 * le_nat bs) :: u8) = unat b"
    unfolding unat_of_nat by (simp add: mod_less)
  then have "of_nat (unat b + 256 * le_nat bs) = b"
    by (simp only: word_unat_eq_iff)
  ultimately show ?case using Cons by simp
qed

text \<open>The little-endian bytes of a word, as shifts and truncating casts.\<close>

lemma to_le_word [codec]:
  "to_le n (unat (w :: 'a::len word)) = map (\<lambda>i. ucast (drop_bit (8 * i) w)) [0..<n]"
proof (induction n arbitrary: w)
  case (Suc n)
  have "unat w div 256 = unat (drop_bit 8 w)"
    unfolding unat_drop_bit_eq by (simp add: drop_bit_eq_div)
  then have "to_le (Suc n) (unat w) = ucast w # map (\<lambda>i. ucast (drop_bit (8 * i) (drop_bit 8 w))) [0..<n]"
    using Suc.IH [of "drop_bit 8 w"] by simp
  also have "\<dots> = map (\<lambda>i. ucast (drop_bit (8 * i) w)) [0..<Suc n]"
    by (simp add: upt_conv_Cons map_Suc_upt [symmetric] add.commute del: upt_Suc)
  finally show ?case .
qed simp

lemma le_nat_word [codec]:
  assumes "8 * n = LENGTH('a)"
  shows "le_nat (map (\<lambda>i. ucast (drop_bit (8 * i) w)) [0..<n]) = unat (w :: 'a::len word)"
proof -
  have "(256 :: nat) ^ n = 2 ^ LENGTH('a)" by (simp add: assms [symmetric] power_mult)
  then have "unat w mod 256 ^ n = unat w" using unsigned_less [of w] by simp
  then show ?thesis using le_nat_to_le [of n "unat w"] by (simp add: to_le_word)
qed

section \<open>State machines\<close>

text \<open>A transition relation with an invariant that every step keeps, and one that starts in it.\<close>

locale kept_invariant =
  fixes step :: "'s \<Rightarrow> 's \<Rightarrow> bool" and inv :: "'s \<Rightarrow> bool"
  assumes kept: "step s t \<Longrightarrow> inv s \<Longrightarrow> inv t"
begin

lemma run_keeps: "step\<^sup>*\<^sup>* s t \<Longrightarrow> inv s \<Longrightarrow> inv t"
  by (induction rule: rtranclp_induct) (auto intro: kept)

end

locale state_machine = kept_invariant +
  fixes init :: 's
  assumes starts: "inv init"
begin

lemma reachable_inv: "step\<^sup>*\<^sup>* init s \<Longrightarrow> inv s"
  using run_keeps starts by blast

end

end
