(* ===== verification/Rtc.thy ===== *)
theory Rtc
  imports Onyx_Prelude
begin

unbundle bit_operations_syntax

text \<open>
  The wall clock: \<open>kernel/src/rtc.rs\<close> and the tick rate of \<open>kernel/src/pit.rs\<close>. CMOS registers
  are an input stream of the model (the value a register shows at each read); everything derived
  from them (BCD and 12-hour decoding, the civil-calendar arithmetic, the display zone, the advance
  of the boot time by the tick counter) is the code's own.
\<close>

section \<open>Definitions\<close>

record datetime =
  dt_second :: nat
  dt_minute :: nat
  dt_hour :: nat
  dt_day :: nat
  dt_month :: nat
  dt_year :: nat

definition ZEROED :: datetime where
  "ZEROED = \<lparr>dt_second = 0, dt_minute = 0, dt_hour = 0, dt_day = 0, dt_month = 0, dt_year = 0\<rparr>"

definition secs_of_day :: "datetime \<Rightarrow> nat" where
  "secs_of_day d = dt_hour d * 3600 + dt_minute d * 60 + dt_second d"

definition days_from_civil :: "datetime \<Rightarrow> int" where
  "days_from_civil d =
     (let y = int (dt_year d) - (if dt_month d \<le> 2 then 1 else 0);
          era = (if 0 \<le> y then y else y - 399) sdiv 400;
          yoe = y - era * 400;
          m = int (dt_month d);
          doy = (153 * (if m > 2 then m - 3 else m + 9) + 2) sdiv 5 + int (dt_day d) - 1;
          doe = yoe * 365 + yoe sdiv 4 - yoe sdiv 100 + doy
      in era * 146097 + doe - 719468)"

definition to_unix :: "datetime \<Rightarrow> int option" where
  "to_unix d =
     (if dt_year d = 0 \<or> dt_month d = 0 \<or> dt_day d = 0 then None
      else Some (days_from_civil d * 86400 + int (secs_of_day d)))"

definition from_unix :: "int \<Rightarrow> datetime" where
  "from_unix secs =
     (if secs \<le> 0 then ZEROED
      else
       (let days = secs div 86400;
            sod = nat (secs mod 86400);
            z = days + 719468;
            era = (if 0 \<le> z then z else z - 146096) sdiv 146097;
            doe = z - era * 146097;
            yoe = (doe - doe sdiv 1460 + doe sdiv 36524 - doe sdiv 146096) sdiv 365;
            y = yoe + era * 400;
            doy = doe - (365 * yoe + yoe sdiv 4 - yoe sdiv 100);
            mp = (5 * doy + 2) sdiv 153;
            d = doy - (153 * mp + 2) sdiv 5 + 1;
            m = (if mp < 10 then mp + 3 else mp - 9)
        in \<lparr>dt_second = sod mod 60, dt_minute = sod div 60 mod 60, dt_hour = sod div 3600,
            dt_day = nat (d mod 256), dt_month = nat (m mod 256),
            dt_year = nat ((if m \<le> 2 then y + 1 else y) mod 65536)\<rparr>))"

definition is_leap :: "nat \<Rightarrow> bool" where
  "is_leap y \<longleftrightarrow> (y mod 4 = 0 \<and> y mod 100 \<noteq> 0) \<or> y mod 400 = 0"

definition days_in_month :: "nat \<Rightarrow> nat \<Rightarrow> nat" where
  "days_in_month year month =
     (if month \<in> {1, 3, 5, 7, 8, 10, 12} then 31
      else if month \<in> {4, 6, 9, 11} then 30
      else if month = 2 then (if is_leap year then 29 else 28)
      else 30)"

text \<open>\<open>d.year += 1\<close> and the like overflow (or underflow) into a panic at the width of the field.\<close>

definition next_day :: "datetime \<Rightarrow> ('e, datetime) res" where
  "next_day d =
     (if days_in_month (dt_year d) (dt_month d) \<le> dt_day d then
        (if dt_month d = 12 then
           (if dt_year d + 1 < 65536
            then Ok (d\<lparr>dt_year := dt_year d + 1, dt_month := 1, dt_day := 1\<rparr>) else Panic)
         else
           (if dt_month d + 1 < 256 then Ok (d\<lparr>dt_month := dt_month d + 1, dt_day := 1\<rparr>)
            else Panic))
      else Ok (d\<lparr>dt_day := dt_day d + 1\<rparr>))"

definition prev_day :: "datetime \<Rightarrow> ('e, datetime) res" where
  "prev_day d =
     (if 1 < dt_day d then Ok (d\<lparr>dt_day := dt_day d - 1\<rparr>)
      else if dt_month d = 1 then
        (if dt_year d = 0 then Panic
         else Ok (d\<lparr>dt_year := dt_year d - 1, dt_month := 12,
                    dt_day := days_in_month (dt_year d - 1) 12\<rparr>))
      else if dt_month d = 0 then Panic
      else Ok (d\<lparr>dt_month := dt_month d - 1,
                  dt_day := days_in_month (dt_year d) (dt_month d - 1)\<rparr>))"

primrec iterR :: "nat \<Rightarrow> ('a \<Rightarrow> ('e, 'a) res) \<Rightarrow> 'a \<Rightarrow> ('e, 'a) res" where
  "iterR 0 f a = Ok a"
| "iterR (Suc n) f a = bindR (f a) (iterR n f)"

text \<open>The time-of-day fields are overwritten from \<open>sod\<close>, as \<open>to_local\<close> and \<open>now_utc\<close> do.\<close>

definition set_sod :: "nat \<Rightarrow> datetime \<Rightarrow> datetime" where
  "set_sod sod d =
     d\<lparr>dt_second := sod mod 60, dt_minute := sod div 60 mod 60, dt_hour := sod div 3600\<rparr>"

definition to_local :: "int \<Rightarrow> datetime \<Rightarrow> ('e, datetime) res" where
  "to_local tz dt =
     (let total = int (secs_of_day dt) + tz;
          day_shift = total div 86400;
          sod = nat (total mod 86400);
          d = set_sod sod dt
      in if 0 < day_shift then iterR (nat day_shift) next_day d
         else if day_shift < 0 then iterR (nat (- day_shift)) prev_day d
         else Ok d)"

definition TICK_HZ :: nat where "TICK_HZ = 100"

text \<open>\<open>now_utc\<close>: the boot time (\<open>BOOT_TIME\<close>) advanced by \<open>pit::ticks()\<close>.\<close>

definition now_utc :: "datetime \<Rightarrow> nat \<Rightarrow> ('e, datetime) res" where
  "now_utc boot ticks =
     (let up_secs = int (ticks div TICK_HZ);
          sod = int (secs_of_day boot) + up_secs;
          day_shift = sod div 86400;
          rest = nat (sod mod 86400)
      in iterR (nat day_shift) next_day (set_sod rest boot))"

subsection \<open>Reading the CMOS\<close>

record cmos =
  cm_reads :: nat
  cm_reg :: "nat \<Rightarrow> u8 \<Rightarrow> u8"

definition read_reg :: "u8 \<Rightarrow> cmos \<Rightarrow> u8 \<times> cmos" where
  "read_reg r c = (cm_reg c (cm_reads c) r, c\<lparr>cm_reads := cm_reads c + 1\<rparr>)"

fun update_in_progress_loop :: "nat \<Rightarrow> cmos \<Rightarrow> bool \<times> cmos" where
  "update_in_progress_loop n c =
     (if n = 0 then (False, c)
      else case read_reg 0x0A c of (a, c') \<Rightarrow>
        if a AND 0x80 = 0 then (False, c') else update_in_progress_loop (n - 1) c')"

declare update_in_progress_loop.simps [simp del]

definition update_in_progress :: "cmos \<Rightarrow> bool \<times> cmos" where
  "update_in_progress c = update_in_progress_loop 1000000 c"

definition read_field :: "u8 \<Rightarrow> cmos \<Rightarrow> u8 \<times> cmos" where
  "read_field r c = (case update_in_progress c of (_, c') \<Rightarrow> read_reg r c')"

primrec read_fields :: "u8 list \<Rightarrow> cmos \<Rightarrow> u8 list \<times> cmos" where
  "read_fields [] c = ([], c)"
| "read_fields (r # rs) c =
     (case read_field r c of (v, c') \<Rightarrow>
        case read_fields rs c' of (vs, c'') \<Rightarrow> (v # vs, c''))"

definition raw_snapshot :: "cmos \<Rightarrow> u8 list \<times> cmos" where
  "raw_snapshot c = read_fields [0x00, 0x02, 0x04, 0x07, 0x08, 0x09, 0x32] c"

text \<open>\<open>decode\<close>: BCD, 12-hour and century decoding according to status register B.\<close>

definition bcd_or_raw :: "bool \<Rightarrow> u8 \<Rightarrow> u8" where
  "bcd_or_raw bcd v = (if bcd then (v AND 0x0F) + drop_bit 4 v * 10 else v)"

definition decode_hour :: "u8 \<Rightarrow> u8 \<Rightarrow> u8" where
  "decode_hour status_b r =
     (let bcd = (status_b AND 0x04 = 0) in
      if status_b AND 0x02 = 0 then
        (let h12 = bcd_or_raw bcd (r AND 0x7F); pm = (r AND 0x80 \<noteq> 0) in
         if pm then (if h12 = 12 then 12 else h12 + 12)
         else (if h12 = 12 then 0 else h12))
      else bcd_or_raw bcd r)"

definition decode :: "u8 list \<Rightarrow> u8 \<Rightarrow> datetime" where
  "decode raw status_b =
     (let d = bcd_or_raw (status_b AND 0x04 = 0);
          year_raw = unat (d (raw ! 5));
          year = (if 19 \<le> raw ! 6 then unat (d (raw ! 6)) * 100 + year_raw else 2000 + year_raw)
      in \<lparr>dt_second = unat (d (raw ! 0)), dt_minute = unat (d (raw ! 1)),
          dt_hour = unat (decode_hour status_b (raw ! 2)),
          dt_day = unat (d (raw ! 3)), dt_month = unat (d (raw ! 4)), dt_year = year\<rparr>)"

fun read_datetime_stable_loop :: "nat \<Rightarrow> u8 \<Rightarrow> cmos \<Rightarrow> datetime option \<times> cmos" where
  "read_datetime_stable_loop n status_b c =
     (if n = 0 then (None, c)
      else case raw_snapshot c of (a, c1) \<Rightarrow>
        case raw_snapshot c1 of (b, c2) \<Rightarrow>
          if a = b then (Some (decode a status_b), c2)
          else read_datetime_stable_loop (n - 1) status_b c2)"

declare read_datetime_stable_loop.simps [simp del]

definition read_datetime_stable :: "u8 \<Rightarrow> cmos \<Rightarrow> datetime option \<times> cmos" where
  "read_datetime_stable status_b c = read_datetime_stable_loop 10 status_b c"

record rtc_state =
  boot_time :: datetime
  rtc_ok :: bool
  tz_offset :: int

text \<open>The initial values of \<open>BOOT_TIME\<close>, \<open>RTC_OK\<close> and \<open>TZ_OFFSET_SECS\<close>.\<close>

definition rtc_start :: rtc_state where
  "rtc_start = \<lparr>boot_time = ZEROED, rtc_ok = False, tz_offset = 5 * 3600 + 30 * 60\<rparr>"

definition set_tz_offset_secs :: "int \<Rightarrow> rtc_state \<Rightarrow> rtc_state" where
  "set_tz_offset_secs secs s = s\<lparr>tz_offset := secs\<rparr>"

definition rtc_init :: "cmos \<Rightarrow> rtc_state \<Rightarrow> ('e, rtc_state) res" where
  "rtc_init c s =
     (case read_reg 0x0B c of (status_b, c1) \<Rightarrow>
      case read_datetime_stable status_b c1 of (dt, c2) \<Rightarrow>
        (case dt of
           Some d \<Rightarrow>
             if 1 \<le> dt_month d \<and> dt_month d \<le> 12 \<and> 1 \<le> dt_day d \<and> dt_day d \<le> 31
             then bindR (to_local (tz_offset s) d) (\<lambda>_. Ok (s\<lparr>boot_time := d, rtc_ok := True\<rparr>))
             else Ok s
         | None \<Rightarrow> Ok s))"

definition rtc_now :: "rtc_state \<Rightarrow> nat \<Rightarrow> ('e, datetime) res" where
  "rtc_now s ticks = bindR (now_utc (boot_time s) ticks) (to_local (tz_offset s))"

definition now_secs_of_day :: "rtc_state \<Rightarrow> nat \<Rightarrow> ('e, nat) res" where
  "now_secs_of_day s ticks =
     (if rtc_ok s then bindR (rtc_now s ticks) (\<lambda>d. Ok (secs_of_day d))
      else Ok (ticks div TICK_HZ mod 86400))"

definition pad2 :: "nat \<Rightarrow> string" where
  "pad2 n = (if n < 10 then CHR ''0'' # dec n else dec n)"

definition format_hms :: "nat \<Rightarrow> string" where
  "format_hms s = pad2 (s div 3600) @ '':'' @ pad2 (s mod 3600 div 60) @ '':'' @ pad2 (s mod 60)"

section \<open>The civil calendar\<close>

definition valid_date :: "datetime \<Rightarrow> bool" where
  "valid_date d \<longleftrightarrow> 1 \<le> dt_year d \<and> dt_year d < 65536 \<and> 1 \<le> dt_month d \<and> dt_month d \<le> 12 \<and>
     1 \<le> dt_day d \<and> dt_day d \<le> days_in_month (dt_year d) (dt_month d)"

definition valid_time :: "datetime \<Rightarrow> bool" where
  "valid_time d \<longleftrightarrow> dt_hour d < 24 \<and> dt_minute d < 60 \<and> dt_second d < 60"

definition valid_datetime :: "datetime \<Rightarrow> bool" where
  "valid_datetime d \<longleftrightarrow> valid_date d \<and> valid_time d"

text \<open>The March-based year, month and day of the year.\<close>

definition march_year :: "datetime \<Rightarrow> int" where
  "march_year d = int (dt_year d) - (if dt_month d \<le> 2 then 1 else 0)"

definition march_month :: "datetime \<Rightarrow> int" where
  "march_month d = (if dt_month d > 2 then int (dt_month d) - 3 else int (dt_month d) + 9)"

definition march_doy :: "datetime \<Rightarrow> int" where
  "march_doy d = (153 * march_month d + 2) div 5 + int (dt_day d) - 1"

definition year_days :: "int \<Rightarrow> int" where
  "year_days y = 365 * y + y div 4 - y div 100 + y div 400"

lemma days_from_civil_closed:
  assumes "1 \<le> dt_year d" "1 \<le> dt_month d"
  shows "days_from_civil d = year_days (march_year d) + march_doy d - 719468"
proof -
  define y where "y = march_year d"
  have y: "0 \<le> y" using assms by (simp add: y_def march_year_def)
  define e where "e = y div 400"
  define r where "r = y mod 400"
  have yer: "y = 400 * e + r" and r: "0 \<le> r" "r < 400" by (simp_all add: e_def r_def)
  have yoe: "y - y div 400 * 400 = r" by (simp add: r_def minus_div_mult_eq_mod)
  have m0: "0 \<le> march_month d" using assms by (simp add: march_month_def)
  have ifm: "(if 2 < int (dt_month d) then int (dt_month d) - 3 else int (dt_month d) + 9)
      = march_month d"
    by (simp add: march_month_def)
  have sd: "(if 0 \<le> y then y else y - 399) sdiv 400 = e" "r sdiv 4 = r div 4" "r sdiv 100 = r div 100"
    "(153 * march_month d + 2) sdiv 5 = (153 * march_month d + 2) div 5"
    using y r m0 by (simp_all add: sdiv_nonneg e_def)
  have "days_from_civil d = e * 146097 + (r * 365 + r div 4 - r div 100 + march_doy d) - 719468"
    unfolding days_from_civil_def Let_def ifm march_year_def [symmetric] y_def [symmetric] sd(1)
    unfolding e_def yoe unfolding sd(2,3,4) march_doy_def by simp
  also have "\<dots> = year_days y + march_doy d - 719468"
  proof -
    have "(400 * e + r) div 4 = 100 * e + r div 4" "(400 * e + r) div 100 = 4 * e + r div 100"
      "(400 * e + r) div 400 = e + r div 400"
      using div_mult_self4 [of 4 "100 * e" r] div_mult_self4 [of 100 "4 * e" r]
        div_mult_self4 [of 400 e r]
      by simp_all
    then show ?thesis using r unfolding year_days_def yer by simp
  qed
  finally show ?thesis by (simp add: y_def)
qed

lemma pred_div_mod:
  assumes "0 < n"
  shows "(x - 1) div n = x div n - (if x mod n = 0 then 1 else (0 :: int))"
    and "(x - 1) mod n = (if x mod n = 0 then n - 1 else x mod n - 1)"
proof -
  have z: "x - 1 = n * (x div n - 1) + (n - 1)" if "x mod n = 0"
    using that mult_div_mod_eq [of n x] by (simp add: algebra_simps)
  have nz: "x - 1 = n * (x div n) + (x mod n - 1)" by simp
  have b: "0 \<le> x mod n - 1 \<and> x mod n - 1 < n" if "x mod n \<noteq> 0"
    using assms that pos_mod_bound [of n x] pos_mod_sign [of n x] by linarith
  show "(x - 1) div n = x div n - (if x mod n = 0 then 1 else 0)"
    using int_div_pos_eq [OF z] int_div_pos_eq [OF nz] b assms by auto
  show "(x - 1) mod n = (if x mod n = 0 then n - 1 else x mod n - 1)"
    using int_mod_pos_eq [OF z] int_mod_pos_eq [OF nz] b assms by auto
qed

lemmas pred_div = pred_div_mod(1) and pred_mod = pred_div_mod(2)

lemma year_days_step:
  "year_days (int Y) = year_days (int Y - 1) + (if is_leap Y then 366 else 365)"
proof -
  have a: "(int Y - 1) div 4 = int Y div 4 - (if int Y mod 4 = 0 then 1 else 0)"
    "(int Y - 1) div 100 = int Y div 100 - (if int Y mod 100 = 0 then 1 else 0)"
    "(int Y - 1) div 400 = int Y div 400 - (if int Y mod 400 = 0 then 1 else 0)"
    by (rule pred_div; simp)+
  have mods: "int Y mod 400 = 0 \<longrightarrow> int Y mod 100 = 0" "int Y mod 100 = 0 \<longrightarrow> int Y mod 4 = 0"
    by (auto simp flip: dvd_eq_mod_eq_0 intro: dvd_trans [of _ 400] dvd_trans [of _ 100])
  have l: "is_leap Y \<longleftrightarrow> (int Y mod 4 = 0 \<and> int Y mod 100 \<noteq> 0) \<or> int Y mod 400 = 0"
  proof -
    have "int Y mod 4 = int (Y mod 4)" "int Y mod 100 = int (Y mod 100)"
      "int Y mod 400 = int (Y mod 400)"
      by (simp_all add: zmod_int)
    then show ?thesis unfolding is_leap_def by simp
  qed
  show ?thesis
    using mods unfolding l year_days_def a by (simp split: if_splits)
qed

lemma month_cases:
  assumes "1 \<le> m" "m \<le> (12 :: nat)"
  shows "m \<in> {1, 2, 3, 4, 5, 6, 7, 8, 9, 10, 11, 12}"
proof (cases "m \<le> 6")
  case True
  then have "m = 1 \<or> m = 2 \<or> m = 3 \<or> m = 4 \<or> m = 5 \<or> m = 6" using assms by auto
  then show ?thesis by auto
next
  case False
  then have "m = 7 \<or> m = 8 \<or> m = 9 \<or> m = 10 \<or> m = 11 \<or> m = 12" using assms by auto
  then show ?thesis by auto
qed

lemmas march_defs = march_doy_def march_month_def march_year_def

lemma next_day_month_end:
  assumes v: "valid_date d" and e: "dt_day d = days_in_month (dt_year d) (dt_month d)"
    and m: "dt_month d \<noteq> 12" "dt_month d \<noteq> 2"
  shows "(153 * march_month (d\<lparr>dt_month := dt_month d + 1, dt_day := 1\<rparr>) + 2) div 5
    = (153 * march_month d + 2) div 5 + int (dt_day d)"
proof -
  from v have "dt_month d \<in> {1, 2, 3, 4, 5, 6, 7, 8, 9, 10, 11, 12}"
    by (intro month_cases) (simp_all add: valid_date_def)
  with m have "dt_month d \<in> {1, 3, 4, 5, 6, 7, 8, 9, 10, 11}" by simp
  then show ?thesis
    by (elim insertE emptyE) (simp_all add: e march_month_def days_in_month_def)
qed

lemma next_day_days:
  assumes v: "valid_date d" and n: "next_day d = Ok d'"
  shows "days_from_civil d' = days_from_civil d + 1"
proof (cases "days_in_month (dt_year d) (dt_month d) \<le> dt_day d")
  case False
  then have d': "d' = d\<lparr>dt_day := dt_day d + 1\<rparr>" using n by (simp add: next_day_def)
  then have "march_doy d' = march_doy d + 1" "march_year d' = march_year d"
    by (simp_all add: march_defs)
  then show ?thesis using v d' by (simp add: days_from_civil_closed valid_date_def)
next
  case True
  then have e: "dt_day d = days_in_month (dt_year d) (dt_month d)"
    using v by (simp add: valid_date_def)
  show ?thesis
  proof (cases "dt_month d = 12")
    case m: True
    with n True have "d' = d\<lparr>dt_year := dt_year d + 1, dt_month := 1, dt_day := 1\<rparr>"
      by (simp add: next_day_def split: if_splits)
    then show ?thesis using v m e
      by (simp add: days_from_civil_closed valid_date_def march_defs days_in_month_def)
  next
    case m: False
    with n True have d': "d' = d\<lparr>dt_month := dt_month d + 1, dt_day := 1\<rparr>"
      by (simp add: next_day_def split: if_splits)
    show ?thesis
    proof (cases "dt_month d = 2")
      case f: True
      have "march_year d = int (dt_year d) - 1" "march_year d' = int (dt_year d)"
        "march_doy d' = 0" "march_doy d = (if is_leap (dt_year d) then 365 else 364)"
        using f d' e by (simp_all add: march_defs days_in_month_def)
      then show ?thesis using v d' year_days_step [of "dt_year d"]
        by (simp add: days_from_civil_closed valid_date_def)
    next
      case f: False
      have "march_year d' = march_year d" using m f d' by (simp add: march_year_def)
      moreover have "march_doy d' = march_doy d + 1"
        using next_day_month_end [OF v e m f] d' by (simp add: march_doy_def)
      ultimately show ?thesis using v d' by (simp add: days_from_civil_closed valid_date_def)
    qed
  qed
qed

lemma days_in_month_ge: "28 \<le> days_in_month y m"
  by (simp add: days_in_month_def)

lemma next_day_valid:
  assumes v: "valid_date d" and n: "next_day d = Ok d'"
  shows "valid_date d'"
proof (cases "days_in_month (dt_year d) (dt_month d) \<le> dt_day d")
  case True
  then show ?thesis
    using v n days_in_month_ge [of "dt_year d'" "dt_month d'"]
    by (cases "dt_month d = 12") (auto simp: next_day_def valid_date_def split: if_splits)
next
  case False
  then show ?thesis using v n by (auto simp: next_day_def valid_date_def)
qed

lemma next_day_time:
  "next_day d = Ok d' \<Longrightarrow> dt_hour d' = dt_hour d \<and> dt_minute d' = dt_minute d \<and> dt_second d' = dt_second d"
  by (auto simp: next_day_def split: if_splits)

lemma next_day_total:
  "valid_date d \<Longrightarrow> dt_year d < 65535 \<Longrightarrow>
   \<exists>d'. next_day d = Ok d' \<and> dt_year d \<le> dt_year d' \<and> dt_year d' \<le> dt_year d + 1"
  by (auto simp: next_day_def valid_date_def)

lemma prev_next_day:
  assumes v: "valid_date d" and p: "prev_day d = Ok d'" and y: "2 \<le> dt_year d"
  shows "valid_date d' \<and> next_day d' = Ok d"
proof (cases "1 < dt_day d")
  case True
  then show ?thesis using v p by (auto simp: prev_day_def next_day_def valid_date_def)
next
  case False
  then have d1: "dt_day d = 1" using v by (simp add: valid_date_def)
  show ?thesis
  proof (cases "dt_month d = 1")
    case True
    then have d': "d' = d\<lparr>dt_year := dt_year d - 1, dt_month := 12, dt_day := 31\<rparr>"
      using p y d1 by (simp add: prev_day_def days_in_month_def)
    have yb: "dt_year d < 65536" using v by (simp add: valid_date_def)
    have "valid_date d'" using yb y d' by (auto simp: valid_date_def days_in_month_def)
    moreover have "d\<lparr>dt_year := dt_year d, dt_month := 1, dt_day := 1\<rparr> = d"
      by (rule datetime.equality) (simp_all add: True d1)
    then have "next_day d' = Ok d"
      using yb y d' by (simp add: next_day_def days_in_month_def)
    ultimately show ?thesis by simp
  next
    case m1: False
    then have d': "d' = d\<lparr>dt_month := dt_month d - 1,
        dt_day := days_in_month (dt_year d) (dt_month d - 1)\<rparr>"
      and m: "1 < dt_month d" "dt_month d \<le> 12"
      using v p d1 by (auto simp: prev_day_def valid_date_def)
    have "valid_date d'"
      using v m d' days_in_month_ge [of "dt_year d" "dt_month d - 1"]
      by (auto simp: valid_date_def)
    moreover have "d\<lparr>dt_month := dt_month d - 1 + 1, dt_day := 1\<rparr> = d"
      by (rule datetime.equality) (use m d1 in simp_all)
    then have "next_day d' = Ok d" using m d' by (auto simp: next_day_def)
    ultimately show ?thesis by simp
  qed
qed

lemma prev_day_total:
  "valid_date d \<Longrightarrow>
   \<exists>d'. prev_day d = Ok d' \<and> dt_year d \<le> dt_year d' + 1 \<and> dt_year d' \<le> dt_year d"
  by (auto simp: prev_day_def valid_date_def)

section \<open>Unix seconds and back\<close>

definition unix_of :: "datetime \<Rightarrow> int" where
  "unix_of d = days_from_civil d * 86400 + int (secs_of_day d)"

text \<open>The year of the 400-year era is recovered from the day of the era.\<close>

lemma year_of_era:
  assumes r: "0 \<le> r" "r < 400" and n: "0 \<le> n"
    and leap: "n \<le> 364 \<or> n = 365 \<and> r mod 4 = 3 \<and> (r mod 100 \<noteq> 99 \<or> r = 399)"
    and doe: "doe = 365 * r + r div 4 - r div 100 + n"
  shows "0 \<le> doe \<and> doe \<le> 146096 \<and>
    (doe - doe div 1460 + doe div 36524 - doe div 146096) div 365 = (r :: int)"
proof -
  define c where "c = r div 100"
  define q where "q = r mod 100 div 4"
  define k where "k = r mod 4"
  have k: "k = r mod 100 mod 4" unfolding k_def by (simp add: mod_mod_cancel)
  have r_eq: "r = 100 * c + 4 * q + k"
    unfolding c_def q_def k using div_mult_mod_eq [of "r mod 100" 4] div_mult_mod_eq [of r 100]
    by linarith
  have b: "0 \<le> c" "c \<le> 3" "0 \<le> q" "q \<le> 24" "0 \<le> k" "k \<le> 3"
    using r pos_mod_bound [of 100 r] pos_mod_sign [of 100 r] unfolding c_def q_def k_def by auto
  have r100: "r mod 100 = 4 * q + k" unfolding q_def k by simp
  have "r div 4 = 25 * c + q"
    by (rule int_div_pos_eq [of _ _ _ k]) (use r_eq b in simp_all)
  then have e: "doe = 36524 * c + 1461 * q + 365 * k + n"
    using doe c_def r_eq by linarith
  have nb: "n \<le> 365" using leap by auto
  have full: "n = 365 \<Longrightarrow> k = 3 \<and> (q \<le> 23 \<or> c = 3)"
  proof -
    assume n365: "n = 365"
    have k3: "k = 3" using leap n365 k_def by linarith
    have "4 * q + k \<noteq> 99 \<or> r = 399" using leap n365 r100 by linarith
    then show "k = 3 \<and> (q \<le> 23 \<or> c = 3)" using k3 r_eq b by linarith
  qed
  have d146096: "doe div 146096 = (if doe = 146096 then 1 else 0)" and "0 \<le> doe" "doe \<le> 146096"
  proof -
    have "doe \<le> 146096"
      using e b nb full by (cases "n = 365") auto
    moreover have "0 \<le> doe" using e b n by simp
    ultimately show "0 \<le> doe" "doe \<le> 146096"
      "doe div 146096 = (if doe = 146096 then 1 else 0)"
      by simp_all
  qed
  have d36524: "doe div 36524 = (if doe = 146096 then 4 else c)"
  proof (cases "doe = 146096")
    case False
    have "1461 * q + 365 * k + n < 36524"
      using False e b nb full by (cases "n = 365") auto
    then show ?thesis using False e b n by (intro trans [OF int_div_pos_eq]) auto
  qed simp
  define del where "del = (if 1460 \<le> 24 * c + q + 365 * k + n then 1 else (0 :: int))"
  have d1460: "doe div 1460 = 25 * c + q + del"
    by (rule int_div_pos_eq [of _ _ _ "24 * c + q + 365 * k + n - 1460 * del"])
      (use e b n nb in \<open>auto simp: del_def\<close>)
  have num: "doe - doe div 1460 + doe div 36524 - doe div 146096 = 365 * r + (n - del)"
  proof (cases "doe = 146096")
    case True
    then have "c = 3" using e b nb by auto
    then show ?thesis using True d1460 e r_eq unfolding d146096 d36524 by simp
  next
    case False
    then show ?thesis using d1460 e r_eq unfolding d146096 d36524 by simp
  qed
  have "0 \<le> n - del" "n - del < 365"
    using b n nb full unfolding del_def by (cases "n = 365"; auto)+
  then show ?thesis
    using num \<open>0 \<le> doe\<close> \<open>doe \<le> 146096\<close> int_div_pos_eq [of _ 365 r "n - del"] by simp
qed

lemma valid_date_month:
  "valid_date d \<Longrightarrow> dt_month d \<in> {1, 2, 3, 4, 5, 6, 7, 8, 9, 10, 11, 12}"
  by (intro month_cases) (simp_all add: valid_date_def)

lemma month_of_doy:
  assumes v: "valid_date d"
  shows "(5 * march_doy d + 2) div 153 = march_month d"
proof -
  from v have day: "1 \<le> dt_day d" "dt_day d \<le> days_in_month (dt_year d) (dt_month d)"
    by (simp_all add: valid_date_def)
  from valid_date_month [OF v] show ?thesis
    using day by (elim insertE emptyE)
      (simp_all add: march_doy_def march_month_def days_in_month_def split: if_splits)
qed

lemma march_doy_bound:
  assumes v: "valid_date d"
  shows "0 \<le> march_doy d"
    and "march_doy d \<le> 364 \<or> march_doy d = 365 \<and> dt_month d = 2 \<and> is_leap (dt_year d)"
proof -
  from v have day: "1 \<le> dt_day d" "dt_day d \<le> days_in_month (dt_year d) (dt_month d)"
    by (simp_all add: valid_date_def)
  from valid_date_month [OF v] day
  show "0 \<le> march_doy d"
    by (elim insertE emptyE) (simp_all add: march_doy_def march_month_def)
  from valid_date_month [OF v] day
  show "march_doy d \<le> 364 \<or> march_doy d = 365 \<and> dt_month d = 2 \<and> is_leap (dt_year d)"
    by (elim insertE emptyE)
      (auto simp: march_doy_def march_month_def days_in_month_def split: if_splits)
qed

lemma leap_year_of_era:
  assumes "is_leap Y" and r: "r = (int Y - 1) mod 400"
  shows "r mod 4 = 3 \<and> (r mod 100 \<noteq> 99 \<or> r = 399)"
proof -
  have "(Y mod 4 = 0 \<and> Y mod 100 \<noteq> 0) \<or> (Y mod 400 = 0 \<and> Y mod 4 = 0)"
    using assms(1) mod_mod_cancel [of 4 400 Y] by (auto simp: is_leap_def)
  then have y4: "int Y mod 4 = 0" and y100: "int Y mod 100 \<noteq> 0 \<or> int Y mod 400 = 0"
    using zmod_int [of Y 4] zmod_int [of Y 100] zmod_int [of Y 400] by auto
  have r4: "r mod 4 = (int Y - 1) mod 4" and r100: "r mod 100 = (int Y - 1) mod 100"
    unfolding r by (simp_all add: mod_mod_cancel)
  have "r mod 4 = 3" unfolding r4 pred_mod [OF zero_less_numeral] y4 by simp
  moreover have "r mod 100 \<noteq> 99 \<or> r = 399"
  proof (cases "int Y mod 100 = 0")
    case True
    with y100 have "int Y mod 400 = 0" by blast
    then show ?thesis unfolding r pred_mod [OF zero_less_numeral] by simp
  next
    case False
    have "int Y mod 100 < 100" by (rule pos_mod_bound) simp
    with False have "r mod 100 < 99" unfolding r100 pred_mod [OF zero_less_numeral] by simp
    then show ?thesis by simp
  qed
  ultimately show ?thesis by simp
qed

lemma civil_decomposition:
  assumes v: "valid_date d"
  defines "r \<equiv> march_year d mod 400" and "e \<equiv> march_year d div 400"
  defines "doe \<equiv> 365 * r + r div 4 - r div 100 + march_doy d"
  shows "days_from_civil d + 719468 = 146097 * e + doe"
    and "0 \<le> doe \<and> doe \<le> 146096 \<and>
      (doe - doe div 1460 + doe div 36524 - doe div 146096) div 365 = r"
proof -
  have rb: "0 \<le> r" "r < 400" by (simp_all add: r_def)
  have Y: "march_year d = 400 * e + r" by (simp add: e_def r_def)
  have divs: "(400 * e + r) div 4 = 100 * e + r div 4" "(400 * e + r) div 100 = 4 * e + r div 100"
    "(400 * e + r) div 400 = e"
    using div_mult_self4 [of 4 "100 * e" r] div_mult_self4 [of 100 "4 * e" r]
      div_mult_self4 [of 400 e r] rb
    by simp_all
  show "days_from_civil d + 719468 = 146097 * e + doe"
    using v days_from_civil_closed [of d] unfolding year_days_def Y divs doe_def
    by (simp add: valid_date_def)
  have leap: "march_doy d \<le> 364 \<or> march_doy d = 365 \<and> r mod 4 = 3 \<and> (r mod 100 \<noteq> 99 \<or> r = 399)"
  proof (cases "march_doy d \<le> 364")
    case False
    then have "march_doy d = 365" "dt_month d = 2" "is_leap (dt_year d)"
      using march_doy_bound [OF v] by auto
    moreover from this have "r = (int (dt_year d) - 1) mod 400" by (simp add: r_def march_year_def)
    ultimately show ?thesis using leap_year_of_era by blast
  qed simp
  show "0 \<le> doe \<and> doe \<le> 146096 \<and>
      (doe - doe div 1460 + doe div 36524 - doe div 146096) div 365 = r"
    by (rule year_of_era [OF rb march_doy_bound(1) [OF v] leap]) (simp add: doe_def)
qed

lemma secs_of_day_lt: "valid_time d \<Longrightarrow> secs_of_day d < 86400"
  by (simp add: valid_time_def secs_of_day_def)

lemma unix_of_split:
  assumes "valid_time d"
  shows "unix_of d div 86400 = days_from_civil d" "unix_of d mod 86400 = int (secs_of_day d)"
proof -
  have eq: "unix_of d = 86400 * days_from_civil d + int (secs_of_day d)" by (simp add: unix_of_def)
  have b: "0 \<le> int (secs_of_day d)" "int (secs_of_day d) < 86400"
    using secs_of_day_lt [OF assms] by simp_all
  show "unix_of d div 86400 = days_from_civil d" by (rule int_div_pos_eq [OF eq b])
  show "unix_of d mod 86400 = int (secs_of_day d)" by (rule int_mod_pos_eq [OF eq b])
qed

lemma sod_fields:
  assumes "valid_time d"
  shows "secs_of_day d mod 60 = dt_second d" "secs_of_day d div 60 mod 60 = dt_minute d"
    "secs_of_day d div 3600 = dt_hour d"
proof -
  have h: "secs_of_day d = 60 * (60 * dt_hour d + dt_minute d) + dt_second d"
    "secs_of_day d = 3600 * dt_hour d + (60 * dt_minute d + dt_second d)"
    by (simp_all add: secs_of_day_def)
  have t: "dt_second d < 60" "dt_minute d < 60" "60 * dt_minute d + dt_second d < 3600"
    using assms by (auto simp: valid_time_def)
  have "secs_of_day d mod 60 = dt_second d mod 60" unfolding h(1) by (rule mod_mult_self4)
  then show "secs_of_day d mod 60 = dt_second d" using t by simp
  have "secs_of_day d div 60 = 60 * dt_hour d + dt_minute d"
    by (rule div_nat_eqI) (use t h(1) in auto)
  then show "secs_of_day d div 60 mod 60 = dt_minute d" using t by simp
  show "secs_of_day d div 3600 = dt_hour d"
    by (rule div_nat_eqI) (use t h(2) in auto)
qed

lemma from_unix_unix_of:
  assumes v: "valid_datetime d" and pos: "0 < unix_of d"
  shows "from_unix (unix_of d) = d"
proof -
  have vd: "valid_date d" and vt: "valid_time d" using v by (simp_all add: valid_datetime_def)
  define r where "r = march_year d mod 400"
  define e where "e = march_year d div 400"
  define doe where "doe = 365 * r + r div 4 - r div 100 + march_doy d"
  note dec = civil_decomposition [OF vd, folded r_def e_def, folded doe_def]
  define z where "z = days_from_civil d + 719468"
  have zeq: "z = 146097 * e + doe" using dec(1) by (simp add: z_def)
  have Y0: "0 \<le> march_year d" using vd by (simp add: march_year_def valid_date_def)
  have e0: "0 \<le> e" using Y0 by (simp add: e_def pos_imp_zdiv_nonneg_iff)
  have r0: "0 \<le> r" by (simp add: r_def)
  have db: "0 \<le> doe" "doe < 146097" using dec(2) by auto
  have z0: "0 \<le> z" using zeq e0 db by simp
  have era: "(if 0 \<le> z then z else z - 146096) sdiv 146097 = e"
    using z0 int_div_pos_eq [OF zeq db] by (simp add: sdiv_nonneg)
  have doe: "z - e * 146097 = doe" using zeq by simp
  have num0: "0 \<le> doe - doe div 1460 + doe div 36524 - doe div 146096"
    using dec(2) r0 by (metis div_neg_pos_less0 not_less zero_less_numeral)
  have yoe: "(doe - doe sdiv 1460 + doe sdiv 36524 - doe sdiv 146096) sdiv 365 = r"
    using dec(2) num0 db by (simp add: sdiv_nonneg)
  have doy: "doe - (365 * r + r sdiv 4 - r sdiv 100) = march_doy d"
    using r0 by (simp add: doe_def sdiv_nonneg)
  have n0: "0 \<le> march_doy d" by (rule march_doy_bound(1) [OF vd])
  have mp: "(5 * march_doy d + 2) sdiv 153 = march_month d"
    using n0 month_of_doy [OF vd] by (simp add: sdiv_nonneg)
  have m0: "0 \<le> march_month d" by (simp add: march_month_def)
  have day: "march_doy d - (153 * march_month d + 2) sdiv 5 + 1 = int (dt_day d)"
    using m0 by (simp add: march_doy_def sdiv_nonneg)
  have month: "(if march_month d < 10 then march_month d + 3 else march_month d - 9) = int (dt_month d)"
    using vd by (auto simp: march_month_def valid_date_def)
  have year: "r + e * 400 = march_year d" by (simp add: r_def e_def)
  have yr: "(if int (dt_month d) \<le> 2 then march_year d + 1 else march_year d) = int (dt_year d)"
    by (simp add: march_year_def)
  have bounds: "dt_day d < 256" "dt_month d < 256" "dt_year d < 65536"
    using vd by (auto simp: valid_date_def days_in_month_def split: if_splits)
  show ?thesis
    unfolding from_unix_def Let_def unix_of_split [OF vt] z_def [symmetric] era doe yoe doy mp
      day month year yr nat_int sod_fields [OF vt]
    using pos bounds by (intro datetime.equality) (simp_all add: nat_mod_as_int)
qed

text \<open>Every day number from 1970 on is the number of a valid date.\<close>

definition epoch_date :: datetime where
  "epoch_date = \<lparr>dt_second = 0, dt_minute = 0, dt_hour = 0, dt_day = 1, dt_month = 1, dt_year = 1970\<rparr>"

lemma days_from_civil_epoch: "days_from_civil epoch_date = 0"
  by (simp add: days_from_civil_closed epoch_date_def march_defs year_days_def)

lemma valid_epoch: "valid_date epoch_date"
  by (simp add: valid_date_def epoch_date_def days_in_month_def)

text \<open>The day number of 65535-12-31, the last date a \<open>u16\<close> year can hold.\<close>

definition MAX_DAY :: int where "MAX_DAY = 23217003"

lemma next_day_Panic:
  assumes v: "valid_date d" and p: "next_day d = (Panic :: ('e, datetime) res)"
  shows "days_from_civil d = MAX_DAY"
proof -
  have "dt_month d = 12" "dt_year d = 65535" "dt_day d = 31"
    using v p by (auto simp: next_day_def valid_date_def days_in_month_def split: if_splits)
  then show ?thesis by (simp add: days_from_civil_closed march_defs year_days_def MAX_DAY_def)
qed

definition same_time :: "datetime \<Rightarrow> datetime \<Rightarrow> bool" where
  "same_time d d' \<longleftrightarrow> dt_hour d' = dt_hour d \<and> dt_minute d' = dt_minute d \<and> dt_second d' = dt_second d"

lemma same_time_valid: "same_time d d' \<Longrightarrow> valid_time d \<Longrightarrow> valid_time d'"
  by (simp add: same_time_def valid_time_def)

lemma same_time_sod: "same_time d d' \<Longrightarrow> secs_of_day d' = secs_of_day d"
  by (simp add: same_time_def secs_of_day_def)

lemma next_day_step:
  assumes v: "valid_date d" and lt: "days_from_civil d < MAX_DAY"
  shows "\<exists>d'. next_day d = (Ok d' :: ('e, datetime) res) \<and> valid_date d' \<and> days_from_civil d' = days_from_civil d + 1 \<and>
    same_time d d'"
proof -
  obtain d' where n: "next_day d = (Ok d' :: ('e, datetime) res)"
    using next_day_Panic [OF v] lt by (cases "next_day d :: ('e, datetime) res") (auto simp: next_day_def split: if_splits)
  then show ?thesis
    using next_day_valid [OF v n] next_day_days [OF v n] next_day_time [OF n]
    by (auto simp: same_time_def)
qed

lemma iterR_next_day:
  assumes "valid_date d" "days_from_civil d + int n \<le> MAX_DAY"
  shows "\<exists>d'. iterR n next_day d = (Ok d' :: ('e, datetime) res) \<and> valid_date d' \<and>
    days_from_civil d' = days_from_civil d + int n \<and> same_time d d'"
  using assms
proof (induction n arbitrary: d)
  case 0
  then show ?case by (simp add: same_time_def)
next
  case (Suc n)
  then obtain d1 where d1: "next_day d = (Ok d1 :: ('e, datetime) res)" "valid_date d1"
    "days_from_civil d1 = days_from_civil d + 1" "same_time d d1"
    using next_day_step [of d] by auto
  with Suc.IH [of d1] Suc.prems(2) show ?case by (auto simp: same_time_def)
qed

lemma set_sod_facts:
  "secs_of_day (set_sod t d) = t" "days_from_civil (set_sod t d) = days_from_civil d"
  "valid_date (set_sod t d) = valid_date d" "t < 86400 \<Longrightarrow> valid_time (set_sod t d)"
proof -
  have "t div 60 div 60 = t div 3600" by (simp add: div_mult2_eq [symmetric])
  then have "t div 3600 * 3600 + t div 60 mod 60 * 60 + t mod 60 = t"
    using div_mult_mod_eq [of "t div 60" 60] div_mult_mod_eq [of t 60] by linarith
  then show "secs_of_day (set_sod t d) = t" by (simp add: secs_of_day_def set_sod_def)
  show "days_from_civil (set_sod t d) = days_from_civil d"
    by (simp add: days_from_civil_def set_sod_def)
  show "valid_date (set_sod t d) = valid_date d" by (simp add: valid_date_def set_sod_def)
  show "t < 86400 \<Longrightarrow> valid_time (set_sod t d)" by (auto simp: valid_time_def set_sod_def)
qed

lemma date_of_unix:
  assumes "0 \<le> s" "s < 86400 * (MAX_DAY + 1)"
  shows "\<exists>d. valid_datetime d \<and> unix_of d = s"
proof -
  define n where "n = nat (s div 86400)"
  have n: "int n = s div 86400" using assms by (simp add: n_def pos_imp_zdiv_nonneg_iff)
  have "s = 86400 * int n + int (nat (s mod 86400))" by (simp add: n)
  then have "86400 * int n \<le> s" by (metis le_add_same_cancel1 of_nat_0_le_iff)
  then have "86400 * int n < 86400 * (MAX_DAY + 1)" using assms(2) by (rule le_less_trans)
  then have "int n \<le> MAX_DAY" by simp
  then obtain d where d: "valid_date d" "days_from_civil d = int n"
    using iterR_next_day [OF valid_epoch, of n] by (auto simp: days_from_civil_epoch)
  define t where "t = nat (s mod 86400)"
  have t: "int t = s mod 86400" "t < 86400" by (simp_all add: t_def)
  have "valid_datetime (set_sod t d)"
    using d t(2) by (simp add: valid_datetime_def set_sod_facts)
  moreover have "unix_of (set_sod t d) = s"
    using d(2) n t(1) by (simp add: unix_of_def set_sod_facts)
  ultimately show ?thesis by blast
qed

lemma to_unix_valid: "valid_date d \<Longrightarrow> to_unix d = Some (unix_of d)"
  by (auto simp: to_unix_def unix_of_def valid_date_def)



section \<open>The running clock and the display zone\<close>

text \<open>
  Carrying a second count \<open>tot\<close> (the time of day plus an offset) over midnight: the whole days go
  to the date, the rest to the time of day, and the Unix time is that of midnight plus \<open>tot\<close>.
\<close>

lemma carry_forward:
  assumes v: "valid_date d" and t: "0 \<le> tot"
    and top: "days_from_civil d * 86400 + tot < 86400 * (MAX_DAY + 1)"
  shows "\<exists>d'. iterR (nat (tot div 86400)) next_day (set_sod (nat (tot mod 86400)) d)
      = (Ok d' :: ('e, datetime) res) \<and>
    valid_datetime d' \<and> unix_of d' = days_from_civil d * 86400 + tot"
proof -
  define k where "k = nat (tot div 86400)"
  define m where "m = nat (tot mod 86400)"
  have k: "int k = tot div 86400" using t by (simp add: k_def pos_imp_zdiv_nonneg_iff)
  have m: "int m = tot mod 86400" "m < 86400" by (simp_all add: m_def)
  have teq: "tot = 86400 * int k + int m" by (simp add: k m)
  have "86400 * (days_from_civil d + int k) < 86400 * (MAX_DAY + 1)"
    using top teq by simp
  then have "days_from_civil (set_sod m d) + int k \<le> MAX_DAY"
    by (simp add: set_sod_facts)
  then obtain d' where d': "iterR k next_day (set_sod m d) = (Ok d' :: ('e, datetime) res)"
    "valid_date d'" "days_from_civil d' = days_from_civil d + int k" "same_time (set_sod m d) d'"
    using iterR_next_day [of "set_sod m d" k] v by (auto simp: set_sod_facts)
  have "secs_of_day d' = m" using same_time_sod [OF d'(4)] by (simp add: set_sod_facts)
  then have "unix_of d' = days_from_civil d * 86400 + tot"
    using d'(3) teq by (simp add: unix_of_def)
  moreover have "valid_datetime d'"
    using d'(2) same_time_valid [OF d'(4)] m(2) by (simp add: valid_datetime_def set_sod_facts)
  ultimately show ?thesis using d'(1) by (auto simp: k_def m_def)
qed

text \<open>
  C21. The running clock is right for any uptime: from a valid boot time, \<open>now_utc\<close> returns (it does
  not panic) the valid date and time that is exactly \<open>ticks / TICK_HZ\<close> seconds after the boot time,
  across any number of midnights, month ends and leap years.
\<close>

theorem now_utc_advances_boot_time:
  assumes "valid_datetime boot" and "to_unix boot = Some t"
    and "t + int (ticks div TICK_HZ) < 86400 * (MAX_DAY + 1)"
  shows "\<exists>d. now_utc boot ticks = (Ok d :: ('e, datetime) res) \<and> valid_datetime d \<and>
    to_unix d = Some (t + int (ticks div TICK_HZ))"
proof -
  have v: "valid_date boot" using assms(1) by (simp add: valid_datetime_def)
  have t: "t = days_from_civil boot * 86400 + int (secs_of_day boot)"
    using assms(2) to_unix_valid [OF v] by (simp add: unix_of_def)
  show ?thesis
    using carry_forward [OF v, of "int (secs_of_day boot) + int (ticks div TICK_HZ)"] assms(3) t
    by (auto simp: now_utc_def Let_def to_unix_valid valid_datetime_def)
qed

theorem now_utc_advances_boot_time_witness:
  "\<exists>d. now_utc \<lparr>dt_second = 59, dt_minute = 59, dt_hour = 23, dt_day = 28, dt_month = 2,
      dt_year = 2028\<rparr> 17280000 = (Ok d :: (unit, datetime) res) \<and> valid_datetime d \<and>
    to_unix d = Some (1835395199 + 172800)"
proof -
  let ?b = "\<lparr>dt_second = 59, dt_minute = 59, dt_hour = 23, dt_day = 28, dt_month = 2, dt_year = 2028\<rparr>"
  have v: "valid_datetime ?b"
    by (simp add: valid_datetime_def valid_date_def valid_time_def days_in_month_def)
  have u: "to_unix ?b = Some 1835395199"
    by (simp add: to_unix_def days_from_civil_def secs_of_day_def signed_divide_int_def)
  show ?thesis
    using now_utc_advances_boot_time [OF v u, of 17280000] by (simp add: TICK_HZ_def MAX_DAY_def)
qed

lemma iterR_one: "iterR 1 f a = f a"
  by (cases "f a") simp_all

lemma prev_day_days:
  assumes v: "valid_date d" and y: "2 \<le> dt_year d"
  shows "\<exists>d'. prev_day d = (Ok d' :: ('e, datetime) res) \<and> valid_date d' \<and>
    days_from_civil d' = days_from_civil d - 1 \<and> same_time d d'"
proof -
  obtain d' where p: "prev_day d = (Ok d' :: ('e, datetime) res)"
    using prev_day_total [OF v] by blast
  have n: "valid_date d'" "next_day d' = (Ok d :: ('e, datetime) res)"
    using prev_next_day [OF v p y] by auto
  then show ?thesis
    using p next_day_days [OF n] next_day_time [OF n(2)] by (auto simp: same_time_def)
qed

text \<open>
  C22. The display zone: for an offset of at most one day either way (\<open>to_local\<close> documents offsets
  within 14 hours), \<open>to_local\<close> returns the valid date and time whose Unix time is the given one plus
  the offset, whichever way midnight is crossed.
\<close>

theorem to_local_shifts_by_offset:
  assumes "valid_datetime d" and "2 \<le> dt_year d" and "to_unix d = Some t"
    and "- 86400 \<le> tz" and "tz \<le> 86400" and "t + tz < 86400 * (MAX_DAY + 1)"
  shows "\<exists>d'. to_local tz d = (Ok d' :: ('e, datetime) res) \<and> valid_datetime d' \<and>
    to_unix d' = Some (t + tz)"
proof -
  have v: "valid_date d" and vt: "valid_time d" using assms(1) by (simp_all add: valid_datetime_def)
  have t: "t = days_from_civil d * 86400 + int (secs_of_day d)"
    using assms(3) to_unix_valid [OF v] by (simp add: unix_of_def)
  define tot where "tot = int (secs_of_day d) + tz"
  show ?thesis
  proof (cases "0 \<le> tot")
    case True
    then obtain d' where d': "iterR (nat (tot div 86400)) next_day (set_sod (nat (tot mod 86400)) d)
        = (Ok d' :: ('e, datetime) res)" "valid_datetime d'"
      "unix_of d' = days_from_civil d * 86400 + tot"
      using carry_forward [OF v, of tot] assms(6) t by (auto simp: tot_def)
    moreover have "\<not> tot div 86400 < 0" using True by (simp add: pos_imp_zdiv_nonneg_iff)
    ultimately have "to_local tz d = (Ok d' :: ('e, datetime) res)"
      unfolding to_local_def Let_def tot_def [symmetric] by (cases "tot div 86400 = 0") auto
    with d' t show ?thesis by (auto simp: to_unix_valid valid_datetime_def tot_def)
  next
    case False
    have m1: "tot div 86400 = - 1"
      by (rule int_div_pos_eq [of _ _ _ "tot + 86400"]) (use False assms(4) in \<open>auto simp: tot_def\<close>)
    define s where "s = nat (tot mod 86400)"
    have s: "int s = tot + 86400" "s < 86400"
      using minus_mult_div_eq_mod [of tot 86400] m1 by (simp_all add: s_def)
    obtain d' where d': "prev_day (set_sod s d) = (Ok d' :: ('e, datetime) res)" "valid_date d'"
      "days_from_civil d' = days_from_civil d - 1" "same_time (set_sod s d) d'"
      using prev_day_days [of "set_sod s d"] v assms(2) by (auto simp: set_sod_facts) 
        (auto simp: set_sod_def)
    have "to_local tz d = (Ok d' :: ('e, datetime) res)"
      unfolding to_local_def Let_def tot_def [symmetric] m1 s_def [symmetric] using d'(1) by simp
    moreover have "unix_of d' = t + tz"
      using d'(3) same_time_sod [OF d'(4)] s t by (simp add: unix_of_def set_sod_facts tot_def)
    moreover have "valid_datetime d'"
      using d'(2) same_time_valid [OF d'(4)] s(2) by (simp add: valid_datetime_def set_sod_facts)
    ultimately show ?thesis using d'(2) by (auto simp: to_unix_valid)
  qed
qed

theorem to_local_shifts_by_offset_witness:
  "\<exists>d'. to_local (- 28800) \<lparr>dt_second = 0, dt_minute = 30, dt_hour = 3, dt_day = 1, dt_month = 1,
      dt_year = 2027\<rparr> = (Ok d' :: (unit, datetime) res) \<and> valid_datetime d' \<and>
    to_unix d' = Some (1798774200 - 28800)"
proof -
  let ?b = "\<lparr>dt_second = 0, dt_minute = 30, dt_hour = 3, dt_day = 1, dt_month = 1, dt_year = 2027\<rparr>"
  have v: "valid_datetime ?b"
    by (simp add: valid_datetime_def valid_date_def valid_time_def days_in_month_def)
  have u: "to_unix ?b = Some 1798774200"
    by (simp add: to_unix_def days_from_civil_def secs_of_day_def signed_divide_int_def)
  show ?thesis
    using to_local_shifts_by_offset [OF v _ u, of "- 28800"] by (simp add: MAX_DAY_def)
qed

section \<open>Decoding the CMOS registers\<close>

text \<open>How the chip stores a field, in the format that status register B announces.\<close>

definition cmos_field :: "u8 \<Rightarrow> nat \<Rightarrow> u8" where
  "cmos_field status_b n =
     (if status_b AND 0x04 = 0 then of_nat (16 * (n div 10) + n mod 10) else of_nat n)"

definition cmos_hour :: "u8 \<Rightarrow> nat \<Rightarrow> u8" where
  "cmos_hour status_b h =
     (if status_b AND 0x02 = 0
      then cmos_field status_b (if h mod 12 = 0 then 12 else h mod 12) OR (if 12 \<le> h then 0x80 else 0)
      else cmos_field status_b h)"

definition cmos_image :: "u8 \<Rightarrow> datetime \<Rightarrow> u8 list" where
  "cmos_image status_b d =
     [cmos_field status_b (dt_second d), cmos_field status_b (dt_minute d),
      cmos_hour status_b (dt_hour d), cmos_field status_b (dt_day d),
      cmos_field status_b (dt_month d), cmos_field status_b (dt_year d mod 100),
      cmos_field status_b (dt_year d div 100)]"

lemma bcd_field_all:
  "list_all (\<lambda>n. unat (bcd_or_raw True (of_nat (16 * (n div 10) + n mod 10))) = n) [0..<100]"
  by code_simp

lemma field_round_trip:
  assumes "n < 100"
  shows "unat (bcd_or_raw (status_b AND 0x04 = 0) (cmos_field status_b n)) = n"
proof (cases "status_b AND 0x04 = 0")
  case True
  then show ?thesis using bcd_field_all assms by (simp add: cmos_field_def list_all_iff)
next
  case False
  then show ?thesis using assms by (simp add: cmos_field_def bcd_or_raw_def unat_of_nat)
qed

lemma hour_all:
  "list_all (\<lambda>sb. list_all (\<lambda>h. unat (decode_hour sb (cmos_hour sb h)) = h) [0..<24]) [0, 2, 4, 6]"
  by code_simp

lemma hour_round_trip:
  assumes "h < 24"
  shows "unat (decode_hour status_b (cmos_hour status_b h)) = h"
proof -
  define sb :: u8 where "sb = (if status_b AND 0x04 = 0 then 0 else 4) + (if status_b AND 0x02 = 0 then 0 else 2)"
  have sb: "(sb AND 0x04 = 0) = (status_b AND 0x04 = 0)" "(sb AND 0x02 = 0) = (status_b AND 0x02 = 0)"
    "sb \<in> {0, 2, 4, 6}"
    by (simp_all add: sb_def)
  have "decode_hour status_b (cmos_hour status_b h) = decode_hour sb (cmos_hour sb h)"
    by (simp add: decode_hour_def cmos_hour_def cmos_field_def sb(1,2))
  then show ?thesis using hour_all sb(3) assms by (auto simp: list_all_iff)
qed

lemma century_field:
  assumes "19 \<le> c" "c < 100"
  shows "19 \<le> cmos_field status_b c"
proof -
  have "c div 10 < 10" "c mod 10 < 10" using assms by simp_all
  then have "16 * (c div 10) + c mod 10 < 256" by linarith
  then have "unat (cmos_field status_b c) = (if status_b AND 0x04 = 0 then 16 * (c div 10) + c mod 10 else c)"
    using assms by (simp add: cmos_field_def unat_of_nat del: of_nat_add of_nat_mult)
  moreover have "19 \<le> 16 * (c div 10) + c mod 10"
    using assms(1) div_mult_mod_eq [of c 10] by linarith
  ultimately show ?thesis using assms by (simp add: word_le_nat_alt)
qed

text \<open>
  C23. CMOS decoding: for each of the four formats status register B can announce (BCD or binary,
  12-hour or 24-hour), \<open>decode\<close> turns the register image of a valid date and time with a century of
  at least 19 back into that date and time; midnight and noon in 12-hour mode included.
\<close>

theorem decode_inverts_cmos_image:
  assumes "valid_datetime d" and "1900 \<le> dt_year d" and "dt_year d < 10000"
  shows "decode (cmos_image status_b d) status_b = d"
proof -
  have f: "dt_second d < 100" "dt_minute d < 100" "dt_hour d < 24" "dt_day d < 100"
    "dt_month d < 100" "dt_year d mod 100 < 100" "dt_year d div 100 < 100" "19 \<le> dt_year d div 100"
    using assms
    by (auto simp: valid_datetime_def valid_date_def valid_time_def days_in_month_def split: if_splits)
  show ?thesis
    by (rule datetime.equality)
      (simp_all add: decode_def Let_def cmos_image_def f field_round_trip hour_round_trip
        century_field del: mod_less)
qed

theorem decode_inverts_cmos_image_witness:
  "decode [0x59, 0x30, 0x92, 0x29, 0x02, 0x28, 0x20] 0 =
    \<lparr>dt_second = 59, dt_minute = 30, dt_hour = 12, dt_day = 29, dt_month = 2, dt_year = 2028\<rparr>"
proof -
  let ?d = "\<lparr>dt_second = 59, dt_minute = 30, dt_hour = 12, dt_day = 29, dt_month = 2, dt_year = 2028\<rparr>"
  have "valid_datetime ?d"
    by (simp add: valid_datetime_def valid_date_def valid_time_def days_in_month_def is_leap_def)
  moreover have "cmos_image 0 ?d = [0x59, 0x30, 0x92, 0x29, 0x02, 0x28, 0x20]"
    by (simp add: cmos_image_def cmos_field_def cmos_hour_def)
  ultimately show ?thesis using decode_inverts_cmos_image [of ?d 0] by simp
qed

end
