(* ===== verification/Ata.thy ===== *)
theory Ata
  imports Onyx_Prelude
begin

unbundle bit_operations_syntax

text \<open>
  The ATA PIO driver: \<open>kernel/src/ata.rs\<close>. The hardware is a parameter of the model, held in the
  drive record next to the driver's own fields: the values that successive reads of the status
  registers return (\<open>status\<close>, from position \<open>spos\<close> on), the words IDENTIFY delivers, the words on
  the medium, and the address the drive decodes from the register writes it has seen (\<open>hw_lba\<close>).
  The driver's polling loops, its range checks, the exact sequence of register writes and the order
  of the data words are the code's. A sector the drive has received stays written even when the
  transfer fails later.
\<close>

section \<open>Definitions\<close>

definition SECTOR_SIZE :: nat where "SECTOR_SIZE = 512"
definition LBA28_MAX :: nat where "LBA28_MAX = 0x0FFFFFFF"

definition REG_SECCOUNT :: u16 where "REG_SECCOUNT = 0x1F2"
definition REG_LBA_LO :: u16 where "REG_LBA_LO = 0x1F3"
definition REG_LBA_MID :: u16 where "REG_LBA_MID = 0x1F4"
definition REG_LBA_HI :: u16 where "REG_LBA_HI = 0x1F5"
definition REG_DRIVE :: u16 where "REG_DRIVE = 0x1F6"
definition REG_CMD :: u16 where "REG_CMD = 0x1F7"
definition REG_CTRL :: u16 where "REG_CTRL = 0x3F6"

definition CMD_IDENTIFY :: u8 where "CMD_IDENTIFY = 0xEC"
definition CMD_READ :: u8 where "CMD_READ = 0x20"
definition CMD_WRITE :: u8 where "CMD_WRITE = 0x30"
definition CMD_FLUSH :: u8 where "CMD_FLUSH = 0xE7"
definition CMD_READ_EXT :: u8 where "CMD_READ_EXT = 0x25"
definition CMD_WRITE_EXT :: u8 where "CMD_WRITE_EXT = 0x35"
definition CMD_SET_HIGH_LBA :: u8 where "CMD_SET_HIGH_LBA = 0x91"

definition ST_BSY :: u8 where "ST_BSY = 0x80"
definition ST_DF :: u8 where "ST_DF = 0x20"
definition ST_DRQ :: u8 where "ST_DRQ = 0x08"
definition ST_ERR :: u8 where "ST_ERR = 0x01"

definition POLL_LIMIT :: nat where "POLL_LIMIT = 4000000"

datatype ata_error = NoDrive | CommandFailed | Timeout | OutOfRange

record drive =
  lba48 :: bool
  total_sectors :: nat
  ports :: "(u16 \<times> u8) list"
  status :: "nat \<Rightarrow> u8"
  spos :: nat
  identify :: "u16 list"
  medium :: "nat \<Rightarrow> u16 list"
  hw_lba :: "(u16 \<times> u8) list \<Rightarrow> nat"

type_synonym 'a ata = "(drive, ata_error, 'a) prog"

definition port_write :: "u16 \<Rightarrow> u8 \<Rightarrow> unit ata" where
  "port_write p v d = (Ok (), d\<lparr>ports := ports d @ [(p, v)]\<rparr>)"

definition read_status :: "u8 ata" where
  "read_status d = (Ok (status d (spos d)), d\<lparr>spos := spos d + 1\<rparr>)"

fun wait_not_busy_loop :: "nat \<Rightarrow> unit ata" where
  "wait_not_busy_loop n d =
     (if n = 0 then (Err Timeout, d)
      else bindP read_status
        (\<lambda>st. if st AND ST_BSY = 0 then retP () else wait_not_busy_loop (n - 1)) d)"

fun wait_data_ready_loop :: "nat \<Rightarrow> unit ata" where
  "wait_data_ready_loop n d =
     (if n = 0 then (Err Timeout, d)
      else bindP read_status
        (\<lambda>st. if st AND (ST_ERR OR ST_DF) \<noteq> 0 then errP CommandFailed
              else if st AND ST_BSY = 0 \<and> st AND ST_DRQ \<noteq> 0 then retP ()
              else wait_data_ready_loop (n - 1)) d)"

declare wait_not_busy_loop.simps [simp del] wait_data_ready_loop.simps [simp del]

definition wait_not_busy :: "unit ata" where
  "wait_not_busy = wait_not_busy_loop POLL_LIMIT"

definition wait_data_ready :: "unit ata" where
  "wait_data_ready = wait_data_ready_loop POLL_LIMIT"

text \<open>\<open>(x >> k) as u8\<close> of an address.\<close>

definition addr_byte :: "nat \<Rightarrow> nat \<Rightarrow> u8" where
  "addr_byte x k = of_nat (x div 2 ^ k)"

primrec port_writes :: "(u16 \<times> u8) list \<Rightarrow> unit ata" where
  "port_writes [] = retP ()"
| "port_writes (pv # pvs) = bindP (port_write (fst pv) (snd pv)) (\<lambda>_. port_writes pvs)"

definition lba28_regs :: "nat \<Rightarrow> nat \<Rightarrow> (u16 \<times> u8) list" where
  "lba28_regs lba count =
     [(REG_DRIVE, 0xE0 OR (addr_byte lba 24 AND 0x0F)),
      (REG_SECCOUNT, of_nat count),
      (REG_LBA_LO, addr_byte lba 0),
      (REG_LBA_MID, addr_byte lba 8),
      (REG_LBA_HI, addr_byte lba 16)]"

definition prepare_lba28 :: "nat \<Rightarrow> nat \<Rightarrow> unit ata" where
  "prepare_lba28 lba count = bindP wait_not_busy (\<lambda>_. port_writes (lba28_regs lba count))"

definition lba48_high_regs :: "nat \<Rightarrow> nat \<Rightarrow> (u16 \<times> u8) list" where
  "lba48_high_regs lba count =
     [(REG_SECCOUNT, of_nat count),
      (REG_LBA_LO, addr_byte lba 32),
      (REG_LBA_MID, addr_byte lba 40),
      (REG_LBA_HI, addr_byte lba 48 AND 0x0F),
      (REG_CMD, CMD_SET_HIGH_LBA)]"

definition lba48_low_regs :: "nat \<Rightarrow> nat \<Rightarrow> (u16 \<times> u8) list" where
  "lba48_low_regs lba count =
     [(REG_DRIVE, 0xE0 OR (addr_byte lba 40 AND 0x0F)),
      (REG_SECCOUNT, of_nat count),
      (REG_LBA_LO, addr_byte lba 0),
      (REG_LBA_MID, addr_byte lba 8),
      (REG_LBA_HI, addr_byte lba 16)]"

definition last_lba :: "nat \<Rightarrow> nat \<Rightarrow> nat option" where
  "last_lba lba count =
     (case checked_add64 lba count of None \<Rightarrow> None | Some v \<Rightarrow> checked_sub v 1)"

definition prepare_lba :: "nat \<Rightarrow> nat \<Rightarrow> (u8 \<times> u8) ata" where
  "prepare_lba lba count d =
     (case last_lba lba count of
        None \<Rightarrow> (Err OutOfRange, d)
      | Some la \<Rightarrow>
          if total_sectors d \<le> la then (Err OutOfRange, d)
          else if la \<le> LBA28_MAX then
            bindP (prepare_lba28 lba count) (\<lambda>_. retP (CMD_READ, CMD_WRITE)) d
          else if \<not> lba48 d then (Err OutOfRange, d)
          else
            bindP wait_not_busy (\<lambda>_.
            bindP (port_writes (lba48_high_regs lba count)) (\<lambda>_.
            bindP wait_not_busy (\<lambda>_.
            bindP (port_writes (lba48_low_regs lba count)) (\<lambda>_.
            retP (CMD_READ_EXT, CMD_WRITE_EXT))))) d)"

subsection \<open>Sector transfers\<close>

definition word_bytes :: "u16 \<Rightarrow> bytes" where
  "word_bytes w = [ucast w, ucast (drop_bit 8 w)]"

definition sector_bytes :: "u16 list \<Rightarrow> bytes" where
  "sector_bytes ws = concat (map word_bytes ws)"

fun bytes_words :: "bytes \<Rightarrow> u16 list" where
  "bytes_words (a # b # bs) = (ucast a OR push_bit 8 (ucast b)) # bytes_words bs"
| "bytes_words _ = []"

text \<open>
  The read loop over the sectors \<open>0 .. count\<close>: poll, then 256 words from the data port into the
  buffer. \<open>base\<close> is the address the drive decoded when the command was issued.
\<close>

primrec read_loop :: "nat \<Rightarrow> nat list \<Rightarrow> bytes \<Rightarrow> bytes ata" where
  "read_loop base [] buf = retP buf"
| "read_loop base (s # ss) buf =
     bindP wait_data_ready (\<lambda>_ d.
       read_loop base ss
         (put buf (s * SECTOR_SIZE) (sector_bytes (take 256 (medium d (base + s))))) d)"

definition read_sectors_raw :: "nat \<Rightarrow> nat \<Rightarrow> bytes \<Rightarrow> bytes ata" where
  "read_sectors_raw lba count buf =
     bindP (guardP (0 < count)) (\<lambda>_.
     bindP (guardP (count * SECTOR_SIZE \<le> length buf)) (\<lambda>_.
     bindP (prepare_lba lba count) (\<lambda>cmds.
     bindP (port_write REG_CMD (fst cmds)) (\<lambda>_ d.
     read_loop (hw_lba d (ports d)) [0..<count] buf d))))"

definition store_sector :: "nat \<Rightarrow> bytes \<Rightarrow> unit ata" where
  "store_sector a bs d = (Ok (), d\<lparr>medium := (medium d)(a := bytes_words bs)\<rparr>)"

primrec write_loop :: "nat \<Rightarrow> nat list \<Rightarrow> bytes \<Rightarrow> unit ata" where
  "write_loop base [] buf = retP ()"
| "write_loop base (s # ss) buf =
     bindP wait_data_ready (\<lambda>_.
     bindP (store_sector (base + s)
       (subslice buf (s * SECTOR_SIZE) (s * SECTOR_SIZE + SECTOR_SIZE))) (\<lambda>_.
     bindP wait_not_busy (\<lambda>_.
     write_loop base ss buf)))"

definition write_sectors_raw :: "nat \<Rightarrow> nat \<Rightarrow> bytes \<Rightarrow> unit ata" where
  "write_sectors_raw lba count buf =
     bindP (guardP (0 < count)) (\<lambda>_.
     bindP (guardP (count * SECTOR_SIZE \<le> length buf)) (\<lambda>_.
     bindP (prepare_lba lba count) (\<lambda>cmds.
     bindP (port_write REG_CMD (snd cmds)) (\<lambda>_.
     bindP (\<lambda>d. write_loop (hw_lba d (ports d)) [0..<count] buf d) (\<lambda>_.
     bindP (port_write REG_CMD CMD_FLUSH) (\<lambda>_.
     wait_not_busy))))))"

subsection \<open>Probing the drive\<close>

primrec settle_loop :: "nat \<Rightarrow> unit ata" where
  "settle_loop 0 = retP ()"
| "settle_loop (Suc n) = bindP read_status (\<lambda>_. settle_loop n)"

definition settle :: "unit ata" where
  "settle = settle_loop 4"

record drive_info =
  info_total_sectors :: nat
  info_model :: string

definition identify_total :: "u16 list \<Rightarrow> nat" where
  "identify_total ident =
     (let lba28 = unat ((ucast (ident ! 60) :: u32) OR push_bit 16 (ucast (ident ! 61)));
          lba48_supported = (ident ! 83 AND push_bit 10 1 \<noteq> 0);
          lba48 = unat ((ucast (ident ! 100) :: u64) OR push_bit 16 (ucast (ident ! 101))
                    OR push_bit 32 (ucast (ident ! 102)) OR push_bit 48 (ucast (ident ! 103)))
      in if lba48_supported \<and> 0 < lba48 then lba48 else lba28)"

definition identify_model :: "u16 list \<Rightarrow> string" where
  "identify_model ident =
     trim (concat (map (\<lambda>w. [char_of (unat (drop_bit 8 w)), char_of (unat (w AND 0xFF))])
       (subslice ident 27 47)))"

definition new_primary_master :: "drive_info ata" where
  "new_primary_master =
     bindP (\<lambda>d. (Ok (), d\<lparr>lba48 := False, total_sectors := 0\<rparr>)) (\<lambda>_.
     bindP (port_write REG_CTRL 0x02) (\<lambda>_.
     bindP (port_write REG_DRIVE 0xA0) (\<lambda>_.
     bindP settle (\<lambda>_.
     bindP wait_not_busy (\<lambda>_.
     bindP (port_write REG_CMD CMD_IDENTIFY) (\<lambda>_.
     bindP settle (\<lambda>_.
     bindP read_status (\<lambda>st.
     if st = 0 then errP NoDrive else
     bindP wait_not_busy (\<lambda>_.
     bindP read_status (\<lambda>st.
     if st AND (ST_ERR OR ST_DF) \<noteq> 0 then errP NoDrive else
     bindP wait_data_ready (\<lambda>_ d.
       let ident = take 256 (identify d); total = identify_total ident in
       (Ok \<lparr>info_total_sectors = total, info_model = identify_model ident\<rparr>,
        d\<lparr>lba48 := (ident ! 83 AND push_bit 10 1 \<noteq> 0), total_sectors := total\<rparr>))))))))))))"

section \<open>The hardware contract\<close>

text \<open>A status value that lets every poll through: not busy, no error or fault, data requested.\<close>

definition ready_status :: "u8 \<Rightarrow> bool" where
  "ready_status st \<longleftrightarrow> st AND ST_BSY = 0 \<and> st AND (ST_ERR OR ST_DF) = 0 \<and> st AND ST_DRQ \<noteq> 0"

definition ready :: "drive \<Rightarrow> bool" where
  "ready d \<longleftrightarrow> (\<forall>k \<ge> spos d. ready_status (status d k))"

text \<open>
  ATA addressing in 28-bit mode: after the five task-file writes the drive addresses the sector
  whose number they carry, whatever the registers held before.
\<close>

definition lba28_addressing :: "((u16 \<times> u8) list \<Rightarrow> nat) \<Rightarrow> bool" where
  "lba28_addressing hw \<longleftrightarrow>
     (\<forall>log lba count cmd. lba \<le> LBA28_MAX \<longrightarrow> hw (log @ lba28_regs lba count @ [(REG_CMD, cmd)]) = lba)"

definition small_disk :: "drive \<Rightarrow> bool" where
  "small_disk d \<longleftrightarrow> total_sectors d \<le> 2 ^ 28 \<and> lba28_addressing (hw_lba d) \<and>
     (\<forall>a. length (medium d a) = 256)"

text \<open>A drive that decodes the task file as the ATA standard lays it out.\<close>

definition reg_value :: "u16 \<Rightarrow> (u16 \<times> u8) list \<Rightarrow> nat" where
  "reg_value p log = (case map_of (rev log) p of None \<Rightarrow> 0 | Some v \<Rightarrow> unat v)"

definition task_file_lba :: "(u16 \<times> u8) list \<Rightarrow> nat" where
  "task_file_lba log = reg_value REG_DRIVE log mod 16 * 2 ^ 24 + reg_value REG_LBA_HI log * 2 ^ 16
     + reg_value REG_LBA_MID log * 2 ^ 8 + reg_value REG_LBA_LO log"

section \<open>Polling\<close>

text \<open>What every driver step leaves alone.\<close>

definition same_drive :: "drive \<Rightarrow> drive \<Rightarrow> bool" where
  "same_drive d d' \<longleftrightarrow> lba48 d' = lba48 d \<and> total_sectors d' = total_sectors d \<and> status d' = status d \<and>
     identify d' = identify d \<and> hw_lba d' = hw_lba d \<and> spos d \<le> spos d'"

lemma same_drive_refl [simp]: "same_drive d d"
  by (simp add: same_drive_def)

lemma same_drive_trans [trans]: "same_drive a b \<Longrightarrow> same_drive b c \<Longrightarrow> same_drive a c"
  by (auto simp: same_drive_def)

lemma same_drive_ready: "same_drive d d' \<Longrightarrow> ready d \<Longrightarrow> ready d'"
  by (auto simp: same_drive_def ready_def)

lemma small_disk_same:
  "\<lbrakk>same_drive d d'; small_disk d; \<forall>a. length (medium d' a) = 256\<rbrakk> \<Longrightarrow> small_disk d'"
  by (simp add: same_drive_def small_disk_def)

definition polled :: "drive \<Rightarrow> drive \<Rightarrow> bool" where
  "polled d d' \<longleftrightarrow> same_drive d d' \<and> medium d' = medium d \<and> ports d' = ports d"

lemma polled_refl [simp]: "polled d d"
  by (simp add: polled_def)

lemma polled_trans: "polled a b \<Longrightarrow> polled b c \<Longrightarrow> polled a c"
  by (auto simp: polled_def intro: same_drive_trans)

lemma read_status_polled [simp]: "polled d (d\<lparr>spos := Suc (spos d)\<rparr>)"
  by (simp add: polled_def same_drive_def)

lemma wait_not_busy_loop_polled:
  "wait_not_busy_loop n d = (r, d') \<Longrightarrow> polled d d' \<and> (r = Ok () \<or> r = Err Timeout)"
proof (induction n d arbitrary: r d' rule: wait_not_busy_loop.induct)
  case (1 n d)
  then show ?case
    by (subst (asm) (2) wait_not_busy_loop.simps)
      (auto simp: bindP_def read_status_def split: if_splits
        intro: polled_trans [OF read_status_polled])
qed

lemma wait_data_ready_loop_polled:
  "wait_data_ready_loop n d = (r, d') \<Longrightarrow>
   polled d d' \<and> (r = Ok () \<or> r = Err Timeout \<or> r = Err CommandFailed)"
proof (induction n d arbitrary: r d' rule: wait_data_ready_loop.induct)
  case (1 n d)
  then show ?case
    by (subst (asm) (2) wait_data_ready_loop.simps)
      (auto simp: bindP_def read_status_def split: if_splits
        intro: polled_trans [OF read_status_polled])
qed

lemma wait_polled:
  "wait_not_busy d = (r, d') \<Longrightarrow> polled d d' \<and> r \<noteq> Panic"
  "wait_data_ready d = (r, d') \<Longrightarrow> polled d d' \<and> r \<noteq> Panic"
  using wait_not_busy_loop_polled wait_data_ready_loop_polled
  by (fastforce simp: wait_not_busy_def wait_data_ready_def)+

lemma wait_ready:
  assumes "ready d"
  shows "wait_not_busy d = (Ok (), d\<lparr>spos := spos d + 1\<rparr>)"
    and "wait_data_ready d = (Ok (), d\<lparr>spos := spos d + 1\<rparr>)"
proof -
  have st: "ready_status (status d (spos d))" using assms by (simp add: ready_def)
  show "wait_not_busy d = (Ok (), d\<lparr>spos := spos d + 1\<rparr>)"
    unfolding wait_not_busy_def POLL_LIMIT_def
    by (subst wait_not_busy_loop.simps) (use st in \<open>simp add: bindP_def read_status_def ready_status_def\<close>)
  show "wait_data_ready d = (Ok (), d\<lparr>spos := spos d + 1\<rparr>)"
    unfolding wait_data_ready_def POLL_LIMIT_def
    by (subst wait_data_ready_loop.simps) (use st in \<open>simp add: bindP_def read_status_def ready_status_def\<close>)
qed

section \<open>The sector codec\<close>

lemma word_bytes_join [simp]: "word_bytes (ucast a OR push_bit 8 (ucast b)) = [a, b]"
proof -
  have "\<not> bit a (8 + n)" for n
    by (auto dest: bit_imp_le_length)
  then have "ucast (drop_bit 8 (ucast a OR push_bit 8 (ucast b) :: u16)) = b"
    by (intro bit_eqI) (auto simp: bit_simps)
  moreover have "ucast (ucast a OR push_bit 8 (ucast b) :: u16) = a"
    by (intro bit_eqI) (auto simp: bit_simps)
  ultimately show ?thesis by (simp add: word_bytes_def)
qed

lemma word_join_bytes: "(ucast (ucast w :: u8) OR push_bit 8 (ucast (ucast (drop_bit 8 w) :: u8))) = (w :: u16)"
  by (rule bit_eqI) (auto simp: bit_simps)

lemma length_sector_bytes [simp]: "length (sector_bytes ws) = 2 * length ws"
  by (induction ws) (simp_all add: sector_bytes_def word_bytes_def)

lemma sector_bytes_Cons [simp]:
  "sector_bytes [] = []" "sector_bytes (w # ws) = word_bytes w @ sector_bytes ws"
  by (simp_all add: sector_bytes_def)

lemma bytes_words_sector_bytes [simp]: "bytes_words (sector_bytes ws) = ws"
  by (induction ws) (simp_all add: word_bytes_def word_join_bytes)

lemma sector_bytes_bytes_words [simp]: "even (length bs) \<Longrightarrow> sector_bytes (bytes_words bs) = bs"
  by (induction bs rule: bytes_words.induct) simp_all

lemma length_bytes_words [simp]: "length (bytes_words bs) = length bs div 2"
  by (induction bs rule: bytes_words.induct) simp_all

section \<open>Programming the task file\<close>

lemma port_writes_eq: "port_writes pvs d = (Ok (), d\<lparr>ports := ports d @ pvs\<rparr>)"
  by (induction pvs arbitrary: d) (simp_all add: bindP_def port_write_def)

lemma last_lba_Some:
  "last_lba lba count = Some la \<longleftrightarrow> lba + count < 2 ^ 64 \<and> 0 < lba + count \<and> la = lba + count - 1"
  by (auto simp: last_lba_def checked_add64_def checked_sub_def split: if_splits)

definition programmed :: "nat \<Rightarrow> nat \<Rightarrow> drive \<Rightarrow> drive \<Rightarrow> bool" where
  "programmed lba count d d' \<longleftrightarrow> same_drive d d' \<and> medium d' = medium d \<and>
     ports d' = ports d @ lba28_regs lba count"

lemma prepare_lba28_cases:
  assumes "prepare_lba28 lba count d = (r, d')"
  shows "(r = Ok () \<and> programmed lba count d d') \<or> (\<exists>e. r = Err e \<and> polled d d')"
proof -
  obtain w d1 where w: "wait_not_busy d = (w, d1)" by (cases "wait_not_busy d")
  then have p: "polled d d1" "w \<noteq> Panic" using wait_polled(1) by auto
  show ?thesis
    using assms w p
    by (cases w) (auto simp: prepare_lba28_def port_writes_eq programmed_def polled_def same_drive_def)
qed

lemma prepare_lba_small:
  assumes sd: "small_disk d" and c: "0 < count" and p: "prepare_lba lba count d = (r, d')"
  shows "(r = Ok (CMD_READ, CMD_WRITE) \<and> lba + count \<le> total_sectors d \<and> programmed lba count d d')
    \<or> (\<exists>e. r = Err e \<and> polled d d')"
proof (cases "last_lba lba count")
  case None
  then show ?thesis using p by (auto simp: prepare_lba_def)
next
  case (Some la)
  then have la: "la = lba + count - 1" by (simp add: last_lba_Some)
  have small: "total_sectors d \<le> 2 ^ 28" using sd by (simp add: small_disk_def)
  show ?thesis
  proof (cases "total_sectors d \<le> la")
    case True
    then show ?thesis using p Some by (auto simp: prepare_lba_def)
  next
    case False
    then have "la \<le> LBA28_MAX" "lba + count \<le> total_sectors d"
      using small c la by (simp_all add: LBA28_MAX_def)
    moreover obtain r1 d1 where r1: "prepare_lba28 lba count d = (r1, d1)"
      by (cases "prepare_lba28 lba count d")
    ultimately show ?thesis
      using p Some False prepare_lba28_cases [OF r1] by (auto simp: prepare_lba_def)
  qed
qed

lemma prepare_lba_ready:
  assumes "ready d" "small_disk d" "0 < count" "lba + count \<le> total_sectors d"
  shows "\<exists>d'. prepare_lba lba count d = (Ok (CMD_READ, CMD_WRITE), d') \<and> programmed lba count d d'"
proof -
  have small: "total_sectors d \<le> 2 ^ 28" using assms(2) by (simp add: small_disk_def)
  have "last_lba lba count = Some (lba + count - 1)" "\<not> total_sectors d \<le> lba + count - 1"
    "lba + count - 1 \<le> LBA28_MAX"
    using assms small by (simp_all add: last_lba_Some LBA28_MAX_def)
  then show ?thesis
    using wait_ready(1) [OF assms(1)]
    by (auto simp: prepare_lba_def prepare_lba28_def port_writes_eq programmed_def same_drive_def)
qed

lemma hw_lba_programmed:
  assumes "small_disk d" "programmed lba count d d'" "lba + count \<le> total_sectors d" "0 < count"
  shows "hw_lba d' (ports d' @ [(REG_CMD, cmd)]) = lba"
proof -
  have "lba \<le> LBA28_MAX" using assms by (simp add: small_disk_def LBA28_MAX_def)
  then show ?thesis
    using assms(1,2) by (simp add: small_disk_def lba28_addressing_def programmed_def same_drive_def)
qed

section \<open>Transfers\<close>

definition disk_bytes :: "(nat \<Rightarrow> u16 list) \<Rightarrow> nat \<Rightarrow> nat \<Rightarrow> bytes" where
  "disk_bytes m lba count = concat (map (\<lambda>s. sector_bytes (m (lba + s))) [0..<count])"

lemma length_disk_bytes [simp]:
  "\<forall>a. length (m a) = 256 \<Longrightarrow> length (disk_bytes m lba count) = count * SECTOR_SIZE"
  by (induction count) (simp_all add: disk_bytes_def SECTOR_SIZE_def)

lemma disk_bytes_Suc:
  "disk_bytes m lba (Suc count) = disk_bytes m lba count @ sector_bytes (m (lba + count))"
  by (simp add: disk_bytes_def)

lemma read_loop_cases:
  assumes "\<forall>a. length (medium d a) = 256" and "n * SECTOR_SIZE \<le> length buf" and "k \<le> n"
    and "b0 = put buf 0 (disk_bytes (medium d) base k)"
    and "read_loop base [k..<n] b0 d = (r, d')"
  shows "polled d d' \<and> ((\<exists>e. r = Err e) \<or> r = Ok (put buf 0 (disk_bytes (medium d) base n)))"
  using assms
proof (induction "n - k" arbitrary: k b0 d)
  case 0
  then show ?case by auto
next
  case (Suc m)
  then have k: "[k..<n] = k # [Suc k..<n]" "k < n" by (simp_all add: upt_conv_Cons)
  obtain w d1 where w: "wait_data_ready d = (w, d1)" by (cases "wait_data_ready d")
  then have p: "polled d d1" "w \<noteq> Panic" using wait_polled(2) by auto
  then have med: "medium d1 = medium d" by (simp add: polled_def)
  have len: "(Suc k) * SECTOR_SIZE \<le> length buf"
    using Suc.prems(2) k(2) by (meson Suc_leI le_trans mult_le_mono1)
  have b1: "put b0 (k * SECTOR_SIZE) (sector_bytes (take 256 (medium d (base + k))))
      = put buf 0 (disk_bytes (medium d) base (Suc k))"
    using put_append [of 0 "disk_bytes (medium d) base k" "sector_bytes (medium d (base + k))" buf]
      Suc.prems(1,4) len
    by (simp add: disk_bytes_Suc SECTOR_SIZE_def)
  show ?case
  proof (cases w)
    case (Ok u)
    then have "read_loop base [Suc k..<n] (put buf 0 (disk_bytes (medium d) base (Suc k))) d1 = (r, d')"
      using Suc.prems(5) w b1 med by (simp add: k(1))
    with Suc.hyps(1) [of "Suc k" d1] Suc.hyps(2) Suc.prems(1,2) med k(2)
    show ?thesis using p(1) by (auto intro: polled_trans)
  next
    case (Err e)
    then show ?thesis using Suc.prems(5) w p by (auto simp: k(1))
  next
    case Panic
    then show ?thesis using p by simp
  qed
qed

lemma read_loop_ready:
  "ready d \<Longrightarrow> \<exists>b d'. read_loop base ss buf d = (Ok b, d')"
proof (induction ss arbitrary: buf d)
  case Nil
  then show ?case by simp
next
  case (Cons s ss)
  have "ready (d\<lparr>spos := spos d + 1\<rparr>)" using Cons.prems by (simp add: ready_def)
  then show ?case using Cons.IH wait_ready(2) [OF Cons.prems] by simp
qed

text \<open>
  A raw read leaves the medium alone, never panics on a large enough buffer, and a successful one
  returns what the medium holds. When the drive is ready and the range is on the disk it succeeds.
\<close>

lemma read_sectors_raw_sound:
  assumes sd: "small_disk d" and c: "0 < count" and len: "count * SECTOR_SIZE \<le> length buf"
    and rd: "read_sectors_raw lba count buf d = (r, d')"
  shows "same_drive d d' \<and> medium d' = medium d \<and> r \<noteq> Panic \<and>
    (\<forall>b. r = Ok b \<longrightarrow> lba + count \<le> total_sectors d \<and>
      b = put buf 0 (disk_bytes (medium d) lba count))"
proof -
  obtain r1 d1 where p: "prepare_lba lba count d = (r1, d1)" by (cases "prepare_lba lba count d")
  from prepare_lba_small [OF sd c p] show ?thesis
  proof
    assume "\<exists>e. r1 = Err e \<and> polled d d1"
    then show ?thesis using rd p c len by (auto simp: read_sectors_raw_def polled_def)
  next
    assume a: "r1 = Ok (CMD_READ, CMD_WRITE) \<and> lba + count \<le> total_sectors d \<and> programmed lba count d d1"
    define d2 where "d2 = d1\<lparr>ports := ports d1 @ [(REG_CMD, CMD_READ)]\<rparr>"
    have hw: "hw_lba d2 (ports d2) = lba"
      using hw_lba_programmed [OF sd _ _ c] a by (simp add: d2_def)
    have m2: "medium d2 = medium d" "same_drive d d2"
      using a by (auto simp: d2_def programmed_def same_drive_def)
    have "read_loop lba [0..<count] buf d2 = (r, d')"
      using rd p a c len hw by (simp add: read_sectors_raw_def port_write_def d2_def)
    then have "polled d2 d' \<and> ((\<exists>e. r = Err e) \<or> r = Ok (put buf 0 (disk_bytes (medium d2) lba count)))"
      using sd len m2 by (intro read_loop_cases [of _ _ _ 0]) (auto simp: small_disk_def disk_bytes_def)
    then show ?thesis using a m2 by (auto simp: polled_def intro: same_drive_trans)
  qed
qed

lemma read_sectors_raw_ready:
  assumes rdy: "ready d" and sd: "small_disk d" and c: "0 < count"
    and len: "count * SECTOR_SIZE \<le> length buf" and lba: "lba + count \<le> total_sectors d"
  shows "\<exists>d'. read_sectors_raw lba count buf d = (Ok (put buf 0 (disk_bytes (medium d) lba count)), d')
    \<and> same_drive d d' \<and> medium d' = medium d"
proof -
  obtain d1 where p: "prepare_lba lba count d = (Ok (CMD_READ, CMD_WRITE), d1)"
    "programmed lba count d d1"
    using prepare_lba_ready [OF rdy sd c lba] by blast
  define d2 where "d2 = d1\<lparr>ports := ports d1 @ [(REG_CMD, CMD_READ)]\<rparr>"
  have "ready d2" using rdy p(2) by (auto simp: d2_def programmed_def same_drive_def ready_def)
  then obtain b d' where "read_loop (hw_lba d2 (ports d2)) [0..<count] buf d2 = (Ok b, d')"
    using read_loop_ready by blast
  then have rd: "read_sectors_raw lba count buf d = (Ok b, d')"
    using p c len by (simp add: read_sectors_raw_def port_write_def d2_def)
  then show ?thesis using read_sectors_raw_sound [OF sd c len rd] by auto
qed

text \<open>\<open>upd_sectors m lba j buf\<close>: the medium after the first \<open>j\<close> sectors of \<open>buf\<close> reached it.\<close>

definition upd_sectors :: "(nat \<Rightarrow> u16 list) \<Rightarrow> nat \<Rightarrow> nat \<Rightarrow> bytes \<Rightarrow> (nat \<Rightarrow> u16 list)" where
  "upd_sectors m lba j buf =
     (\<lambda>a. if lba \<le> a \<and> a < lba + j
          then bytes_words (subslice buf ((a - lba) * SECTOR_SIZE) ((a - lba) * SECTOR_SIZE + SECTOR_SIZE))
          else m a)"

lemma upd_sectors_0 [simp]: "upd_sectors m lba 0 buf = m"
  by (rule ext) (auto simp: upd_sectors_def)

lemma upd_sectors_Suc:
  "upd_sectors m lba (Suc j) buf = (upd_sectors m lba j buf)
     (lba + j := bytes_words (subslice buf (j * SECTOR_SIZE) (j * SECTOR_SIZE + SECTOR_SIZE)))"
  by (rule ext) (auto simp: upd_sectors_def)

lemma length_upd_sectors:
  assumes "\<forall>a. length (m a) = 256" "j * SECTOR_SIZE \<le> length buf"
  shows "length (upd_sectors m lba j buf a) = 256"
proof (cases "lba \<le> a \<and> a < lba + j")
  case True
  then have "Suc (a - lba) * SECTOR_SIZE \<le> j * SECTOR_SIZE" by (intro mult_le_mono1) auto
  then have "(a - lba) * SECTOR_SIZE + SECTOR_SIZE \<le> length buf" using assms(2) by simp
  then show ?thesis using True by (simp add: upd_sectors_def SECTOR_SIZE_def)
next
  case False
  then show ?thesis using assms(1) by (auto simp: upd_sectors_def)
qed

lemma write_loop_cases:
  assumes "k \<le> n" and "medium d = upd_sectors m base k buf"
    and "write_loop base [k..<n] buf d = (r, d')"
  shows "same_drive d d' \<and> (\<exists>j. k \<le> j \<and> j \<le> n \<and> medium d' = upd_sectors m base j buf \<and>
    ((\<exists>e. r = Err e) \<or> r = Ok () \<and> j = n))"
  using assms
proof (induction "n - k" arbitrary: k d)
  case 0
  then show ?case by (auto simp: retP_def)
next
  case (Suc i)
  then have k: "[k..<n] = k # [Suc k..<n]" "k < n" by (simp_all add: upt_conv_Cons)
  obtain w d1 where w: "wait_data_ready d = (w, d1)" by (cases "wait_data_ready d")
  then have p: "polled d d1" "w \<noteq> Panic" using wait_polled(2) by auto
  show ?case
  proof (cases w)
    case Panic
    then show ?thesis using p by simp
  next
    case (Err e)
    then have "r = Err e" "d' = d1" using Suc.prems(3) w by (auto simp: k(1))
    then show ?thesis using Suc.prems(1,2) p by (auto simp: polled_def)
  next
    case (Ok u)
    define d2 where "d2 = d1\<lparr>medium := (medium d1)(base + k :=
      bytes_words (subslice buf (k * SECTOR_SIZE) (k * SECTOR_SIZE + SECTOR_SIZE)))\<rparr>"
    have m2: "medium d2 = upd_sectors m base (Suc k) buf" and s2: "same_drive d d2"
      using p Suc.prems(2) by (auto simp: d2_def upd_sectors_Suc polled_def same_drive_def)
    obtain w2 d3 where w2: "wait_not_busy d2 = (w2, d3)" by (cases "wait_not_busy d2")
    then have p2: "polled d2 d3" "w2 \<noteq> Panic" using wait_polled(1) by auto
    have s3: "same_drive d d3" "medium d3 = upd_sectors m base (Suc k) buf"
      using s2 p2 m2 by (auto simp: polled_def intro: same_drive_trans)
    have st: "store_sector (base + k) (subslice buf (k * SECTOR_SIZE) (k * SECTOR_SIZE + SECTOR_SIZE)) d1
        = (Ok (), d2)"
      by (simp add: store_sector_def d2_def)
    show ?thesis
    proof (cases w2)
      case Panic
      then show ?thesis using p2 by simp
    next
      case (Err e)
      then have "r = Err e" "d' = d3"
        using Suc.prems(3) w Ok st w2 by (auto simp: k(1))
      then show ?thesis using s3 k(2) by (auto intro!: exI [of _ "Suc k"])
    next
      case ok2: (Ok v)
      then have "write_loop base [Suc k..<n] buf d3 = (r, d')"
        using Suc.prems(3) w Ok st w2 by (simp add: k(1))
      moreover have i: "i = n - Suc k" "Suc k \<le> n" using Suc.hyps(2) k(2) by simp_all
      ultimately have "same_drive d3 d' \<and> (\<exists>j. Suc k \<le> j \<and> j \<le> n \<and>
        medium d' = upd_sectors m base j buf \<and> ((\<exists>e. r = Err e) \<or> r = Ok () \<and> j = n))"
        using Suc.hyps(1) [OF i s3(2)] by simp
      then
      obtain j where "same_drive d3 d'" "Suc k \<le> j" "j \<le> n"
        "medium d' = upd_sectors m base j buf" "(\<exists>e. r = Err e) \<or> r = Ok () \<and> j = n"
        by auto
      then show ?thesis
        using same_drive_trans [OF s3(1)] by (auto intro!: exI [of _ j])
    qed
  qed
qed

lemma write_loop_ready:
  "ready d \<Longrightarrow> \<exists>d'. write_loop base ss buf d = (Ok (), d') \<and> ready d'"
proof (induction ss arbitrary: d)
  case Nil
  then show ?case by simp
next
  case (Cons s ss)
  let ?bs = "subslice buf (s * SECTOR_SIZE) (s * SECTOR_SIZE + SECTOR_SIZE)"
  define d1 where "d1 = d\<lparr>spos := spos d + 1\<rparr>"
  define d2 where "d2 = d1\<lparr>medium := (medium d1)(base + s := bytes_words ?bs)\<rparr>"
  have r2: "ready d2" using Cons.prems by (simp add: d2_def d1_def ready_def)
  define d3 where "d3 = d2\<lparr>spos := spos d2 + 1\<rparr>"
  have "ready d3" using r2 by (simp add: d3_def ready_def)
  moreover have "write_loop base (s # ss) buf d = write_loop base ss buf d3"
    using wait_ready(2) [OF Cons.prems] wait_ready(1) [OF r2]
    by (simp add: d1_def d2_def d3_def store_sector_def bindP_def)
  ultimately show ?case using Cons.IH by simp
qed

text \<open>
  A raw write, whatever the drive reports: the sectors that reached the medium are a prefix of the
  buffer at the requested address, all of them when it succeeds, and nothing else changes.
\<close>

lemma write_sectors_raw_sound:
  assumes sd: "small_disk d" and c: "0 < count" and len: "count * SECTOR_SIZE \<le> length buf"
    and wr: "write_sectors_raw lba count buf d = (r, d')"
  shows "same_drive d d' \<and> r \<noteq> Panic \<and>
    (\<exists>j \<le> count. medium d' = upd_sectors (medium d) lba j buf \<and>
      (j \<noteq> 0 \<longrightarrow> lba + count \<le> total_sectors d) \<and> (r = Ok () \<longrightarrow> j = count))"
proof -
  obtain r1 d1 where p: "prepare_lba lba count d = (r1, d1)" by (cases "prepare_lba lba count d")
  from prepare_lba_small [OF sd c p] show ?thesis
  proof
    assume "\<exists>e. r1 = Err e \<and> polled d d1"
    then show ?thesis using wr p c len
      by (auto simp: write_sectors_raw_def polled_def intro!: exI [of _ 0])
  next
    assume a: "r1 = Ok (CMD_READ, CMD_WRITE) \<and> lba + count \<le> total_sectors d \<and> programmed lba count d d1"
    define d2 where "d2 = d1\<lparr>ports := ports d1 @ [(REG_CMD, CMD_WRITE)]\<rparr>"
    have hw: "hw_lba d2 (ports d2) = lba"
      using hw_lba_programmed [OF sd _ _ c] a by (simp add: d2_def)
    have m2: "medium d2 = upd_sectors (medium d) lba 0 buf" "same_drive d d2"
      using a by (auto simp: d2_def programmed_def same_drive_def)
    obtain r3 d3 where l: "write_loop lba [0..<count] buf d2 = (r3, d3)"
      by (cases "write_loop lba [0..<count] buf d2")
    from write_loop_cases [OF _ m2(1) l] obtain j where
      j: "same_drive d2 d3" "j \<le> count" "medium d3 = upd_sectors (medium d) lba j buf"
        "(\<exists>e. r3 = Err e) \<or> r3 = Ok () \<and> j = count" by auto
    define d4 where "d4 = d3\<lparr>ports := ports d3 @ [(REG_CMD, CMD_FLUSH)]\<rparr>"
    obtain r5 d5 where f: "wait_not_busy d4 = (r5, d5)" by (cases "wait_not_busy d4")
    then have p5: "polled d4 d5" "r5 \<noteq> Panic" using wait_polled(1) by auto
    have s4: "same_drive d3 d4" "medium d4 = medium d3" by (simp_all add: d4_def same_drive_def)
    have "(r, d') = (case r3 of Ok _ \<Rightarrow> (r5, d5) | Err e \<Rightarrow> (Err e, d3) | Panic \<Rightarrow> (Panic, d3))"
      using wr p a c len hw l f
      by (auto simp: write_sectors_raw_def port_write_def d2_def d4_def bindP_def split: res.splits)
    then show ?thesis
      using j p5 s4 m2(2) a
      by (auto simp: polled_def split: res.splits intro: same_drive_trans)
  qed
qed

lemma write_sectors_raw_ready:
  assumes rdy: "ready d" and sd: "small_disk d" and c: "0 < count"
    and len: "count * SECTOR_SIZE \<le> length buf" and lba: "lba + count \<le> total_sectors d"
  shows "\<exists>d'. write_sectors_raw lba count buf d = (Ok (), d') \<and> same_drive d d' \<and>
    medium d' = upd_sectors (medium d) lba count buf"
proof -
  obtain d1 where p: "prepare_lba lba count d = (Ok (CMD_READ, CMD_WRITE), d1)"
    "programmed lba count d d1"
    using prepare_lba_ready [OF rdy sd c lba] by blast
  define d2 where "d2 = d1\<lparr>ports := ports d1 @ [(REG_CMD, CMD_WRITE)]\<rparr>"
  have "ready d2" using rdy p(2) by (auto simp: d2_def programmed_def same_drive_def ready_def)
  then obtain d3 where w: "write_loop (hw_lba d2 (ports d2)) [0..<count] buf d2 = (Ok (), d3)" "ready d3"
    using write_loop_ready by blast
  define d4 where "d4 = d3\<lparr>ports := ports d3 @ [(REG_CMD, CMD_FLUSH)]\<rparr>"
  have "ready d4" using w(2) by (simp add: d4_def ready_def)
  then have "wait_not_busy d4 = (Ok (), d4\<lparr>spos := spos d4 + 1\<rparr>)" by (rule wait_ready(1))
  then obtain d' where wr: "write_sectors_raw lba count buf d = (Ok (), d')"
    using p w(1) c len
    by (simp add: write_sectors_raw_def port_write_def d2_def d4_def bindP_def)
  then show ?thesis using write_sectors_raw_sound [OF sd c len wr] by auto
qed

section \<open>Correctness of the driver\<close>

lemma disk_bytes_upd_sectors:
  assumes "\<forall>a. length (m a) = 256" "n * SECTOR_SIZE \<le> length buf" "j \<le> n"
  shows "disk_bytes (upd_sectors m lba n buf) lba j = take (j * SECTOR_SIZE) buf"
  using assms(3)
proof (induction j)
  case 0
  then show ?case by (simp add: disk_bytes_def)
next
  case (Suc j)
  have "Suc j * SECTOR_SIZE \<le> n * SECTOR_SIZE" using Suc.prems by (intro mult_le_mono1)
  then have "Suc j * SECTOR_SIZE \<le> length buf" using assms(2) by simp
  then have len: "length (subslice buf (j * SECTOR_SIZE) (j * SECTOR_SIZE + SECTOR_SIZE)) = 512"
    by (simp add: SECTOR_SIZE_def)
  have "sector_bytes (upd_sectors m lba n buf (lba + j)) =
      subslice buf (j * SECTOR_SIZE) (j * SECTOR_SIZE + SECTOR_SIZE)"
    using Suc.prems len by (simp add: upd_sectors_def sector_bytes_bytes_words)
  then show ?case
    using Suc length_upd_sectors [OF assms(1,2)]
    by (simp add: disk_bytes_Suc subslice_def take_add [symmetric] add.commute)
qed

lemma base256_digits:
  "x div 2 ^ 24 * 2 ^ 24 + x div 2 ^ 16 mod 256 * 2 ^ 16 + x div 2 ^ 8 mod 256 * 2 ^ 8 + x mod 256 = (x::nat)"
proof -
  have "x div 2 ^ 16 = x div 256 div 256" "x div 2 ^ 24 = x div 256 div 256 div 256"
    by (simp_all add: div_mult2_eq [symmetric])
  moreover have "c * 2 ^ 24 + r2 * 2 ^ 16 + r1 * 2 ^ 8 + r0 = x"
    if "a * 256 + r0 = x" "b * 256 + r1 = a" "c * 256 + r2 = b" for a b c r0 r1 r2
    using that by auto
  from this [OF div_mult_mod_eq div_mult_mod_eq div_mult_mod_eq]
  have "x div 256 div 256 div 256 * 2 ^ 24 + x div 256 div 256 mod 256 * 2 ^ 16
      + x div 256 mod 256 * 2 ^ 8 + x mod 256 = x" .
  ultimately show ?thesis by (simp only:) simp
qed

lemma task_file_lba_addressing: "lba28_addressing task_file_lba"
proof -
  have nib: "unat (0xE0 OR (w AND 0x0F) :: u8) mod 16 = unat w mod 16" for w :: u8
  proof -
    have "unat (0xE0 OR (w AND 0x0F) :: u8) mod 2 ^ 4 = unat (take_bit 4 (0xE0 OR (w AND 0x0F) :: u8))"
      unfolding unsigned_take_bit_eq by (simp add: take_bit_eq_mod)
    also have "take_bit 4 (0xE0 OR (w AND 0x0F) :: u8) = take_bit 4 w"
    proof -
      have "w AND 0x0F = take_bit 4 w" by (simp add: take_bit_eq_mask mask_eq_exp_minus_1)
      then show ?thesis by (simp only: take_bit_or) simp
    qed
    also have "unat (take_bit 4 w) = unat w mod 2 ^ 4"
      unfolding unsigned_take_bit_eq by (simp add: take_bit_eq_mod)
    finally show ?thesis by simp
  qed
  show ?thesis
    unfolding lba28_addressing_def
  proof (intro allI impI)
    fix log lba count cmd assume "lba \<le> LBA28_MAX"
    then have "lba < 2 ^ 28" by (simp add: LBA28_MAX_def)
    moreover have "task_file_lba (log @ lba28_regs lba count @ [(REG_CMD, cmd)]) =
      (lba div 2 ^ 24 mod 256) mod 16 * 2 ^ 24 + lba div 2 ^ 16 mod 256 * 2 ^ 16
        + lba div 2 ^ 8 mod 256 * 2 ^ 8 + lba mod 256"
      by (simp add: task_file_lba_def reg_value_def lba28_regs_def REG_DRIVE_def REG_SECCOUNT_def
        REG_LBA_LO_def REG_LBA_MID_def REG_LBA_HI_def REG_CMD_def nib addr_byte_def unat_of_nat)
    ultimately show "task_file_lba (log @ lba28_regs lba count @ [(REG_CMD, cmd)]) = lba"
      using base256_digits [of lba] by (simp add: less_mult_imp_div_less)
  qed
qed

definition sample_drive :: drive where
  "sample_drive = \<lparr>lba48 = True, total_sectors = 100, ports = [], status = (\<lambda>_. 0x48), spos = 0,
     identify = [], medium = (\<lambda>_. replicate 256 0), hw_lba = task_file_lba\<rparr>"

lemma sample_drive_ok: "ready sample_drive" "small_disk sample_drive"
  by (simp_all add: sample_drive_def ready_def ready_status_def small_disk_def
    task_file_lba_addressing ST_BSY_def ST_DF_def ST_DRQ_def ST_ERR_def)





text \<open>
  C19. A request beyond the drive's capacity, or beyond 28 bits on a drive without LBA48, is refused
  with \<open>OutOfRange\<close> before any register is touched: the whole state is unchanged.
\<close>

theorem out_of_range_untouched:
  assumes "0 < count" "count * SECTOR_SIZE \<le> length buf"
    and "total_sectors d < lba + count \<or> (\<not> lba48 d \<and> LBA28_MAX < lba + count - 1)"
  shows "read_sectors_raw lba count buf d = (Err OutOfRange, d) \<and>
    write_sectors_raw lba count buf d = (Err OutOfRange, d)"
proof -
  have "prepare_lba lba count d = (Err OutOfRange, d)"
    using assms(1,3)
    by (auto simp: prepare_lba_def last_lba_def checked_add64_def checked_sub_def LBA28_MAX_def)
  then show ?thesis
    using assms(1,2) by (simp add: read_sectors_raw_def write_sectors_raw_def)
qed

theorem out_of_range_untouched_witness:
  "read_sectors_raw 100 1 (replicate 512 0) sample_drive = (Err OutOfRange, sample_drive) \<and>
   write_sectors_raw 100 1 (replicate 512 0) sample_drive = (Err OutOfRange, sample_drive)"
  by (rule out_of_range_untouched) (simp_all add: sample_drive_def SECTOR_SIZE_def)

text \<open>
  C24. The 48-bit path never transmits the address bits 24 to 31: two addresses that differ only
  there lead to the same register writes, so the drive cannot tell the two sectors apart.
\<close>

theorem lba48_drops_bits_24_31:
  assumes "LBA28_MAX < lba" "lba + 2 ^ 24 + count \<le> total_sectors d" "total_sectors d < 2 ^ 64"
    and "lba mod 2 ^ 32 < 255 * 2 ^ 24" "0 < count" "lba48 d" "ready d"
  shows "prepare_lba (lba + 2 ^ 24) count d = prepare_lba lba count d \<and>
    fst (prepare_lba lba count d) = Ok (CMD_READ_EXT, CMD_WRITE_EXT)"
proof -
  have hi: "addr_byte (lba + 2 ^ 24) k = addr_byte lba k" if "32 \<le> k" for k :: nat
  proof -
    have "(lba + 2 ^ 24) div 2 ^ 32 = lba div 2 ^ 32"
      using assms(4) by (subst div_add1_eq) simp
    moreover have "x div 2 ^ k = x div 2 ^ 32 div 2 ^ (k - 32)" for x :: nat
      using that by (simp only: div_mult2_eq [symmetric] power_add [symmetric]) simp
    ultimately show ?thesis by (simp only: addr_byte_def)
  qed
  have lo: "addr_byte (lba + 2 ^ 24) k = addr_byte lba k" if "k \<in> {0, 8, 16}" for k
  proof -
    have "(lba + c * 256 * b) div b mod 256 = lba div b mod 256" if "0 < b" for b c
      using that by simp
    from this [of "2 ^ k" "2 ^ (16 - k)"]
    have "(lba + 2 ^ (16 - k) * 256 * 2 ^ k) div 2 ^ k mod 256 = lba div 2 ^ k mod 256" by simp
    moreover have "2 ^ (16 - k) * 256 * 2 ^ k = (2 ^ 24 :: nat)" using that by auto
    ultimately have "(lba + 2 ^ 24) div 2 ^ k mod 256 = lba div 2 ^ k mod 256" by (simp only:)
    then show ?thesis
      by (simp add: addr_byte_def word_unat_eq_iff unat_of_nat)
  qed
  have "lba48_high_regs (lba + 2 ^ 24) count = lba48_high_regs lba count"
    "lba48_low_regs (lba + 2 ^ 24) count = lba48_low_regs lba count"
    using hi [of 32] hi [of 40] hi [of 48] lo [of 0] lo [of 8] lo [of 16]
    by (simp_all add: lba48_high_regs_def lba48_low_regs_def)
  moreover have "last_lba (lba + 2 ^ 24) count = Some (lba + 2 ^ 24 + count - 1)"
    "last_lba lba count = Some (lba + count - 1)"
    using assms(2,3,5) by (simp_all add: last_lba_def checked_add64_def checked_sub_def)
  moreover have "wait_not_busy d' = (Ok (), d'\<lparr>spos := spos d' + 1\<rparr>)"
    if "status d' = status d" "spos d \<le> spos d'" for d'
    using wait_ready(1) [of d'] assms(7) that by (simp add: ready_def)
  moreover have "\<not> total_sectors d \<le> lba + 2 ^ 24 + count - 1" "\<not> total_sectors d \<le> lba + count - 1"
    "\<not> lba + 2 ^ 24 + count - 1 \<le> LBA28_MAX" "\<not> lba + count - 1 \<le> LBA28_MAX"
    using assms(1,2,5) by auto
  ultimately show ?thesis
    using assms(6) by (simp add: prepare_lba_def port_writes_eq)
qed

theorem lba48_drops_bits_24_31_witness:
  "let d = sample_drive\<lparr>total_sectors := 2 ^ 33\<rparr> in
   prepare_lba (2 ^ 32 + 2 ^ 24) 1 d = prepare_lba (2 ^ 32) 1 d \<and>
   fst (prepare_lba (2 ^ 32) 1 d) = Ok (CMD_READ_EXT, CMD_WRITE_EXT)"
  using lba48_drops_bits_24_31 [of "2 ^ 32" 1 "sample_drive\<lparr>total_sectors := 2 ^ 33\<rparr>"]
    sample_drive_ok(1)
  by (simp add: LBA28_MAX_def ready_def) (simp add: sample_drive_def)

end
