(* ===== verification/Blkcache.thy ===== *)
theory Blkcache
  imports Ata
begin

text \<open>
  The sector cache of the block layer: \<open>kernel/src/blkcache.rs\<close>. It holds copies of sectors in a
  fixed array of entries replaced by a second-chance clock, is written through, coalesces
  neighbouring misses into one raw transfer and reads ahead on sequential access. The state pairs the
  drive of \<open>Ata\<close> with the cache; the static \<open>CACHE\<close> behind its lock is the \<open>cache\<close> field. Additions
  on sector numbers are \<open>u64\<close> additions of a build with overflow checks, so an overflow panics.
\<close>

section \<open>Definitions\<close>

definition CACHE_ENTRIES :: nat where "CACHE_ENTRIES = 2048"
definition READ_AHEAD :: nat where "READ_AHEAD = 4"

record entry =
  e_lba :: nat
  e_valid :: bool
  e_dwell :: bool
  e_data :: bytes

definition ZERO_ENTRY :: entry where
  "ZERO_ENTRY = \<lparr>e_lba = 0, e_valid = False, e_dwell = False, e_data = replicate SECTOR_SIZE 0\<rparr>"

record cache =
  entries :: "entry list"
  next_slot :: nat
  hits :: nat
  misses :: nat
  last_seq_end :: nat
  seq_valid :: bool

definition new_cache :: cache where
  "new_cache = \<lparr>entries = replicate CACHE_ENTRIES ZERO_ENTRY, next_slot = 0, hits = 0, misses = 0,
     last_seq_end = 0, seq_valid = False\<rparr>"

type_synonym 'a cached = "(cache, ata_error, 'a) prog"

definition holds :: "nat \<Rightarrow> entry \<Rightarrow> bool" where
  "holds lba e \<longleftrightarrow> e_valid e \<and> e_lba e = lba"

definition find_sector :: "nat \<Rightarrow> cache \<Rightarrow> bytes option \<times> cache" where
  "find_sector lba c =
     (case position (holds lba) (entries c) of
        None \<Rightarrow> (None, c)
      | Some k \<Rightarrow> (Some (e_data (entries c ! k)),
          c\<lparr>entries := (entries c)[k := (entries c ! k)\<lparr>e_dwell := True\<rparr>]\<rparr>))"

definition contains :: "nat \<Rightarrow> cache \<Rightarrow> bool" where
  "contains lba c \<longleftrightarrow> list_ex (holds lba) (entries c)"

text \<open>
  The clock sweep of \<open>insert\<close>: every pass over a dwelling entry clears its bit, so the number of
  dwelling entries bounds the loop.
\<close>

function sweep :: "nat \<Rightarrow> bytes \<Rightarrow> unit cached" where
  "sweep lba data c =
     (let n = next_slot c; e = entries c ! n; c' = c\<lparr>next_slot := (n + 1) mod CACHE_ENTRIES\<rparr> in
      if length (entries c) \<le> n then (Panic, c)
      else if \<not> e_valid e then
        (Ok (), c'\<lparr>entries := (entries c)[n := \<lparr>e_lba = lba, e_valid = True, e_dwell = True, e_data = data\<rparr>]\<rparr>)
      else if e_dwell e then
        sweep lba data (c'\<lparr>entries := (entries c)[n := e\<lparr>e_dwell := False\<rparr>]\<rparr>)
      else
        (Ok (), c'\<lparr>entries := (entries c)[n := \<lparr>e_lba = lba, e_valid = True, e_dwell = True, e_data = data\<rparr>]\<rparr>))"
  by pat_completeness auto

termination
  by (relation "measure (\<lambda>(lba, data, c). length (filter (\<lambda>e. e_valid e \<and> e_dwell e) (entries c)))")
    (auto intro!: length_filter_update_less)

declare sweep.simps [simp del]

definition insert_sector :: "nat \<Rightarrow> bytes \<Rightarrow> unit cached" where
  "insert_sector lba data c =
     (case position (holds lba) (entries c) of
        Some k \<Rightarrow>
          (Ok (), c\<lparr>entries := (entries c)[k := (entries c ! k)\<lparr>e_data := data, e_dwell := True\<rparr>]\<rparr>)
      | None \<Rightarrow> sweep lba data c)"

record blk =
  dev :: drive
  cache :: cache

type_synonym 'a blkp = "(blk, ata_error, 'a) prog"

definition on_dev :: "'a ata \<Rightarrow> 'a blkp" where
  "on_dev m s = (case m (dev s) of (r, d) \<Rightarrow> (r, s\<lparr>dev := d\<rparr>))"

definition on_cache :: "'a cached \<Rightarrow> 'a blkp" where
  "on_cache m s = (case m (cache s) of (r, c) \<Rightarrow> (r, s\<lparr>cache := c\<rparr>))"

definition find_blk :: "nat \<Rightarrow> bytes option blkp" where
  "find_blk lba s = (case find_sector lba (cache s) of (r, c) \<Rightarrow> (Ok r, s\<lparr>cache := c\<rparr>))"

text \<open>
  How many consecutive sectors from \<open>start\<close> on are missing, at most \<open>limit\<close>; the first one is known
  to be missing. Used by the miss path and by the read-ahead.
\<close>

function miss_run :: "nat \<Rightarrow> nat \<Rightarrow> cache \<Rightarrow> nat \<Rightarrow> (ata_error, nat) res" where
  "miss_run start limit c run =
     (if run < limit then
        (if 2 ^ 64 \<le> start + run then Panic
         else if contains (start + run) c then Ok run
         else miss_run start limit c (run + 1))
      else Ok run)"
  by pat_completeness auto
termination by (relation "measure (\<lambda>(start, limit, c, run). limit - run)") auto

declare miss_run.simps [simp del]

text \<open>Inserting the sectors \<open>ks\<close> of a transfer whose first byte is at offset \<open>from\<close> of the buffer.\<close>

definition insert_run :: "nat \<Rightarrow> nat \<Rightarrow> bytes \<Rightarrow> nat list \<Rightarrow> unit cached" where
  "insert_run start from buf =
     forP (\<lambda>k. insert_sector (start + k)
       (subslice buf (from + k * SECTOR_SIZE) (from + k * SECTOR_SIZE + SECTOR_SIZE)))"

definition count_hits :: "nat \<Rightarrow> unit blkp" where
  "count_hits n s = (Ok (), s\<lparr>cache := (cache s)\<lparr>hits := hits (cache s) + n\<rparr>\<rparr>)"

definition count_misses :: "nat \<Rightarrow> unit blkp" where
  "count_misses n s = (Ok (), s\<lparr>cache := (cache s)\<lparr>misses := misses (cache s) + n\<rparr>\<rparr>)"

text \<open>One coalesced miss of \<open>n\<close> sectors from \<open>st\<close> on into the buffer at \<open>off\<close>.\<close>

definition fetch_run :: "nat \<Rightarrow> nat \<Rightarrow> nat \<Rightarrow> bytes \<Rightarrow> bytes blkp" where
  "fetch_run st n off buf =
     bindP (on_dev (read_sectors_raw st n (subslice buf off (off + n * SECTOR_SIZE)))) (\<lambda>got.
     bindP (on_cache (insert_run st off (put buf off got) [0..<n])) (\<lambda>_.
     bindP (count_misses n) (\<lambda>_. retP (put buf off got))))"

lemma miss_run_ge: "miss_run start limit c run = Ok n \<Longrightarrow> run \<le> n"
  by (induction start limit c run rule: miss_run.induct)
    (subst (asm) (2) miss_run.simps, auto split: if_splits)

text \<open>The main loop of \<open>read\<close>, at sector index \<open>i\<close> of \<open>cnt\<close>.\<close>

function read_main :: "nat \<Rightarrow> nat \<Rightarrow> nat \<Rightarrow> bytes \<Rightarrow> bytes blkp" where
  "read_main lba cnt i buf s =
     (if i < cnt then
        (if 2 ^ 64 \<le> lba + i then (Panic, s) else
         case find_sector (lba + i) (cache s) of
           (Some data, c) \<Rightarrow>
             bindP (count_hits 1)
               (\<lambda>_. read_main lba cnt (i + 1) (put buf (i * SECTOR_SIZE) data)) (s\<lparr>cache := c\<rparr>)
         | (None, c) \<Rightarrow>
             (case miss_run (lba + i) (cnt - i) c 1 of
                Panic \<Rightarrow> (Panic, s)
              | Err e \<Rightarrow> (Err e, s)
              | Ok run \<Rightarrow>
                  bindP (fetch_run (lba + i) run (i * SECTOR_SIZE) buf)
                    (\<lambda>buf'. read_main lba cnt (i + run) buf') (s\<lparr>cache := c\<rparr>)))
      else (Ok buf, s))"
  by pat_completeness auto
termination
  by (relation "measure (\<lambda>(lba, cnt, i, buf, s). cnt - i)") (auto dest!: miss_run_ge)

declare read_main.simps [simp del]

text \<open>
  The read-ahead after the sectors up to \<open>last_seq_end\<close>: transfers that fail are ignored, the ones
  that succeed fill the cache.
\<close>

function read_ahead :: "nat \<Rightarrow> unit blkp" where
  "read_ahead k s =
     (if k < READ_AHEAD then
        (let st = last_seq_end (cache s) + k in
         if 2 ^ 64 \<le> st then (Panic, s)
         else if contains st (cache s) then read_ahead (k + 1) s
         else
           case miss_run st (READ_AHEAD - k) (cache s) 1 of
             Panic \<Rightarrow> (Panic, s)
           | Err e \<Rightarrow> (Err e, s)
           | Ok run \<Rightarrow>
               (case on_dev (read_sectors_raw st run (replicate (run * SECTOR_SIZE) 0)) s of
                  (Ok got, s') \<Rightarrow>
                    bindP (on_cache (insert_run st 0 got [0..<run])) (\<lambda>_. read_ahead (k + run)) s'
                | (Err e, s') \<Rightarrow> read_ahead (k + run) s'
                | (Panic, s') \<Rightarrow> (Panic, s')))
      else (Ok (), s))"
  by pat_completeness auto
termination
  by (relation "measure (\<lambda>(k, s). READ_AHEAD - k)") (auto dest!: miss_run_ge)

declare read_ahead.simps [simp del]

definition set_seq :: "nat \<Rightarrow> unit blkp" where
  "set_seq la s =
     (if 2 ^ 64 \<le> la then (Panic, s\<lparr>cache := (cache s)\<lparr>seq_valid := True\<rparr>\<rparr>)
      else (Ok (), s\<lparr>cache := (cache s)\<lparr>seq_valid := True, last_seq_end := la\<rparr>\<rparr>))"

definition read_sectors :: "nat \<Rightarrow> nat \<Rightarrow> bytes \<Rightarrow> bytes blkp" where
  "read_sectors lba count buf s =
     (if count = 0 \<or> length buf < count * SECTOR_SIZE then
        on_dev (read_sectors_raw lba count buf) s
      else
        (let sequential = seq_valid (cache s) \<and> lba = last_seq_end (cache s) in
         bindP (read_main lba count 0 buf) (\<lambda>buf'.
         bindP (set_seq (lba + count)) (\<lambda>_.
         if sequential then bindP (read_ahead 0) (\<lambda>_. retP buf') else retP buf')) s))"

definition end_seq :: "unit blkp" where
  "end_seq s = (Ok (), s\<lparr>cache := (cache s)\<lparr>seq_valid := False\<rparr>\<rparr>)"

definition write_sectors :: "nat \<Rightarrow> nat \<Rightarrow> bytes \<Rightarrow> unit blkp" where
  "write_sectors lba count buf =
     bindP (on_dev (write_sectors_raw lba count buf)) (\<lambda>_.
     bindP (on_cache (insert_run lba 0 buf [0..<count])) (\<lambda>_.
     end_seq))"

definition flush :: "cache \<Rightarrow> cache" where
  "flush c = c\<lparr>entries := map (\<lambda>e. e\<lparr>e_valid := False, e_dwell := False\<rparr>) (entries c), seq_valid := False\<rparr>"

definition reset_stats :: "cache \<Rightarrow> cache" where
  "reset_stats c = c\<lparr>hits := 0, misses := 0\<rparr>"

definition stats :: "cache \<Rightarrow> nat \<times> nat" where
  "stats c = (hits c, misses c)"

definition seq_end :: "cache \<Rightarrow> nat option" where
  "seq_end c = (if seq_valid c then Some (last_seq_end c) else None)"

section \<open>What a sector cache promises\<close>

text \<open>
  The contract between the cache and the read and write paths: a total insertion that makes the
  inserted sector visible and may only forget, never alter, the others. The client's lemma is that
  a batch of insertions turns a cache that agrees with one disk content into a cache that agrees
  with the content updated by the batch.
\<close>

locale sector_cache =
  fixes inv :: "'c \<Rightarrow> bool"
    and look :: "'c \<Rightarrow> nat \<Rightarrow> bytes option"
    and ins :: "nat \<Rightarrow> bytes \<Rightarrow> ('c, 'e, unit) prog"
  assumes ins_total: "\<lbrakk>inv c; length v = SECTOR_SIZE\<rbrakk> \<Longrightarrow> \<exists>c'. ins k v c = (Ok (), c') \<and> inv c' \<and>
    look c' k = Some v \<and> (\<forall>l. l \<noteq> k \<longrightarrow> look c' l = None \<or> look c' l = look c l)"
begin

definition agrees :: "(nat \<Rightarrow> bytes option) \<Rightarrow> 'c \<Rightarrow> bool" where
  "agrees f c \<longleftrightarrow> inv c \<and> (\<forall>l v. look c l = Some v \<longrightarrow> f l = Some v)"

lemma ins_agrees:
  assumes "agrees f c" "length v = SECTOR_SIZE"
  shows "\<exists>c'. ins k v c = (Ok (), c') \<and> agrees (f(k := Some v)) c'"
proof -
  obtain c' where c': "ins k v c = (Ok (), c')" "inv c'" "look c' k = Some v"
    "\<And>l. l \<noteq> k \<Longrightarrow> look c' l = None \<or> look c' l = look c l"
    using ins_total [of c v k] assms by (auto simp: agrees_def)
  have "(f(k := Some v)) l = Some w" if "look c' l = Some w" for l w
  proof (cases "l = k")
    case False
    then have "look c l = Some w" using that c'(4) [of l] by auto
    then show ?thesis using False assms(1) by (simp add: agrees_def)
  qed (use that c'(3) in simp)
  then show ?thesis using c'(1,2) by (auto simp: agrees_def)
qed

lemma ins_all_agrees:
  assumes "agrees f c" "\<And>x. x \<in> set xs \<Longrightarrow> length (d x) = SECTOR_SIZE \<and> g (a x) = Some (d x)"
    and "\<And>l. l \<notin> a ` set xs \<Longrightarrow> g l = f l"
  shows "\<exists>c'. forP (\<lambda>x. ins (a x) (d x)) xs c = (Ok (), c') \<and> agrees g c'"
  using assms
proof (induction xs arbitrary: f c)
  case Nil
  have "g = f" using Nil.prems(3) by (intro ext) simp
  then show ?case using Nil.prems(1) by simp
next
  case (Cons x xs)
  obtain c1 where c1: "ins (a x) (d x) c = (Ok (), c1)" "agrees (f(a x := Some (d x))) c1"
    using ins_agrees [OF Cons.prems(1)] Cons.prems(2) by force
  have "\<exists>c'. forP (\<lambda>x. ins (a x) (d x)) xs c1 = (Ok (), c') \<and> agrees g c'"
    by (rule Cons.IH [OF c1(2)]) (use Cons.prems(2,3) in auto)
  then show ?case using c1(1) by auto
qed

end

section \<open>The second-chance cache keeps the contract\<close>

definition peek :: "cache \<Rightarrow> nat \<Rightarrow> bytes option" where
  "peek c lba = map_option (\<lambda>k. e_data (entries c ! k)) (position (holds lba) (entries c))"

text \<open>
  Well-formedness: the fixed array size, the clock hand inside it, sector-sized data, and at most
  one valid entry for a sector.
\<close>

definition cache_wf :: "cache \<Rightarrow> bool" where
  "cache_wf c \<longleftrightarrow> length (entries c) = CACHE_ENTRIES \<and> next_slot c < CACHE_ENTRIES \<and>
     (\<forall>k < CACHE_ENTRIES. length (e_data (entries c ! k)) = SECTOR_SIZE) \<and>
     (\<forall>l. \<forall>i < CACHE_ENTRIES. \<forall>j < CACHE_ENTRIES.
        holds l (entries c ! i) \<longrightarrow> holds l (entries c ! j) \<longrightarrow> i = j)"

lemma cache_wf_new: "cache_wf new_cache" "peek new_cache l = None"
  by (simp_all add: cache_wf_def new_cache_def ZERO_ENTRY_def CACHE_ENTRIES_def holds_def peek_def position_None_iff)

lemma cache_wf_length: "cache_wf c \<Longrightarrow> length (entries c) = CACHE_ENTRIES"
  by (simp add: cache_wf_def)

lemma cache_wf_unique:
  "\<lbrakk>cache_wf c; i < CACHE_ENTRIES; j < CACHE_ENTRIES; holds l (entries c ! i); holds l (entries c ! j)\<rbrakk>
   \<Longrightarrow> i = j"
  unfolding cache_wf_def by blast

lemma peek_iff:
  assumes "cache_wf c"
  shows "peek c l = Some v \<longleftrightarrow> (\<exists>k < CACHE_ENTRIES. holds l (entries c ! k) \<and> e_data (entries c ! k) = v)"
proof
  assume "peek c l = Some v"
  then obtain k where "position (holds l) (entries c) = Some k" "e_data (entries c ! k) = v"
    by (auto simp: peek_def)
  then show "\<exists>k < CACHE_ENTRIES. holds l (entries c ! k) \<and> e_data (entries c ! k) = v"
    using assms position_SomeD [of "holds l" "entries c" k] by (auto simp: cache_wf_def)
next
  assume "\<exists>k < CACHE_ENTRIES. holds l (entries c ! k) \<and> e_data (entries c ! k) = v"
  then obtain k where k: "k < CACHE_ENTRIES" "holds l (entries c ! k)" "e_data (entries c ! k) = v"
    by auto
  have "\<not> holds l (entries c ! j)" if "j < k" for j
    using that k(1) cache_wf_unique [OF assms k(1) _ k(2), of j] by auto
  then have "position (holds l) (entries c) = Some k"
    using k(1,2) cache_wf_length [OF assms] by (intro position_SomeI) simp_all
  then show "peek c l = Some v" using k by (simp add: peek_def)
qed

lemma peek_None_iff: "peek c l = None \<longleftrightarrow> \<not> contains l c"
  by (auto simp: peek_def contains_def list_ex_iff position_None_iff)

lemma not_containsD:
  "\<lbrakk>cache_wf c; \<not> contains l c; k < CACHE_ENTRIES\<rbrakk> \<Longrightarrow> \<not> holds l (entries c ! k)"
  by (auto simp: contains_def list_ex_iff cache_wf_def)

text \<open>Replacing one entry by one for the same sector, or for a sector that was not cached.\<close>

lemma replace_entry:
  assumes wf: "cache_wf c" and k: "k < CACHE_ENTRIES" and n: "n < CACHE_ENTRIES"
    and e: "e_valid e" "length (e_data e) = SECTOR_SIZE"
    and other: "\<And>j. j < CACHE_ENTRIES \<Longrightarrow> holds (e_lba e) (entries c ! j) \<Longrightarrow> j = k"
    and c': "entries c' = (entries c)[k := e]" "next_slot c' = n"
  shows "cache_wf c'" "peek c' (e_lba e) = Some (e_data e)"
    and "l \<noteq> e_lba e \<Longrightarrow> peek c' l = None \<or> peek c' l = peek c l"
    and "l \<noteq> e_lba e \<Longrightarrow> e_valid (entries c ! k) \<Longrightarrow> e_lba (entries c ! k) = e_lba e \<Longrightarrow> peek c' l = peek c l"
proof -
  have len: "length (entries c) = CACHE_ENTRIES" using wf by (simp add: cache_wf_def)
  have nth: "entries c' ! j = (if j = k then e else entries c ! j)" if "j < CACHE_ENTRIES" for j
    using that len k by (simp add: c')
  have new_holds: "a = e_lba e" if "holds a e" for a
    using that by (simp add: holds_def)
  have uniq: "i = j" if "i < CACHE_ENTRIES" "j < CACHE_ENTRIES" "holds a (entries c' ! i)"
    "holds a (entries c' ! j)" for a i j
  proof -
    have "m = k" if "m < CACHE_ENTRIES" "holds a (entries c' ! m)" "holds a e" for m
    proof (rule ccontr)
      assume "m \<noteq> k"
      then have "holds (e_lba e) (entries c ! m)" using that nth new_holds by metis
      then show False using other that(1) \<open>m \<noteq> k\<close> by blast
    qed
    then show ?thesis using that nth cache_wf_unique [OF wf] by metis
  qed
  have "length (e_data (entries c' ! j)) = SECTOR_SIZE" if "j < CACHE_ENTRIES" for j
    using that wf e(2) nth [OF that] by (simp add: cache_wf_def)
  then show wf': "cache_wf c'"
    unfolding cache_wf_def using n uniq len c' by (simp only: length_list_update) blast
  show "peek c' (e_lba e) = Some (e_data e)"
    using peek_iff [OF wf'] nth k e(1) by (auto simp: holds_def)
  have old: "peek c l = Some v" if "l \<noteq> e_lba e" "peek c' l = Some v" for v
    using that nth unfolding peek_iff [OF wf'] peek_iff [OF wf]
    by (auto simp: holds_def split: if_splits)
  then show "peek c' l = None \<or> peek c' l = peek c l" if "l \<noteq> e_lba e"
    using that by (cases "peek c' l") auto
  have new: "peek c' l = Some v" if "l \<noteq> e_lba e" "e_lba (entries c ! k) = e_lba e" "peek c l = Some v" for v
    using that nth unfolding peek_iff [OF wf'] peek_iff [OF wf]
    by (auto simp: holds_def split: if_splits)
  show "peek c' l = peek c l"
    if "l \<noteq> e_lba e" "e_valid (entries c ! k)" "e_lba (entries c ! k) = e_lba e"
    using old new that by (metis not_None_eq)
qed

lemma touch_entry:
  assumes wf: "cache_wf c" and k: "k < CACHE_ENTRIES" and n: "n < CACHE_ENTRIES" and v: "e_valid (entries c ! k)"
    and c': "entries c' = (entries c)[k := (entries c ! k)\<lparr>e_dwell := b\<rparr>]" "next_slot c' = n"
  shows "cache_wf c'" "peek c' = peek c"
proof -
  let ?e = "(entries c ! k)\<lparr>e_dwell := b\<rparr>"
  have own: "holds (e_lba ?e) (entries c ! k)" using v by (simp add: holds_def)
  have len: "length (e_data ?e) = SECTOR_SIZE" using wf k by (simp add: cache_wf_def)
  note r = replace_entry [OF wf k n _ len cache_wf_unique [OF wf _ k _ own] c']
  show wf': "cache_wf c'" by (rule r(1)) (simp_all add: v)
  have "peek c (e_lba ?e) = Some (e_data ?e)"
    unfolding peek_iff [OF wf] using k own by (intro exI [of _ k]) simp
  moreover have "peek c' (e_lba ?e) = Some (e_data ?e)" by (rule r(2)) (simp_all add: v)
  moreover have "peek c' l = peek c l" if "l \<noteq> e_lba ?e" for l
    by (rule r(4)) (use that v in simp_all)
  ultimately show "peek c' = peek c" by (metis ext)
qed

lemma find_sector_spec:
  assumes "cache_wf c"
  shows "\<exists>c'. find_sector l c = (peek c l, c') \<and> cache_wf c' \<and> peek c' = peek c \<and>
    last_seq_end c' = last_seq_end c \<and> seq_valid c' = seq_valid c \<and> (peek c l = None \<longrightarrow> c' = c)"
proof (cases "position (holds l) (entries c)")
  case None
  then show ?thesis using assms by (simp add: find_sector_def peek_def)
next
  case (Some k)
  then have k: "k < CACHE_ENTRIES" "holds l (entries c ! k)"
    using position_SomeD cache_wf_length [OF assms] by fastforce+
  have n: "next_slot c < CACHE_ENTRIES" using assms by (simp add: cache_wf_def)
  show ?thesis
    using Some touch_entry [OF assms k(1) n, of "snd (find_sector l c)" True] k(2)
    by (simp add: find_sector_def peek_def holds_def)
qed

text \<open>What an insertion promises: the inserted sector is visible and no other one is altered.\<close>

definition inserted :: "nat \<Rightarrow> bytes \<Rightarrow> cache \<Rightarrow> cache \<Rightarrow> bool" where
  "inserted lba data c c' \<longleftrightarrow> cache_wf c' \<and> peek c' lba = Some data \<and>
     (\<forall>l. l \<noteq> lba \<longrightarrow> peek c' l = None \<or> peek c' l = peek c l)"

lemma sweep_spec:
  "\<lbrakk>cache_wf c; peek c lba = None; length data = SECTOR_SIZE\<rbrakk> \<Longrightarrow>
   \<exists>c'. sweep lba data c = (Ok (), c') \<and> inserted lba data c c'"
proof (induction lba data c rule: sweep.induct)
  case (1 lba data c)
  let ?n = "next_slot c" and ?e = "entries c ! next_slot c"
  let ?new = "\<lparr>e_lba = lba, e_valid = True, e_dwell = True, e_data = data\<rparr>"
  have n: "?n < CACHE_ENTRIES" "(?n + 1) mod CACHE_ENTRIES < CACHE_ENTRIES" "\<not> length (entries c) \<le> ?n"
    using 1(2) by (auto simp: cache_wf_def CACHE_ENTRIES_def)
  show ?case
  proof (cases "e_valid ?e \<and> e_dwell ?e")
    case True
    define c1 where "c1 = c\<lparr>next_slot := (?n + 1) mod CACHE_ENTRIES,
      entries := (entries c)[?n := ?e\<lparr>e_dwell := False\<rparr>]\<rparr>"
    have c1: "cache_wf c1" "peek c1 = peek c"
      using touch_entry [OF 1(2) n(1,2), of c1 False] True by (simp_all add: c1_def)
    have "sweep lba data c = sweep lba data c1"
      by (subst sweep.simps) (use True n in \<open>simp add: c1_def Let_def\<close>)
    moreover have "\<exists>c'. sweep lba data c1 = (Ok (), c') \<and> inserted lba data c1 c'"
      unfolding c1_def by (rule 1(1) [OF refl refl refl])
        (use True n 1(3,4) c1 in \<open>auto simp: c1_def\<close>)
    ultimately show ?thesis using c1(2) by (auto simp: inserted_def)
  next
    case False
    define c1 where "c1 = c\<lparr>next_slot := (?n + 1) mod CACHE_ENTRIES, entries := (entries c)[?n := ?new]\<rparr>"
    have "sweep lba data c = (Ok (), c1)"
      by (subst sweep.simps) (use False n in \<open>auto simp: c1_def Let_def\<close>)
    moreover have none: "\<not> holds lba (entries c ! j)" if "j < CACHE_ENTRIES" for j
      using 1(2,3) that peek_None_iff not_containsD by blast
    have "inserted lba data c c1"
      using replace_entry [OF 1(2) n(1,2), of ?new c1] none 1(4)
      by (simp add: inserted_def c1_def)
    ultimately show ?thesis by blast
  qed
qed

lemma insert_sector_spec:
  assumes "cache_wf c" "length data = SECTOR_SIZE"
  shows "\<exists>c'. insert_sector lba data c = (Ok (), c') \<and> inserted lba data c c'"
proof (cases "position (holds lba) (entries c)")
  case None
  then show ?thesis using sweep_spec [OF assms(1) _ assms(2)]
    by (simp add: insert_sector_def peek_def)
next
  case (Some k)
  let ?e = "(entries c ! k)\<lparr>e_data := data, e_dwell := True\<rparr>"
  define c1 where "c1 = c\<lparr>entries := (entries c)[k := ?e]\<rparr>"
  have k: "k < CACHE_ENTRIES" "holds lba (entries c ! k)"
    using Some position_SomeD cache_wf_length [OF assms(1)] by fastforce+
  have n: "next_slot c < CACHE_ENTRIES" using assms(1) by (simp add: cache_wf_def)
  have e: "e_valid ?e" "length (e_data ?e) = SECTOR_SIZE" "e_lba ?e = lba"
    using k(2) assms(2) by (simp_all add: holds_def)
  have "holds (e_lba ?e) (entries c ! k)" using k(2) e(3) by simp
  note r = replace_entry [OF assms(1) k(1) n e(1,2) cache_wf_unique [OF assms(1) _ k(1) _ this], of c1]
  have c1: "entries c1 = (entries c)[k := ?e]" "next_slot c1 = next_slot c" by (simp_all add: c1_def)
  have "inserted lba data c c1"
    unfolding inserted_def using r(1-3) [OF _ _ c1] e(3) by simp
  then show ?thesis using Some by (simp add: insert_sector_def c1_def)
qed

interpretation clock: sector_cache cache_wf peek insert_sector
  using insert_sector_spec unfolding inserted_def by unfold_locales blast

section \<open>Coherence of the cached device\<close>

definition sector_at :: "blk \<Rightarrow> nat \<Rightarrow> bytes" where
  "sector_at s l = sector_bytes (medium (dev s) l)"

text \<open>
  The invariant of the cached device: a well-formed cache whose valid entries are copies of sectors
  of the medium, over a drive addressed by 28 bits.
\<close>

definition coherent :: "blk \<Rightarrow> bool" where
  "coherent s \<longleftrightarrow> small_disk (dev s) \<and> cache_wf (cache s) \<and>
     (\<forall>l v. peek (cache s) l = Some v \<longrightarrow> l < total_sectors (dev s) \<and> v = sector_at s l)"

definition on_disk :: "drive \<Rightarrow> nat \<Rightarrow> bytes option" where
  "on_disk d l = (if l < total_sectors d then Some (sector_bytes (medium d l)) else None)"

lemma coherent_agrees:
  "coherent s \<longleftrightarrow> small_disk (dev s) \<and> clock.agrees (on_disk (dev s)) (cache s)"
proof -
  have "on_disk (dev s) l = Some v \<longleftrightarrow> l < total_sectors (dev s) \<and> v = sector_at s l" for l v
    by (auto simp: on_disk_def sector_at_def)
  then show ?thesis by (simp add: coherent_def clock.agrees_def)
qed

text \<open>What a read leaves alone.\<close>

definition unchanged :: "blk \<Rightarrow> blk \<Rightarrow> bool" where
  "unchanged s s' \<longleftrightarrow> same_drive (dev s) (dev s') \<and> medium (dev s') = medium (dev s) \<and> coherent s'"

lemma unchanged_trans: "unchanged a b \<Longrightarrow> unchanged b c \<Longrightarrow> unchanged a c"
  by (auto simp: unchanged_def intro: same_drive_trans)

lemma unchanged_refl [simp]: "coherent s \<Longrightarrow> unchanged s s"
  by (simp add: unchanged_def)

lemma unchanged_cache:
  "\<lbrakk>coherent s; cache_wf c; peek c = peek (cache s)\<rbrakk> \<Longrightarrow> unchanged s (s\<lparr>cache := c\<rparr>)"
  by (simp add: unchanged_def coherent_def sector_at_def)

lemma peek_counters [simp]:
  "peek (c\<lparr>hits := a\<rparr>) = peek c" "peek (c\<lparr>misses := a\<rparr>) = peek c"
  "peek (c\<lparr>seq_valid := b\<rparr>) = peek c" "peek (c\<lparr>last_seq_end := a\<rparr>) = peek c"
  "cache_wf (c\<lparr>hits := a\<rparr>) = cache_wf c" "cache_wf (c\<lparr>misses := a\<rparr>) = cache_wf c"
  "cache_wf (c\<lparr>seq_valid := b\<rparr>) = cache_wf c" "cache_wf (c\<lparr>last_seq_end := a\<rparr>) = cache_wf c"
  by (simp_all add: peek_def cache_wf_def fun_eq_iff)

lemma unchanged_dev:
  assumes "coherent s" "same_drive (dev s) d" "medium d = medium (dev s)"
  shows "unchanged s (s\<lparr>dev := d\<rparr>)"
  using assms small_disk_same [of "dev s" d]
  by (auto simp: unchanged_def coherent_def sector_at_def small_disk_def same_drive_def)

lemma disk_bytes_subslice:
  assumes "\<forall>a. length (m a) = 256" "k < n"
  shows "subslice (disk_bytes m lba n) (k * SECTOR_SIZE) (k * SECTOR_SIZE + SECTOR_SIZE) = sector_bytes (m (lba + k))"
  using assms(2)
proof (induction n)
  case (Suc n)
  have len: "length (disk_bytes m lba n) = n * SECTOR_SIZE" "length (sector_bytes (m (lba + n))) = SECTOR_SIZE"
    using assms(1) by (simp_all add: SECTOR_SIZE_def)
  show ?case
  proof (cases "k = n")
    case True
    then show ?thesis using len by (simp add: disk_bytes_Suc subslice_def)
  next
    case False
    then have "Suc k * SECTOR_SIZE \<le> n * SECTOR_SIZE" using Suc.prems by (intro mult_le_mono1) simp
    then show ?thesis using Suc False len by (simp add: disk_bytes_Suc add.commute)
  qed
qed simp

text \<open>Filling the cache with sectors that were just read keeps it coherent.\<close>

lemma insert_run_unchanged:
  assumes "coherent s" "from + n * SECTOR_SIZE \<le> length buf" "start + n \<le> total_sectors (dev s)"
    and "subslice buf from (from + n * SECTOR_SIZE) = disk_bytes (medium (dev s)) start n"
  shows "\<exists>s'. on_cache (insert_run start from buf [0..<n]) s = (Ok (), s') \<and> unchanged s s' \<and> dev s' = dev s"
proof -
  let ?f = "\<lambda>l. sector_bytes (medium (dev s) l)"
  have m: "\<forall>a. length (medium (dev s) a) = 256" using assms(1) by (simp add: coherent_def small_disk_def)
  let ?d = "\<lambda>k. subslice buf (from + k * SECTOR_SIZE) (from + k * SECTOR_SIZE + SECTOR_SIZE)"
  have d: "?d k = ?f (start + k)" if "k < n" for k
  proof -
    have "Suc k * SECTOR_SIZE \<le> n * SECTOR_SIZE" using that by (intro mult_le_mono1) simp
    then have "?d k = subslice (subslice buf from (from + n * SECTOR_SIZE)) (k * SECTOR_SIZE) (k * SECTOR_SIZE + SECTOR_SIZE)"
      using assms(2) by (intro nth_equalityI) (auto simp: nth_subslice algebra_simps)
    then show ?thesis using assms(4) disk_bytes_subslice [OF m that] by simp
  qed
  have "\<exists>c'. insert_run start from buf [0..<n] (cache s) = (Ok (), c') \<and> clock.agrees (on_disk (dev s)) c'"
    unfolding insert_run_def
  proof (rule clock.ins_all_agrees [where f = "on_disk (dev s)"])
    show "clock.agrees (on_disk (dev s)) (cache s)" using assms(1) by (simp add: coherent_agrees)
  qed (use assms(3) d m in \<open>auto simp: SECTOR_SIZE_def on_disk_def\<close>)
  then show ?thesis
    using assms(1) by (auto simp: on_cache_def unchanged_def coherent_agrees)
qed

lemma miss_run_spec:
  "\<lbrakk>run \<le> limit; start + limit \<le> 2 ^ 64\<rbrakk> \<Longrightarrow>
   \<exists>n. miss_run start limit c run = Ok n \<and> run \<le> n \<and> n \<le> limit"
proof (induction start limit c run rule: miss_run.induct)
  case (1 start limit c run)
  show ?case
  proof (cases "run < limit \<and> \<not> contains (start + run) c")
    case True
    then have "\<exists>n. miss_run start limit c (run + 1) = Ok n \<and> run + 1 \<le> n \<and> n \<le> limit"
      using 1 by auto
    moreover have "miss_run start limit c run = miss_run start limit c (run + 1)"
      by (subst miss_run.simps) (use True 1(3) in auto)
    ultimately show ?thesis by auto
  next
    case False
    then have "miss_run start limit c run = Ok run"
      by (subst miss_run.simps) (use 1(2,3) in auto)
    then show ?thesis using 1(2) by simp
  qed
qed

lemma raw_read_cached:
  assumes "coherent s" "0 < n" "length b = n * SECTOR_SIZE"
    and "on_dev (read_sectors_raw st n b) s = (r, s')"
  shows "unchanged s s' \<and> cache s' = cache s \<and> r \<noteq> Panic \<and>
    (\<forall>g. r = Ok g \<longrightarrow> st + n \<le> total_sectors (dev s) \<and> g = disk_bytes (medium (dev s)) st n) \<and>
    (ready (dev s) \<longrightarrow> st + n \<le> total_sectors (dev s) \<longrightarrow> (\<exists>g. r = Ok g))"
proof -
  obtain d where d: "read_sectors_raw st n b (dev s) = (r, d)" "s' = s\<lparr>dev := d\<rparr>"
    using assms(4) by (auto simp: on_dev_def split: prod.splits)
  have sd: "small_disk (dev s)" using assms(1) by (simp add: coherent_def)
  have len: "length (disk_bytes (medium (dev s)) st n) = length b"
    using sd assms(3) by (simp add: small_disk_def)
  from read_sectors_raw_sound [OF sd assms(2) _ d(1)] assms(3)
  have snd: "same_drive (dev s) d" "medium d = medium (dev s)" "r \<noteq> Panic"
    "\<forall>g. r = Ok g \<longrightarrow> st + n \<le> total_sectors (dev s) \<and> g = put b 0 (disk_bytes (medium (dev s)) st n)" by auto
  moreover have "\<exists>g. r = Ok g" if "ready (dev s)" "st + n \<le> total_sectors (dev s)"
    using read_sectors_raw_ready [OF that(1) sd assms(2) _ that(2), of b] assms(3) d(1) by auto
  ultimately show ?thesis
    using unchanged_dev [OF assms(1) snd(1,2)] d(2) put_whole [OF len] by simp
qed

text \<open>
  The main loop, whatever the drive answers: the device stays coherent and its content unchanged,
  a result carries the sectors of the medium, and a drive that answers gives a result.
\<close>

definition reads :: "nat \<Rightarrow> nat \<Rightarrow> nat \<Rightarrow> bytes \<Rightarrow> blk \<Rightarrow> (ata_error, bytes) res \<times> blk \<Rightarrow> bool" where
  "reads lba cnt i buf s rs \<longleftrightarrow> unchanged s (snd rs) \<and> fst rs \<noteq> Panic \<and>
     (\<forall>b. fst rs = Ok b \<longrightarrow> b = put buf (i * SECTOR_SIZE) (disk_bytes (medium (dev s)) (lba + i) (cnt - i))) \<and>
     (ready (dev s) \<longrightarrow> lba + cnt \<le> total_sectors (dev s) \<longrightarrow> (\<exists>b. fst rs = Ok b))"

lemma disk_bytes_add:
  "disk_bytes m lba (a + b) = disk_bytes m lba a @ disk_bytes m (lba + a) b"
  by (induction b) (simp_all add: disk_bytes_def add.assoc)

lemma reads_step:
  assumes un: "unchanged s t" and k: "i + k \<le> cnt" and len: "cnt * SECTOR_SIZE \<le> length buf"
    and rs: "reads lba cnt (i + k) (put buf (i * SECTOR_SIZE) (disk_bytes (medium (dev s)) (lba + i) k)) t rs"
  shows "reads lba cnt i buf s rs"
proof -
  have m: "medium (dev t) = medium (dev s)" "total_sectors (dev t) = total_sectors (dev s)"
    "\<forall>a. length (medium (dev s) a) = 256" "ready (dev s) \<longrightarrow> ready (dev t)"
    using un same_drive_ready by (auto simp: unchanged_def same_drive_def coherent_def small_disk_def)
  have "cnt - i = k + (cnt - (i + k))" using k by simp
  then have split: "disk_bytes (medium (dev s)) (lba + i) (cnt - i) =
      disk_bytes (medium (dev s)) (lba + i) k @ disk_bytes (medium (dev s)) (lba + (i + k)) (cnt - (i + k))"
    using disk_bytes_add [of _ "lba + i" k "cnt - (i + k)"] by (simp add: add.assoc)
  have "i * SECTOR_SIZE + k * SECTOR_SIZE + (cnt - (i + k)) * SECTOR_SIZE = cnt * SECTOR_SIZE"
    using k by (simp add: add_mult_distrib [symmetric])
  then have "put (put buf (i * SECTOR_SIZE) (disk_bytes (medium (dev s)) (lba + i) k)) ((i + k) * SECTOR_SIZE)
      (disk_bytes (medium (dev s)) (lba + (i + k)) (cnt - (i + k)))
    = put buf (i * SECTOR_SIZE) (disk_bytes (medium (dev s)) (lba + i) (cnt - i))"
    using put_append [of "i * SECTOR_SIZE" "disk_bytes (medium (dev s)) (lba + i) k"
        "disk_bytes (medium (dev s)) (lba + (i + k)) (cnt - (i + k))" buf] m(3) len split
    by (simp add: add_mult_distrib)
  then show ?thesis using rs m un unchanged_trans [OF un] by (auto simp: reads_def)
qed

lemma peek_sector_at:
  "\<lbrakk>coherent s; peek (cache s) l = Some v\<rbrakk> \<Longrightarrow> v = disk_bytes (medium (dev s)) l 1"
  by (simp add: coherent_def sector_at_def disk_bytes_def)

text \<open>A coalesced miss fails and leaves everything as it was, or delivers the sectors.\<close>

lemma fetch_run_cases:
  assumes co: "coherent s" and n: "0 < n" and len: "off + n * SECTOR_SIZE \<le> length buf"
  shows "(\<exists>e s'. fetch_run st n off buf s = (Err e, s') \<and> unchanged s s' \<and>
      \<not> (ready (dev s) \<and> st + n \<le> total_sectors (dev s))) \<or>
    (\<exists>t. fetch_run st n off buf s = (Ok (put buf off (disk_bytes (medium (dev s)) st n)), t) \<and> unchanged s t)"
proof -
  obtain r s1 where r: "on_dev (read_sectors_raw st n (subslice buf off (off + n * SECTOR_SIZE))) s = (r, s1)"
    by (cases "on_dev (read_sectors_raw st n (subslice buf off (off + n * SECTOR_SIZE))) s")
  have "length (subslice buf off (off + n * SECTOR_SIZE)) = n * SECTOR_SIZE" using len by simp
  note raw = raw_read_cached [OF co n this r]
  show ?thesis
  proof (cases r)
    case (Ok g)
    then have g: "g = disk_bytes (medium (dev s)) st n" "unchanged s s1" "st + n \<le> total_sectors (dev s)"
      using raw by auto
    have lg: "length g = n * SECTOR_SIZE"
      using g(1) co by (simp add: coherent_def small_disk_def)
    have m1: "medium (dev s1) = medium (dev s)" "coherent s1" "st + n \<le> total_sectors (dev s1)"
      using g(2,3) by (auto simp: unchanged_def same_drive_def)
    obtain s2 where s2: "on_cache (insert_run st off (put buf off g) [0..<n]) s1 = (Ok (), s2)" "unchanged s1 s2"
      using insert_run_unchanged [OF m1(2), of off n "put buf off g" st] len lg g(1) m1(1,3) by auto
    define t where "t = s2\<lparr>cache := (cache s2)\<lparr>misses := misses (cache s2) + n\<rparr>\<rparr>"
    have "unchanged s2 t"
      unfolding t_def using s2(2) by (intro unchanged_cache) (auto simp: unchanged_def coherent_def)
    then have "unchanged s t" using g(2) s2(2) unchanged_trans by blast
    moreover have "fetch_run st n off buf s = (Ok (put buf off g), t)"
      unfolding fetch_run_def using r Ok s2(1) by (simp add: count_misses_def t_def)
    ultimately show ?thesis using g(1) by blast
  next
    case (Err e)
    then have "fetch_run st n off buf s = (Err e, s1)" unfolding fetch_run_def using r by simp
    then show ?thesis using raw Err by auto
  next
    case Panic
    then show ?thesis using raw by simp
  qed
qed

lemma read_main_reads:
  "\<lbrakk>coherent s; i \<le> cnt; lba + cnt \<le> 2 ^ 64; cnt * SECTOR_SIZE \<le> length buf\<rbrakk> \<Longrightarrow>
   reads lba cnt i buf s (read_main lba cnt i buf s)"
proof (induction "cnt - i" arbitrary: i buf s rule: less_induct)
  case less
  have wf: "cache_wf (cache s)" and m: "\<forall>a. length (medium (dev s) a) = 256"
    using less.prems(1) by (auto simp: coherent_def small_disk_def)
  obtain c where c: "find_sector (lba + i) (cache s) = (peek (cache s) (lba + i), c)"
    "cache_wf c" "peek c = peek (cache s)" "peek (cache s) (lba + i) = None \<longrightarrow> c = cache s"
    using find_sector_spec [OF wf, of "lba + i"] by (elim exE conjE that)
  show ?case
  proof (cases "i < cnt")
    case False
    then show ?thesis using less.prems by (subst read_main.simps) (simp add: reads_def disk_bytes_def)
  next
    case i: True
    then have ov: "\<not> 2 ^ 64 \<le> lba + i" using less.prems(3) by simp
    have next_ok: "reads lba cnt i buf s (read_main lba cnt (i + k) (put buf (i * SECTOR_SIZE) got) t)"
      if "unchanged s t" "0 < k" "i + k \<le> cnt" "got = disk_bytes (medium (dev s)) (lba + i) k" for k got t
    proof (rule reads_step [OF that(1,3) less.prems(4)])
      have "(i + k) * SECTOR_SIZE \<le> cnt * SECTOR_SIZE" using that(3) by (rule mult_le_mono1)
      then have "i * SECTOR_SIZE + length got \<le> length buf"
        using that(4) m less.prems(4) by (simp add: add_mult_distrib)
      then show "reads lba cnt (i + k) (put buf (i * SECTOR_SIZE) (disk_bytes (medium (dev s)) (lba + i) k)) t
          (read_main lba cnt (i + k) (put buf (i * SECTOR_SIZE) got) t)"
        using less.hyps [of "i + k" t "put buf (i * SECTOR_SIZE) got"] that less.prems(3,4) i
        by (auto simp: unchanged_def)
    qed
    show ?thesis
    proof (cases "peek (cache s) (lba + i)")
      case (Some v)
      define t where "t = s\<lparr>cache := c\<lparr>hits := hits c + 1\<rparr>\<rparr>"
      have un: "unchanged s t"
        unfolding t_def using c(2,3) by (intro unchanged_cache [OF less.prems(1)]) simp_all
      have "read_main lba cnt i buf s = read_main lba cnt (i + 1) (put buf (i * SECTOR_SIZE) v) t"
        by (subst read_main.simps) (use i ov c(1) Some in \<open>simp add: count_hits_def t_def\<close>)
      then show ?thesis
        using next_ok [OF un, of 1 v] i peek_sector_at [OF less.prems(1) Some] by simp
    next
      case None
      then have c0: "c = cache s" using c(4) by simp
      obtain n where n: "miss_run (lba + i) (cnt - i) c 1 = Ok n" "1 \<le> n" "n \<le> cnt - i"
        using miss_run_spec [of 1 "cnt - i" "lba + i" c] i less.prems(3) by (auto simp: Suc_le_eq)
      have nc: "lba + (i + n) \<le> lba + cnt" "i + n \<le> cnt" "0 < n" using n i by auto
      have off: "i * SECTOR_SIZE + n * SECTOR_SIZE \<le> length buf"
        using mult_le_mono1 [OF nc(2), of SECTOR_SIZE] less.prems(4) by (simp add: add_mult_distrib)
      have eq: "read_main lba cnt i buf s =
          bindP (fetch_run (lba + i) n (i * SECTOR_SIZE) buf) (read_main lba cnt (i + n)) s"
        by (subst read_main.simps) (use None i ov c(1) c0 n(1) in simp)
      from fetch_run_cases [OF less.prems(1) nc(3) off, of "lba + i"]
      consider e s' where "read_main lba cnt i buf s = (Err e, s')" "unchanged s s'"
          "\<not> (ready (dev s) \<and> lba + i + n \<le> total_sectors (dev s))"
        | t where "read_main lba cnt i buf s = read_main lba cnt (i + n) (put buf (i * SECTOR_SIZE)
            (disk_bytes (medium (dev s)) (lba + i) n)) t" "unchanged s t"
        using eq by auto
      then show ?thesis
      proof cases
        case 1
        then show ?thesis using nc(1) by (auto simp: reads_def)
      next
        case 2
        then show ?thesis using next_ok [OF 2(2) nc(3,2)] by simp
      qed
    qed
  qed
qed

text \<open>The read-ahead is best effort: it never fails, and changes nothing but the cache.\<close>

lemma sweep_seq: "last_seq_end (snd (sweep lba data c)) = last_seq_end c"
proof (induction lba data c rule: sweep.induct)
  case (1 lba data c)
  then show ?case by (subst sweep.simps) (simp add: Let_def)
qed

lemma insert_run_seq:
  assumes "on_cache (insert_run st off buf ks) s = (r, s')"
  shows "last_seq_end (cache s') = last_seq_end (cache s)"
proof -
  have "keeps (\<lambda>c. last_seq_end c = last_seq_end (cache s)) (insert_run st off buf ks)"
    unfolding insert_run_def
    by (intro keeps_forP) (auto simp: keeps_def insert_sector_def sweep_seq split: option.splits)
  then show ?thesis using assms by (auto simp: on_cache_def keeps_def split: prod.splits)
qed

lemma read_ahead_unchanged:
  "\<lbrakk>coherent s; last_seq_end (cache s) + READ_AHEAD \<le> 2 ^ 64\<rbrakk> \<Longrightarrow>
   \<exists>s'. read_ahead k s = (Ok (), s') \<and> unchanged s s'"
proof (induction "READ_AHEAD - k" arbitrary: k s rule: less_induct)
  case less
  let ?st = "last_seq_end (cache s) + k"
  show ?case
  proof (cases "k < READ_AHEAD")
    case False
    then show ?thesis using less.prems by (subst read_ahead.simps) simp
  next
    case k: True
    then have ov: "\<not> 2 ^ 64 \<le> ?st" using less.prems(2) by simp
    have next_ok: "\<exists>s'. read_ahead (k + n) t = (Ok (), s') \<and> unchanged s s'"
      if "unchanged s t" "last_seq_end (cache t) = last_seq_end (cache s)" "0 < n" for n t
    proof -
      have "READ_AHEAD - (k + n) < READ_AHEAD - k" using k that(3) by simp
      then show ?thesis
        using less.hyps [of "k + n" t] that unchanged_trans [OF that(1)] less.prems(2)
        by (auto simp: unchanged_def [of s t])
    qed
    show ?thesis
    proof (cases "contains ?st (cache s)")
      case True
      then have "read_ahead k s = read_ahead (k + 1) s"
        by (subst read_ahead.simps) (use k ov in \<open>simp add: Let_def\<close>)
      then show ?thesis using next_ok [of s 1] less.prems(1) by simp
    next
      case False
      obtain n where n: "miss_run ?st (READ_AHEAD - k) (cache s) 1 = Ok n" "1 \<le> n"
        using miss_run_spec [of 1 "READ_AHEAD - k" ?st "cache s"] k less.prems(2) by (auto simp: Suc_le_eq)
      let ?b = "replicate (n * SECTOR_SIZE) (0 :: u8)"
      obtain r s1 where r: "on_dev (read_sectors_raw ?st n ?b) s = (r, s1)"
        by (cases "on_dev (read_sectors_raw ?st n ?b) s")
      have raw: "unchanged s s1" "cache s1 = cache s" "r \<noteq> Panic"
        "\<And>g. r = Ok g \<Longrightarrow> ?st + n \<le> total_sectors (dev s) \<and> g = disk_bytes (medium (dev s)) ?st n"
        using raw_read_cached [OF less.prems(1) _ _ r] n(2) by auto
      have eq: "read_ahead k s = (case (r, s1) of
          (Ok got, s') \<Rightarrow> bindP (on_cache (insert_run ?st 0 got [0..<n])) (\<lambda>_. read_ahead (k + n)) s'
        | (Err e, s') \<Rightarrow> read_ahead (k + n) s' | (Panic, s') \<Rightarrow> (Panic, s'))"
        by (subst read_ahead.simps) (use k ov False n(1) r in \<open>simp add: Let_def\<close>)
      show ?thesis
      proof (cases r)
        case (Ok g)
        have g: "length g = n * SECTOR_SIZE" "g = disk_bytes (medium (dev s1)) ?st n" "coherent s1"
          "?st + n \<le> total_sectors (dev s1)"
          using raw(1,4) Ok by (auto simp: unchanged_def coherent_def small_disk_def same_drive_def)
        from insert_run_unchanged [OF g(3), of 0 n g ?st] g
        obtain s2 where s2: "on_cache (insert_run ?st 0 g [0..<n]) s1 = (Ok (), s2)" "unchanged s1 s2"
          by auto
        have "last_seq_end (cache s2) = last_seq_end (cache s)"
          using insert_run_seq [OF s2(1)] raw(2) by simp
        then show ?thesis
          using next_ok [OF unchanged_trans [OF raw(1) s2(2)], of n] n(2) eq Ok s2(1) by simp
      next
        case (Err e)
        then show ?thesis using next_ok [OF raw(1), of n] raw(2) n(2) eq by simp
      next
        case Panic
        then show ?thesis using raw(3) by simp
      qed
    qed
  qed
qed

lemma read_sectors_spec:
  assumes co: "coherent s" and n: "0 < count" and len: "length buf = count * SECTOR_SIZE"
    and lba: "lba + count + READ_AHEAD \<le> 2 ^ 64"
  shows "\<exists>r s'. read_sectors lba count buf s = (r, s') \<and> unchanged s s' \<and> r \<noteq> Panic \<and>
    (\<forall>b. r = Ok b \<longrightarrow> b = disk_bytes (medium (dev s)) lba count) \<and>
    (ready (dev s) \<longrightarrow> lba + count \<le> total_sectors (dev s) \<longrightarrow> (\<exists>b. r = Ok b))"
proof -
  have m: "length (disk_bytes (medium (dev s)) lba count) = length buf"
    using co len by (simp add: coherent_def small_disk_def)
  obtain r s1 where r: "read_main lba count 0 buf s = (r, s1)" by (cases "read_main lba count 0 buf s")
  have rd: "unchanged s s1" "r \<noteq> Panic" "\<And>b. r = Ok b \<Longrightarrow> b = disk_bytes (medium (dev s)) lba count"
    "ready (dev s) \<longrightarrow> lba + count \<le> total_sectors (dev s) \<longrightarrow> (\<exists>b. r = Ok b)"
    using read_main_reads [OF co, of 0 count lba buf] r lba len put_whole [OF m] by (auto simp: reads_def)
  show ?thesis
  proof (cases r)
    case (Ok b)
    define s2 where "s2 = s1\<lparr>cache := (cache s1)\<lparr>seq_valid := True, last_seq_end := lba + count\<rparr>\<rparr>"
    have s2: "set_seq (lba + count) s1 = (Ok (), s2)" using lba by (simp add: set_seq_def s2_def READ_AHEAD_def)
    have "coherent s1" using rd(1) by (simp add: unchanged_def)
    then have "unchanged s1 s2"
      unfolding s2_def by (intro unchanged_cache) (auto simp: coherent_def)
    then have un: "unchanged s s2" using rd(1) unchanged_trans by blast
    then obtain s3 where s3: "read_ahead 0 s2 = (Ok (), s3)" "unchanged s2 s3"
      using read_ahead_unchanged [of s2 0] lba by (auto simp: unchanged_def s2_def)
    have "read_sectors lba count buf s =
        (Ok b, if seq_valid (cache s) \<and> lba = last_seq_end (cache s) then s3 else s2)"
      using n len r Ok s2 s3(1) by (simp add: read_sectors_def Let_def)
    then show ?thesis using un unchanged_trans [OF un s3(2)] rd(3) Ok by auto
  next
    case (Err e)
    then have "read_sectors lba count buf s = (Err e, s1)"
      using n len r by (simp add: read_sectors_def Let_def)
    then show ?thesis using rd Err by auto
  next
    case Panic
    then show ?thesis using rd(2) by simp
  qed
qed

lemma sector_upd_sectors:
  assumes "n * SECTOR_SIZE \<le> length buf" "k < n"
  shows "sector_bytes (upd_sectors m lba n buf (lba + k)) = subslice buf (k * SECTOR_SIZE) (k * SECTOR_SIZE + SECTOR_SIZE)"
proof -
  have "length (subslice buf (k * SECTOR_SIZE) (k * SECTOR_SIZE + SECTOR_SIZE)) = 512"
    using block_span [OF assms(2,1)] by (simp add: SECTOR_SIZE_def)
  then show ?thesis using assms(2) by (simp add: upd_sectors_def sector_bytes_bytes_words)
qed

lemma write_sectors_spec:
  assumes co: "coherent s" and n: "0 < count" and len: "length buf = count * SECTOR_SIZE"
  shows "\<exists>r s'. write_sectors lba count buf s = (r, s') \<and> r \<noteq> Panic \<and> same_drive (dev s) (dev s') \<and>
    (r = Ok () \<longrightarrow> coherent s' \<and> medium (dev s') = upd_sectors (medium (dev s)) lba count buf) \<and>
    (ready (dev s) \<longrightarrow> lba + count \<le> total_sectors (dev s) \<longrightarrow> r = Ok ())"
proof -
  let ?m = "upd_sectors (medium (dev s)) lba count buf"
  have sd: "small_disk (dev s)" using co by (simp add: coherent_def)
  have le: "count * SECTOR_SIZE \<le> length buf" using len by simp
  obtain r d where d: "write_sectors_raw lba count buf (dev s) = (r, d)"
    by (cases "write_sectors_raw lba count buf (dev s)")
  have w: "same_drive (dev s) d" "r \<noteq> Panic"
    "r = Ok () \<Longrightarrow> medium d = ?m \<and> lba + count \<le> total_sectors (dev s)"
    using write_sectors_raw_sound [OF sd n le d] n by auto
  have rdy: "r = Ok ()" if "ready (dev s)" "lba + count \<le> total_sectors (dev s)"
    using write_sectors_raw_ready [OF that(1) sd n le that(2)] d by auto
  show ?thesis
  proof (cases r)
    case (Ok u)
    have md: "\<forall>a. length (?m a) = 256" using length_upd_sectors [OF _ le] sd by (simp add: small_disk_def)
    have md2: "medium d = ?m" "lba + count \<le> total_sectors d" "total_sectors d = total_sectors (dev s)"
      using w(1,3) Ok by (auto simp: same_drive_def)
    have "\<exists>c'. insert_run lba 0 buf [0..<count] (cache s) = (Ok (), c') \<and> clock.agrees (on_disk d) c'"
      unfolding insert_run_def
    proof (rule clock.ins_all_agrees [where f = "on_disk (dev s)"])
      show "clock.agrees (on_disk (dev s)) (cache s)" using co by (simp add: coherent_agrees)
    next
      fix l assume "l \<notin> (\<lambda>k. lba + k) ` set [0..<count]"
      then have "\<not> (lba \<le> l \<and> l < lba + count)" by (auto simp: image_iff Bex_def)
      then show "on_disk d l = on_disk (dev s) l" using md2 by (auto simp: upd_sectors_def on_disk_def)
    qed (use sector_upd_sectors [OF le] block_span [OF _ le] md2 in \<open>auto simp: on_disk_def\<close>)
    then obtain c' where c': "insert_run lba 0 buf [0..<count] (cache s) = (Ok (), c')"
      "clock.agrees (on_disk d) c'" by blast
    define s' where "s' = s\<lparr>dev := d, cache := c'\<lparr>seq_valid := False\<rparr>\<rparr>"
    have "write_sectors lba count buf s = (Ok (), s')"
      using d Ok c'(1) by (simp add: write_sectors_def on_dev_def on_cache_def end_seq_def s'_def)
    moreover have "coherent s'"
      using c'(2) md2(1) small_disk_same [OF w(1) sd] md
      by (simp add: s'_def coherent_agrees clock.agrees_def)
    ultimately show ?thesis using w Ok by (auto simp: s'_def)
  next
    case (Err e)
    then have "write_sectors lba count buf s = (Err e, s\<lparr>dev := d\<rparr>)"
      using d by (simp add: write_sectors_def on_dev_def)
    then show ?thesis using w Err rdy by auto
  next
    case Panic
    then show ?thesis using w(2) by simp
  qed
qed

section \<open>The block device the file systems use\<close>

text \<open>
  The contract of \<open>read_sectors\<close> and \<open>write_sectors\<close> towards their clients, over the content of the
  medium: a device that is online answers every request inside its capacity.
\<close>

locale block_device =
  fixes online :: "'s \<Rightarrow> bool"
    and capacity :: "'s \<Rightarrow> nat"
    and content :: "'s \<Rightarrow> nat \<Rightarrow> bytes"
    and rd :: "nat \<Rightarrow> nat \<Rightarrow> bytes \<Rightarrow> ('s, 'e, bytes) prog"
    and wr :: "nat \<Rightarrow> nat \<Rightarrow> bytes \<Rightarrow> ('s, 'e, unit) prog"
  assumes content_length: "online s \<Longrightarrow> length (content s l) = SECTOR_SIZE"
    and rd_online: "\<lbrakk>online s; 0 < n; length b = n * SECTOR_SIZE; lba + n \<le> capacity s\<rbrakk> \<Longrightarrow>
      \<exists>s'. rd lba n b s = (Ok (concat (map (content s) [lba..<lba + n])), s') \<and> online s' \<and>
        content s' = content s \<and> capacity s' = capacity s"
    and wr_online: "\<lbrakk>online s; 0 < n; length b = n * SECTOR_SIZE; lba + n \<le> capacity s\<rbrakk> \<Longrightarrow>
      \<exists>s'. wr lba n b s = (Ok (), s') \<and> online s' \<and> capacity s' = capacity s \<and>
        content s' = (\<lambda>l. if lba \<le> l \<and> l < lba + n
          then subslice b ((l - lba) * SECTOR_SIZE) ((l - lba) * SECTOR_SIZE + SECTOR_SIZE) else content s l)"
begin

lemma rd_one:
  "\<lbrakk>online s; length b = SECTOR_SIZE; lba < capacity s\<rbrakk> \<Longrightarrow>
   \<exists>s'. rd lba 1 b s = (Ok (content s lba), s') \<and> online s' \<and> content s' = content s \<and> capacity s' = capacity s"
  using rd_online [of s 1 b lba] by simp

lemma wr_one:
  assumes "online s" "length b = SECTOR_SIZE" "lba < capacity s"
  shows "\<exists>s'. wr lba 1 b s = (Ok (), s') \<and> online s' \<and> content s' = (content s)(lba := b) \<and>
    capacity s' = capacity s"
proof -
  obtain s' where s': "wr lba 1 b s = (Ok (), s')" "online s'" "capacity s' = capacity s"
    "content s' = (\<lambda>l. if lba \<le> l \<and> l < lba + 1
      then subslice b ((l - lba) * SECTOR_SIZE) ((l - lba) * SECTOR_SIZE + SECTOR_SIZE) else content s l)"
    using wr_online [of s 1 b lba] assms by auto
  have "content s' = (content s)(lba := b)"
    using assms(2) by (auto simp: s'(4) fun_eq_iff)
  then show ?thesis using s' by blast
qed

end

definition online :: "blk \<Rightarrow> bool" where
  "online s \<longleftrightarrow> coherent s \<and> ready (dev s)"

definition capacity :: "blk \<Rightarrow> nat" where
  "capacity s = total_sectors (dev s)"

lemma disk_bytes_sectors: "disk_bytes (medium (dev s)) lba n = concat (map (sector_at s) [lba..<lba + n])"
  by (induction n) (simp_all add: disk_bytes_def sector_at_def)

interpretation disk: block_device online capacity sector_at read_sectors write_sectors
proof
  fix s l assume "online s"
  then show "length (sector_at s l) = SECTOR_SIZE"
    by (simp add: online_def coherent_def small_disk_def sector_at_def SECTOR_SIZE_def)
next
  fix s n lba and b :: bytes
  assume a: "online s" "0 < n" "length b = n * SECTOR_SIZE" "lba + n \<le> capacity s"
  have "capacity s \<le> 2 ^ 28" using a(1) by (simp add: online_def coherent_def small_disk_def capacity_def)
  then have lba: "lba + n + READ_AHEAD \<le> 2 ^ 64" using a(4) by (simp add: READ_AHEAD_def)
  from read_sectors_spec [OF _ a(2,3) lba, of s] a(1,4) obtain b' s' where
    "read_sectors lba n b s = (Ok b', s')" "unchanged s s'" "b' = disk_bytes (medium (dev s)) lba n"
    by (auto simp: online_def capacity_def)
  then show "\<exists>s'. read_sectors lba n b s = (Ok (concat (map (sector_at s) [lba..<lba + n])), s') \<and> online s' \<and>
      sector_at s' = sector_at s \<and> capacity s' = capacity s"
    using a(1) same_drive_ready
    by (auto simp: unchanged_def online_def capacity_def same_drive_def disk_bytes_sectors sector_at_def fun_eq_iff)
next
  fix s n lba and b :: bytes
  assume a: "online s" "0 < n" "length b = n * SECTOR_SIZE" "lba + n \<le> capacity s"
  from write_sectors_spec [OF _ a(2,3), of s lba] a(1,4) obtain s' where
    s': "write_sectors lba n b s = (Ok (), s')" "coherent s'" "same_drive (dev s) (dev s')"
    "medium (dev s') = upd_sectors (medium (dev s)) lba n b"
    by (auto simp: online_def capacity_def)
  have "sector_at s' l = (if lba \<le> l \<and> l < lba + n
      then subslice b ((l - lba) * SECTOR_SIZE) ((l - lba) * SECTOR_SIZE + SECTOR_SIZE) else sector_at s l)" for l
    using sector_upd_sectors [of n b "l - lba" "medium (dev s)" lba] a(3) s'(4)
    by (auto simp: sector_at_def upd_sectors_def)
  then show "\<exists>s'. write_sectors lba n b s = (Ok (), s') \<and> online s' \<and> capacity s' = capacity s \<and>
      sector_at s' = (\<lambda>l. if lba \<le> l \<and> l < lba + n
        then subslice b ((l - lba) * SECTOR_SIZE) ((l - lba) * SECTOR_SIZE + SECTOR_SIZE) else sector_at s l)"
    using s' a(1) same_drive_ready by (auto simp: online_def capacity_def same_drive_def fun_eq_iff)
qed

section \<open>Properties of the cached device\<close>

definition sample_blk :: blk where
  "sample_blk = \<lparr>dev = sample_drive, cache = new_cache\<rparr>"

lemma sample_blk_coherent: "coherent sample_blk"
  by (simp add: sample_blk_def coherent_def sample_drive_ok cache_wf_new)



text \<open>
  C15. Write-through: on a coherent device whose drive answers, a cached write inside the capacity
  succeeds, stores the buffer on the medium and nothing elsewhere, and leaves the cache coherent, so
  that a later cached read of the same sectors returns the written bytes.
\<close>

theorem cached_write_read_back:
  assumes "coherent s" "ready (dev s)" "0 < count" "length buf = count * SECTOR_SIZE"
    and "length buf' = length buf" "lba + count \<le> total_sectors (dev s)"
  shows "\<exists>s1 s2. write_sectors lba count buf s = (Ok (), s1) \<and> coherent s1 \<and>
    medium (dev s1) = upd_sectors (medium (dev s)) lba count buf \<and>
    read_sectors lba count buf' s1 = (Ok buf, s2)"
proof -
  have cap: "total_sectors (dev s) \<le> 2 ^ 28" "\<forall>a. length (medium (dev s) a) = 256"
    using assms(1) by (auto simp: coherent_def small_disk_def)
  from write_sectors_spec [OF assms(1,3,4), of lba] assms(2,6) obtain s1 where
    s1: "write_sectors lba count buf s = (Ok (), s1)" "coherent s1" "same_drive (dev s) (dev s1)"
      "medium (dev s1) = upd_sectors (medium (dev s)) lba count buf" by auto
  have lba: "lba + count + READ_AHEAD \<le> 2 ^ 64" using assms(6) cap(1) by (simp add: READ_AHEAD_def)
  have "ready (dev s1)" "lba + count \<le> total_sectors (dev s1)"
    using s1(3) assms(2,6) same_drive_ready by (auto simp: same_drive_def)
  then obtain b s2 where "read_sectors lba count buf' s1 = (Ok b, s2)"
    "b = disk_bytes (upd_sectors (medium (dev s)) lba count buf) lba count"
    using read_sectors_spec [OF s1(2) assms(3), of buf' lba] assms(4,5) lba s1(4) by auto
  then show ?thesis
    using s1 disk_bytes_upd_sectors [OF cap(2), of count buf count lba] assms(4) by auto
qed

theorem cached_write_read_back_witness:
  "\<exists>s1 s2. write_sectors 9 1 (replicate 512 7) sample_blk = (Ok (), s1) \<and> coherent s1 \<and>
    medium (dev s1) = upd_sectors (medium (dev sample_blk)) 9 1 (replicate 512 7) \<and>
    read_sectors 9 1 (replicate 512 0) s1 = (Ok (replicate 512 7), s2)"
  by (rule cached_write_read_back [OF sample_blk_coherent])
    (simp_all add: SECTOR_SIZE_def sample_blk_def sample_drive_ok(1), simp add: sample_drive_def)

text \<open>
  C20. The second-chance insertion always finds a slot: on a well-formed cache it returns, the
  inserted sector is then found with its data, and any other sector is found unchanged or was
  evicted; the cache stays well formed.
\<close>

theorem insert_then_find:
  assumes "cache_wf c" "length data = SECTOR_SIZE"
  shows "\<exists>c'. insert_sector lba data c = (Ok (), c') \<and> cache_wf c' \<and>
    fst (find_sector lba c') = Some data \<and>
    (\<forall>l. l \<noteq> lba \<longrightarrow> fst (find_sector l c') \<in> {None, fst (find_sector l c)})"
proof -
  obtain c' where c': "insert_sector lba data c = (Ok (), c')" "inserted lba data c c'"
    using insert_sector_spec [OF assms] by blast
  have "fst (find_sector l x) = peek x l" if "cache_wf x" for l x
    using find_sector_spec [OF that, of l] by auto
  then show ?thesis using c' assms(1) by (auto simp: inserted_def)
qed

theorem insert_then_find_witness:
  "\<exists>c'. insert_sector 3 (replicate 512 9) new_cache = (Ok (), c') \<and> cache_wf c' \<and>
    fst (find_sector 3 c') = Some (replicate 512 9) \<and>
    (\<forall>l. l \<noteq> 3 \<longrightarrow> fst (find_sector l c') \<in> {None, fst (find_sector l new_cache)})"
  by (rule insert_then_find [OF cache_wf_new(1)]) (simp add: SECTOR_SIZE_def)

text \<open>A flush empties the cache and keeps it well formed: nothing is found afterwards, and nothing is lost
  because the medium already has every write.\<close>

theorem flush_empties:
  assumes "coherent s"
  shows "fst (find_sector l (flush (cache s))) = None \<and> coherent (s\<lparr>cache := flush (cache s)\<rparr>)"
proof -
  have none: "peek (flush (cache s)) l = None" for l
    by (auto simp: peek_def flush_def position_None_iff holds_def)
  have "cache_wf (flush (cache s))"
    using assms by (simp add: cache_wf_def flush_def coherent_def holds_def)
  then show ?thesis
    using assms none find_sector_spec [of "flush (cache s)" l] by (auto simp: coherent_def)
qed

theorem flush_empties_witness:
  "fst (find_sector 0 (flush (cache sample_blk))) = None \<and>
   coherent (sample_blk\<lparr>cache := flush (cache sample_blk)\<rparr>)"
  by (rule flush_empties [OF sample_blk_coherent])

lemma read_past_u64:
  assumes "cache_wf (cache s)" "\<not> contains (2 ^ 64 - 1) (cache s)" "length buf = 2 * SECTOR_SIZE"
  shows "fst (read_sectors (2 ^ 64 - 1) 2 buf s) = Panic"
proof -
  have "find_sector (2 ^ 64 - 1) (cache s) = (None, cache s)"
    using find_sector_spec [OF assms(1), of "2 ^ 64 - 1"] assms(2) by (auto simp: peek_None_iff [symmetric])
  moreover have "miss_run (2 ^ 64 - 1) 2 (cache s) 1 = Panic"
    by (subst miss_run.simps) simp
  ultimately have "read_main (2 ^ 64 - 1) 2 0 buf s = (Panic, s)"
    by (subst read_main.simps) simp
  then show ?thesis using assms(3) by (simp add: read_sectors_def Let_def)
qed

text \<open>
  A read whose second sector number does not fit 64 bits panics when neither sector is
  cached: \<open>read\<close> adds before the driver's range check has a chance to refuse the request.
\<close>

theorem read_overflow_panics:
  assumes "cache_wf (cache s)" "\<not> contains (2 ^ 64 - 1) (cache s)" "length buf = 2 * SECTOR_SIZE"
  shows "fst (read_sectors (2 ^ 64 - 1) 2 buf s) = Panic"
  by (rule read_past_u64 [OF assms])

theorem read_overflow_panics_witness:
  "fst (read_sectors (2 ^ 64 - 1) 2 (replicate 1024 0) sample_blk) = Panic"
  using cache_wf_new peek_None_iff
  by (intro read_overflow_panics) (auto simp: sample_blk_def SECTOR_SIZE_def)

lemma sector_bytes_zero: "sector_bytes (replicate 256 0) = replicate 512 0"
  by (simp add: sector_bytes_def word_bytes_def numeral_eq_Suc)

lemma sample_sector: "sector_at sample_blk l = replicate 512 0"
  by (simp add: sector_at_def sample_blk_def sample_drive_def sector_bytes_zero)

definition failing_blk :: blk where
  "failing_blk = \<lparr>dev = sample_drive\<lparr>status := (\<lambda>k. if k < 3 then 0x48 else 0x01)\<rparr>,
     cache = snd (insert_sector 0 (replicate 512 0) new_cache)\<rparr>"

lemma failing_blk_facts:
  "coherent failing_blk" "peek (cache failing_blk) 0 = Some (replicate 512 0)"
proof -
  obtain c where c: "insert_sector 0 (replicate 512 0) new_cache = (Ok (), c)" "inserted 0 (replicate 512 0) new_cache c"
    using insert_sector_spec [OF cache_wf_new(1), of "replicate 512 0" 0] by (auto simp: SECTOR_SIZE_def)
  note z = sector_bytes_zero
  have "v = replicate 512 0 \<and> l = 0" if "peek c l = Some v" for l v
    using that c(2) cache_wf_new(2) by (cases "l = 0") (auto simp: inserted_def)
  then have "l < total_sectors (dev failing_blk) \<and> v = sector_at failing_blk l"
    if "peek (cache failing_blk) l = Some v" for l v
    using that c(1) z by (fastforce simp: failing_blk_def sector_at_def sample_drive_def)
  moreover have "small_disk (dev failing_blk)"
    using sample_drive_ok(2) by (simp add: failing_blk_def small_disk_def)
  ultimately show "coherent failing_blk"
    using c by (simp add: coherent_def failing_blk_def inserted_def)
  show "peek (cache failing_blk) 0 = Some (replicate 512 0)"
    using c by (simp add: failing_blk_def inserted_def)
qed

lemma failing_write:
  "\<exists>d. write_sectors_raw 0 2 (replicate 1024 1) (dev failing_blk) = (Err CommandFailed, d) \<and>
    medium d 0 = bytes_words (replicate 512 1)"
proof -
  have ok: "wait_not_busy d = (Ok (), d\<lparr>spos := spos d + 1\<rparr>)"
    "wait_data_ready d = (Ok (), d\<lparr>spos := spos d + 1\<rparr>)" if "status d (spos d) = 0x48" for d
    unfolding wait_not_busy_def wait_data_ready_def POLL_LIMIT_def
    by (subst wait_not_busy_loop.simps wait_data_ready_loop.simps,
        use that in \<open>simp add: bindP_def read_status_def ST_BSY_def ST_DRQ_def ST_ERR_def ST_DF_def\<close>)+
  have fail: "wait_data_ready d = (Err CommandFailed, d\<lparr>spos := spos d + 1\<rparr>)" if "status d (spos d) = 1" for d
    unfolding wait_data_ready_def POLL_LIMIT_def
    by (subst wait_data_ready_loop.simps)
      (use that in \<open>simp add: bindP_def read_status_def ST_ERR_def ST_DF_def\<close>)
  have regs: "task_file_lba (lba28_regs 0 2 @ [(REG_CMD, CMD_WRITE)]) = 0"
    using task_file_lba_addressing unfolding lba28_addressing_def
    by (metis append_Nil zero_le)
  have upt: "[0..<2] = [0, 1 :: nat]" by (simp add: upt_rec)
  show ?thesis
    using regs
    by (simp add: write_sectors_raw_def failing_blk_def sample_drive_def prepare_lba_def last_lba_def
      checked_add64_def checked_sub_def prepare_lba28_def port_writes_eq port_write_def bindP_def ok fail
      LBA28_MAX_def upt store_sector_def SECTOR_SIZE_def subslice_def)
qed


end
