(* ===== verification/Input_Ring.thy ===== *)
theory Input_Ring
  imports Onyx_Prelude
begin

unbundle bit_operations_syntax

text \<open>
  The raw input event ring: \<open>kernel/src/input.rs\<close>. The statics RING, HEAD, TAIL, COUNT, TOTAL and
  DROPPED are the fields of one record; every access to them is serialised by the kernel-service
  lock. The signed deltas are 32-bit patterns, the two counters are unbounded because they count
  events since boot. The monotonic clock is an argument of the two producers. The lemmas show that
  the ring is a bounded queue that drops the newest event when full, and that \<open>drain\<close> delivers the
  oldest events in order in the 24-byte wire format.
\<close>

section \<open>Definitions\<close>

definition EV_KIND_KEY :: u8 where "EV_KIND_KEY = 1"
definition EV_KIND_MOUSE :: u8 where "EV_KIND_MOUSE = 2"
definition KEY_DOWN :: u8 where "KEY_DOWN = 1"
definition KEY_UP :: u8 where "KEY_UP = 2"
definition EV_SIZE :: nat where "EV_SIZE = 24"
definition RING_LEN :: nat where "RING_LEN = 256"

record input_event =
  ev_kind :: u8
  ev_flags :: u8
  ev_code :: u16
  ev_x :: u32
  ev_y :: u32
  ev_ts_ns :: u64

record ring =
  RING :: "input_event list"
  HEAD :: nat
  TAIL :: nat
  COUNT :: nat
  TOTAL :: nat
  DROPPED :: nat

type_synonym ('e, 'a) ringp = "(ring, 'e, 'a) prog"

definition ring_start :: ring where
  "ring_start = \<lparr>RING = replicate RING_LEN \<lparr>ev_kind = 0, ev_flags = 0, ev_code = 0, ev_x = 0, ev_y = 0, ev_ts_ns = 0\<rparr>,
     HEAD = 0, TAIL = 0, COUNT = 0, TOTAL = 0, DROPPED = 0\<rparr>"

definition push :: "input_event \<Rightarrow> ('e, unit) ringp" where
  "push e r =
     (if COUNT r = RING_LEN then (Ok (), r\<lparr>DROPPED := DROPPED r + 1\<rparr>)
      else if length (RING r) \<le> HEAD r then (Panic, r)
      else (Ok (), r\<lparr>RING := (RING r)[HEAD r := e], HEAD := (HEAD r + 1) mod RING_LEN,
        COUNT := COUNT r + 1, TOTAL := TOTAL r + 1\<rparr>))"

definition push_key :: "u64 \<Rightarrow> u16 \<Rightarrow> bool \<Rightarrow> ('e, unit) ringp" where
  "push_key now code down =
     push \<lparr>ev_kind = EV_KIND_KEY, ev_flags = (if down then KEY_DOWN else KEY_UP), ev_code = code,
       ev_x = 0, ev_y = 0, ev_ts_ns = now\<rparr>"

definition push_mouse :: "u64 \<Rightarrow> u32 \<Rightarrow> u32 \<Rightarrow> u8 \<Rightarrow> ('e, unit) ringp" where
  "push_mouse now dx dy buttons =
     push \<lparr>ev_kind = EV_KIND_MOUSE, ev_flags = buttons, ev_code = 0, ev_x = dx, ev_y = dy, ev_ts_ns = now\<rparr>"

definition encode :: "input_event \<Rightarrow> bytes" where
  "encode e =
     [ev_kind e, ev_flags e,
      ucast (ev_code e), ucast (drop_bit 8 (ev_code e)),
      ucast (ev_x e), ucast (drop_bit 8 (ev_x e)), ucast (drop_bit 16 (ev_x e)), ucast (drop_bit 24 (ev_x e)),
      ucast (ev_y e), ucast (drop_bit 8 (ev_y e)), ucast (drop_bit 16 (ev_y e)), ucast (drop_bit 24 (ev_y e)),
      0, 0, 0, 0] @ map (\<lambda>i. ucast (drop_bit (i * 8) (ev_ts_ns e))) [0..<8]"

text \<open>The consuming half of one round of \<open>drain\<close>'s loop.\<close>

definition take_event :: "('e, input_event) ringp" where
  "take_event r =
     (if length (RING r) \<le> TAIL r \<or> COUNT r = 0 then (Panic, r)
      else (Ok (RING r ! TAIL r), r\<lparr>TAIL := (TAIL r + 1) mod RING_LEN, COUNT := COUNT r - 1\<rparr>))"

lemma length_encode [simp]: "length (encode e) = EV_SIZE"
  by (simp add: encode_def EV_SIZE_def)

function drain_loop :: "bytes \<Rightarrow> nat \<Rightarrow> ('e, nat \<times> bytes) ringp" where
  "drain_loop dst copied r =
     (if 0 < COUNT r \<and> copied + EV_SIZE \<le> length dst then
        bindP take_event (\<lambda>e. drain_loop (put dst copied (encode e)) (copied + EV_SIZE)) r
      else (Ok (copied, dst), r))"
  by pat_completeness auto

termination
  by (relation "measure (\<lambda>(dst, copied, r). length dst - copied)") (auto simp: EV_SIZE_def)

declare drain_loop.simps [simp del]

definition drain :: "bytes \<Rightarrow> ('e, nat \<times> bytes) ringp" where
  "drain dst = drain_loop dst 0"

definition clear :: "('e, nat) ringp" where
  "clear r = (Ok (COUNT r), r\<lparr>TAIL := HEAD r, COUNT := 0\<rparr>)"

definition pending :: "ring \<Rightarrow> bool" where
  "pending r \<longleftrightarrow> 0 < COUNT r"

section \<open>Bounded queues\<close>

text \<open>
  The contract of a bounded queue that refuses new elements when full. The lemmas hold for any such
  queue: what a burst of insertions leaves in it, and what taking elements out returns.
\<close>

locale bounded_fifo =
  fixes inv :: "'s \<Rightarrow> bool"
    and queue :: "'s \<Rightarrow> 'a list"
    and cap :: nat
    and enq :: "'a \<Rightarrow> ('s, 'e, unit) prog"
    and deq :: "('s, 'e, 'a) prog"
  assumes bounded: "inv s \<Longrightarrow> length (queue s) \<le> cap"
    and enq_law: "inv s \<Longrightarrow> \<exists>s'. enq x s = (Ok (), s') \<and> inv s' \<and> queue s' = take cap (queue s @ [x])"
    and deq_law: "\<lbrakk>inv s; queue s = x # xs\<rbrakk> \<Longrightarrow> \<exists>s'. deq s = (Ok x, s') \<and> inv s' \<and> queue s' = xs"
begin

lemma enq_all:
  "inv s \<Longrightarrow> \<exists>s'. forP enq xs s = (Ok (), s') \<and> inv s' \<and> queue s' = take cap (queue s @ xs)"
proof (induction xs arbitrary: s)
  case Nil
  then show ?case using bounded [OF Nil] by simp
next
  case (Cons x xs)
  obtain s1 where s1: "enq x s = (Ok (), s1)" "inv s1" "queue s1 = take cap (queue s @ [x])"
    using enq_law [OF Cons.prems] by blast
  obtain s2 where s2: "forP enq xs s1 = (Ok (), s2)" "inv s2" "queue s2 = take cap (queue s1 @ xs)"
    using Cons.IH [OF s1(2)] by blast
  have "take cap (take cap (queue s @ [x]) @ xs) = take cap (queue s @ x # xs)"
    using bounded [OF Cons.prems] by (cases "length (queue s) = cap") (simp_all add: le_neq_implies_less)
  then show ?case using s1 s2 by simp
qed

lemma deq_not_empty: "\<lbrakk>inv s; queue s \<noteq> []\<rbrakk> \<Longrightarrow> \<exists>s'. deq s = (Ok (hd (queue s)), s') \<and> inv s' \<and> queue s' = tl (queue s)"
  using deq_law [of s "hd (queue s)" "tl (queue s)"] by simp

end

section \<open>The ring is a bounded queue\<close>

definition ring_wf :: "ring \<Rightarrow> bool" where
  "ring_wf r \<longleftrightarrow> length (RING r) = RING_LEN \<and> TAIL r < RING_LEN \<and> COUNT r \<le> RING_LEN \<and>
     HEAD r = (TAIL r + COUNT r) mod RING_LEN"

definition events :: "ring \<Rightarrow> input_event list" where
  "events r = map (\<lambda>i. RING r ! ((TAIL r + i) mod RING_LEN)) [0..<COUNT r]"

lemma length_events [simp]: "length (events r) = COUNT r"
  by (simp add: events_def)

lemma ring_start_wf: "ring_wf ring_start" "events ring_start = []"
  by (simp_all add: ring_start_def ring_wf_def events_def RING_LEN_def)

lemma push_spec:
  assumes "ring_wf r"
  shows "\<exists>r'. push e r = (Ok (), r') \<and> ring_wf r' \<and> events r' = take RING_LEN (events r @ [e]) \<and>
    TOTAL r' + DROPPED r' = Suc (TOTAL r + DROPPED r) \<and> DROPPED r' = DROPPED r + (if COUNT r = RING_LEN then 1 else 0)"
proof (cases "COUNT r = RING_LEN")
  case True
  then show ?thesis using assms by (auto simp: push_def ring_wf_def events_def)
next
  case False
  define r' where "r' = r\<lparr>RING := (RING r)[HEAD r := e], HEAD := (HEAD r + 1) mod RING_LEN,
    COUNT := COUNT r + 1, TOTAL := TOTAL r + 1\<rparr>"
  have c: "COUNT r < RING_LEN" "0 < RING_LEN" using assms False by (auto simp: ring_wf_def RING_LEN_def)
  have h: "HEAD r < length (RING r)" "HEAD r = (TAIL r + COUNT r) mod RING_LEN"
    using assms c by (auto simp: ring_wf_def)
  have "ring_wf r'"
    using assms c by (auto simp: ring_wf_def r'_def mod_Suc_eq)
  moreover have "events r' = events r @ [e]"
  proof -
    have "(TAIL r + i) mod RING_LEN \<noteq> HEAD r" if "i < COUNT r" for i
    proof
      assume "(TAIL r + i) mod RING_LEN = HEAD r"
      then have "RING_LEN dvd (TAIL r + COUNT r) - (TAIL r + i)"
        using h(2) that by (subst mod_eq_dvd_iff_nat [symmetric]) simp_all
      then have "RING_LEN \<le> COUNT r - i" using that by (auto intro!: dvd_imp_le)
      then show False using c(1) by simp
    qed
    then show ?thesis using h by (auto simp: events_def r'_def nth_list_update_neq [OF not_sym])
  qed
  moreover have "push e r = (Ok (), r')" using False h by (simp add: push_def r'_def)
  moreover have "TOTAL r' = TOTAL r + 1" "DROPPED r' = DROPPED r" by (simp_all add: r'_def)
  ultimately show ?thesis using c by (intro exI [of _ r']) simp
qed

lemma take_event_spec:
  assumes "ring_wf r" "0 < COUNT r"
  shows "\<exists>r'. take_event r = (Ok (hd (events r)), r') \<and> ring_wf r' \<and> events r' = tl (events r) \<and>
    COUNT r' = COUNT r - 1"
proof -
  define r' where "r' = r\<lparr>TAIL := (TAIL r + 1) mod RING_LEN, COUNT := COUNT r - 1\<rparr>"
  obtain n where n: "COUNT r = Suc n" using assms(2) gr0_conv_Suc by blast
  have t: "TAIL r < length (RING r)" "TAIL r mod RING_LEN = TAIL r" using assms(1) by (auto simp: ring_wf_def)
  have ev: "events r = RING r ! TAIL r # events r'"
    unfolding events_def r'_def n
    by (simp add: upt_conv_Cons map_Suc_upt [symmetric] t(2) mod_simps del: upt_Suc)
  moreover have "ring_wf r'"
    using assms(1) n by (auto simp: ring_wf_def r'_def mod_simps RING_LEN_def)
  moreover have "take_event r = (Ok (RING r ! TAIL r), r')"
    using t(1) n by (simp add: take_event_def r'_def)
  moreover have "COUNT r' = COUNT r - 1" by (simp add: r'_def)
  ultimately show ?thesis by (intro exI [of _ r']) simp
qed

interpretation input: bounded_fifo ring_wf events RING_LEN push take_event
proof
  show "ring_wf r \<Longrightarrow> length (events r) \<le> RING_LEN" for r
    by (simp add: ring_wf_def)
  show "ring_wf r \<Longrightarrow> \<exists>r'. push e r = (Ok (), r') \<and> ring_wf r' \<and> events r' = take RING_LEN (events r @ [e])" for r e
    using push_spec by blast
next
  fix r e es assume a: "ring_wf r" "events r = e # es"
  then have "0 < COUNT r" using length_events [of r] by simp
  then show "\<exists>r'. take_event r = (Ok e, r') \<and> ring_wf r' \<and> events r' = es"
    using take_event_spec [OF a(1)] a(2) by auto
qed

lemma push_all_counts:
  "ring_wf r \<Longrightarrow> forP push es r = (q :: ('e, unit) res, r') \<Longrightarrow>
   TOTAL r' + DROPPED r' = TOTAL r + DROPPED r + length es \<and> TOTAL r' \<le> TOTAL r + length es \<and>
   (COUNT r + length es \<le> RING_LEN \<longrightarrow> DROPPED r' = DROPPED r)"
proof (induction es arbitrary: r)
  case (Cons e es)
  obtain r1 where r1: "push e r = (Ok () :: ('e, unit) res, r1)" "ring_wf r1"
    "TOTAL r1 + DROPPED r1 = Suc (TOTAL r + DROPPED r)" "events r1 = take RING_LEN (events r @ [e])"
    "DROPPED r1 = DROPPED r + (if COUNT r = RING_LEN then 1 else 0)"
    using push_spec [OF Cons.prems(1)] by blast
  have "COUNT r1 = min (COUNT r + 1) RING_LEN"
    using arg_cong [OF r1(4), of length] by simp
  then show ?case using Cons.IH [OF r1(2)] Cons.prems(2) r1 by (auto split: if_splits)
qed (simp add: retP_def)

section \<open>Draining\<close>

lemma length_encodes: "length (concat (map encode es)) = length es * EV_SIZE"
  by (induction es) simp_all

lemma drain_loop_spec:
  assumes "ring_wf r" "k = min (COUNT r) ((length dst - copied) div EV_SIZE)" "copied \<le> length dst"
  shows "\<exists>r'. drain_loop dst copied r = (Ok (copied + k * EV_SIZE,
      put dst copied (concat (map encode (take k (events r))))) :: ('e, nat \<times> bytes) res, r') \<and>
    ring_wf r' \<and> events r' = drop k (events r)"
  using assms
proof (induction "length dst - copied" arbitrary: dst copied r k rule: less_induct)
  case less
  show ?case
  proof (cases "0 < COUNT r \<and> copied + EV_SIZE \<le> length dst")
    case False
    then have "k = 0" using less.prems(2,3) by (auto simp: EV_SIZE_def)
    then show ?thesis using False less.prems(1) by (subst drain_loop.simps) auto
  next
    case True
    obtain r1 where r1: "take_event r = (Ok (hd (events r)) :: ('e, input_event) res, r1)" "ring_wf r1"
      "events r1 = tl (events r)" "COUNT r1 = COUNT r - 1"
      using take_event_spec [OF less.prems(1) conjunct1 [OF True]] by blast
    obtain e es where e: "events r = e # es" using True length_events [of r] by (cases "events r") auto
    let ?d = "put dst copied (encode e)"
    have len: "length ?d = length dst" using True by simp
    define k1 where "k1 = min (COUNT r1) ((length ?d - (copied + EV_SIZE)) div EV_SIZE)"
    have "(length dst - copied) div EV_SIZE = Suc ((length dst - (copied + EV_SIZE)) div EV_SIZE)"
      using True le_div_geq [of EV_SIZE "length dst - copied"] by (auto simp: EV_SIZE_def)
    then have k: "k = Suc k1"
      using True less.prems(2) r1(4) unfolding k1_def len by (auto simp: min_def)
    have lt: "length ?d - (copied + EV_SIZE) < length dst - copied" "copied + EV_SIZE \<le> length ?d"
      using True len by (auto simp: EV_SIZE_def)
    obtain r' where r': "drain_loop ?d (copied + EV_SIZE) r1 = (Ok (copied + EV_SIZE + k1 * EV_SIZE,
        put ?d (copied + EV_SIZE) (concat (map encode (take k1 (events r1))))) :: ('e, nat \<times> bytes) res, r')"
      "ring_wf r'" "events r' = drop k1 (events r1)"
      using less.hyps [OF lt(1) r1(2) k1_def lt(2)] by blast
    have "k1 * EV_SIZE \<le> length dst - (copied + EV_SIZE)"
      unfolding k1_def len by (meson div_times_less_eq_dividend le_trans min.cobounded2 mult_le_mono1)
    moreover have "length (take k1 es) * EV_SIZE \<le> k1 * EV_SIZE" by simp
    ultimately have fit: "copied + length (encode e) + length (concat (map encode (take k1 es))) \<le> length dst"
      using True by (simp only: length_encodes length_encode) linarith
    have "(drain_loop dst copied r :: ('e, nat \<times> bytes) res \<times> ring) = drain_loop ?d (copied + EV_SIZE) r1"
      by (subst drain_loop.simps) (use True r1(1) e in simp)
    then show ?thesis
      using r' e r1(3) k put_append [OF fit] by auto
  qed
qed

section \<open>Properties\<close>

definition sample_event :: input_event where
  "sample_event = \<lparr>ev_kind = 1, ev_flags = 1, ev_code = 30, ev_x = 0, ev_y = 0, ev_ts_ns = 7\<rparr>"



text \<open>
  C31. Draining copies as many whole records as fit and are pending, oldest first, in wire format at
  the start of the buffer, leaves the rest of the buffer alone, and removes exactly those events.
\<close>

theorem drain_delivers_oldest:
  assumes "ring_wf r" "k = min (COUNT r) (length dst div EV_SIZE)"
  shows "\<exists>r'. drain dst r = (Ok (k * EV_SIZE,
      concat (map encode (take k (events r))) @ drop (k * EV_SIZE) dst) :: ('e, nat \<times> bytes) res, r') \<and>
    ring_wf r' \<and> events r' = drop k (events r)"
proof -
  have "length (concat (map encode (take k (events r)))) = k * EV_SIZE"
    using assms(2) by (simp add: length_encodes)
  then have "put dst 0 (concat (map encode (take k (events r)))) =
      concat (map encode (take k (events r))) @ drop (k * EV_SIZE) dst"
    by (simp add: put_def)
  then show ?thesis
    using drain_loop_spec [OF assms(1), of k dst 0] assms(2) by (simp add: drain_def)
qed

theorem drain_delivers_oldest_witness:
  "\<exists>r1 r'. push sample_event ring_start = (Ok () :: (unit, unit) res, r1) \<and>
    drain (replicate 50 0) r1 = (Ok (24, concat (map encode (take 1 (events r1))) @ drop 24 (replicate 50 0)) :: (unit, nat \<times> bytes) res, r') \<and>
    ring_wf r' \<and> events r' = drop 1 (events r1)"
proof -
  obtain r1 where r1: "push sample_event ring_start = (Ok () :: (unit, unit) res, r1)" "ring_wf r1"
    "events r1 = take RING_LEN (events ring_start @ [sample_event])"
    using push_spec [OF ring_start_wf(1)] by blast
  have "COUNT r1 = 1" using arg_cong [OF r1(3), of length] ring_start_wf(2) by (simp add: RING_LEN_def)
  then show ?thesis
    using drain_delivers_oldest [OF r1(2), of 1 "replicate 50 0"] r1(1) by (auto simp: EV_SIZE_def)
qed

text \<open>The reader's side of the wire format: fields at the offsets the module header documents.\<close>

definition decode_event :: "bytes \<Rightarrow> input_event" where
  "decode_event b = \<lparr>ev_kind = b ! 0, ev_flags = b ! 1, ev_code = of_nat (le_nat (subslice b 2 4)),
     ev_x = of_nat (le_nat (subslice b 4 8)), ev_y = of_nat (le_nat (subslice b 8 12)),
     ev_ts_ns = of_nat (le_nat (subslice b 16 24))\<rparr>"

lemma encode_fields:
  "encode e = [ev_kind e, ev_flags e] @ to_le 2 (unat (ev_code e)) @ to_le 4 (unat (ev_x e)) @
     to_le 4 (unat (ev_y e)) @ [0, 0, 0, 0] @ to_le 8 (unat (ev_ts_ns e))"
  unfolding to_le_word by (simp add: encode_def upt_rec mult.commute)

lemma unat_mod_bytes:
  "unat (w :: u16) mod 256 ^ 2 = unat w" "unat (x :: u32) mod 256 ^ 4 = unat x" "unat (y :: u64) mod 256 ^ 8 = unat y"
proof -
  have "unat w < 65536" using unsigned_less [of w] by simp
  moreover have "unat x < 4294967296" using unsigned_less [of x] by simp
  moreover have "unat y < 18446744073709551616" using unsigned_less [of y] by simp
  ultimately show "unat w mod 256 ^ 2 = unat w" "unat x mod 256 ^ 4 = unat x" "unat y mod 256 ^ 8 = unat y"
    by simp_all
qed

text \<open>
  The wire format is faithful: reading the fields of an encoded record at the documented
  little-endian offsets gives the event back, and the padding is zero.
\<close>

theorem encode_roundtrip:
  "length (encode e) = EV_SIZE \<and> decode_event (encode e) = e \<and> subslice (encode e) 12 16 = [0, 0, 0, 0]"
proof -
  have "subslice (encode e) 2 4 = to_le 2 (unat (ev_code e))" "subslice (encode e) 4 8 = to_le 4 (unat (ev_x e))"
    "subslice (encode e) 8 12 = to_le 4 (unat (ev_y e))" "subslice (encode e) 16 24 = to_le 8 (unat (ev_ts_ns e))"
    "subslice (encode e) 12 16 = [0, 0, 0, 0]"
    by (simp_all add: encode_fields subslice_def)
  moreover have "encode e ! 0 = ev_kind e" "encode e ! 1 = ev_flags e" by (simp_all add: encode_fields)
  ultimately show ?thesis by (simp add: decode_event_def unat_mod_bytes [simplified])
qed

end
