(* ===== verification/Frames.thy ===== *)
theory Frames
  imports Onyx_Prelude
begin

text \<open>
  The physical frame allocator: \<open>BootInfoFrameAllocator\<close> of \<open>kernel/src/memory.rs\<close>. Its record keeps
  the fields of the struct together with the part of physical memory it uses, the first eight bytes
  of each frame (\<open>phys\<close>), where the intrusive free list lives, and the offset of the window through
  which memory is accessed. Sums are \<open>u64\<close> sums with overflow checks. The lemmas show that no
  sequence of operations ever hands out a frame that is still owned, even though owners overwrite
  the contents of their frames.
\<close>

section \<open>Definitions\<close>

definition PAGE :: nat where "PAGE = 4096"

record region =
  r_start :: nat
  r_end :: nat
  r_usable :: bool

record falloc =
  memory_regions :: "region list"
  bump_next :: nat
  free_head :: nat
  total_frames :: nat
  used :: nat
  freed :: nat
  oom :: nat
  phys :: "nat \<Rightarrow> nat"
  PHYS_OFFSET :: nat

type_synonym 'a frp = "(falloc, unit, 'a) prog"

definition frames_init :: "nat \<Rightarrow> (nat \<Rightarrow> nat) \<Rightarrow> region list \<Rightarrow> falloc" where
  "frames_init off mem rs =
     \<lparr>memory_regions = rs, bump_next = 0, free_head = 0,
      total_frames = sum_list (map (\<lambda>r. (r_end r - r_start r) div PAGE) (filter r_usable rs)),
      used = 0, freed = 0, oom = 0, phys = mem, PHYS_OFFSET = off\<rparr>"

definition phys_read :: "nat \<Rightarrow> nat frp" where
  "phys_read addr a = (if PHYS_OFFSET a = 0 then (Panic, a) else (Ok (phys a addr), a))"

definition phys_write :: "nat \<Rightarrow> nat \<Rightarrow> unit frp" where
  "phys_write addr v a = (if PHYS_OFFSET a = 0 then (Panic, a) else (Ok (), a\<lparr>phys := (phys a)(addr := v)\<rparr>))"

definition frame_stats :: "falloc \<Rightarrow> nat \<times> nat \<times> nat \<times> nat" where
  "frame_stats a = (used a, total_frames a, freed a, oom a)"

definition align_up :: "nat \<Rightarrow> nat" where
  "align_up x = (x + PAGE - 1) div PAGE * PAGE"

text \<open>The scan of \<open>allocate_frame\<close> over the regions, from the bump cursor \<open>b\<close>.\<close>

primrec scan_frame :: "nat \<Rightarrow> region list \<Rightarrow> (unit, nat option) res" where
  "scan_frame b [] = Ok None"
| "scan_frame b (r # rs) =
     (if \<not> r_usable r then scan_frame b rs
      else if 2 ^ 64 \<le> r_start r + PAGE then Panic
      else
        (let cand = max (align_up (r_start r)) b in
         if 2 ^ 64 \<le> cand + PAGE then Panic
         else if cand + PAGE \<le> r_end r then Ok (Some cand)
         else scan_frame b rs))"

definition take_bump :: "nat \<Rightarrow> nat \<Rightarrow> falloc \<Rightarrow> falloc" where
  "take_bump cand count a = a\<lparr>bump_next := cand + count * PAGE, used := used a + count\<rparr>"

definition allocate_frame :: "nat option frp" where
  "allocate_frame a =
     (if free_head a \<noteq> 0 then
        bindP (phys_read (free_head a)) (\<lambda>nxt a1.
          (Ok (Some (free_head a)), a1\<lparr>free_head := nxt, used := used a1 + 1\<rparr>)) a
      else
        (case scan_frame (bump_next a) (memory_regions a) of
           Ok (Some cand) \<Rightarrow> (Ok (Some cand), take_bump cand 1 a)
         | Ok None \<Rightarrow> (Ok None, a\<lparr>oom := oom a + 1\<rparr>)
         | Err e \<Rightarrow> (Err e, a)
         | Panic \<Rightarrow> (Panic, a)))"

primrec scan_low :: "nat \<Rightarrow> region list \<Rightarrow> (unit, nat option) res" where
  "scan_low b [] = Ok None"
| "scan_low b (r # rs) =
     (if \<not> r_usable r then scan_low b rs
      else
        (let st = max (r_start r) 0x1000 in
         if 2 ^ 64 \<le> st + PAGE \<or> 2 ^ 64 \<le> b + PAGE then Panic
         else
           (let cand = max (align_up st) (align_up b) in
            if 2 ^ 64 \<le> cand + PAGE then Panic
            else if cand + PAGE \<le> r_end r \<and> cand + PAGE \<le> 0x100000 then Ok (Some cand)
            else scan_low b rs)))"

definition reserve_low_frame :: "nat option frp" where
  "reserve_low_frame a =
     (case scan_low (bump_next a) (memory_regions a) of
        Ok (Some cand) \<Rightarrow> (Ok (Some cand), take_bump cand 1 a)
      | Ok None \<Rightarrow> (Ok None, a)
      | Err e \<Rightarrow> (Err e, a)
      | Panic \<Rightarrow> (Panic, a))"

primrec scan_span :: "nat \<Rightarrow> nat \<Rightarrow> region list \<Rightarrow> (unit, nat option) res" where
  "scan_span b bytes [] = Ok None"
| "scan_span b bytes (r # rs) =
     (if \<not> r_usable r then scan_span b bytes rs
      else if 2 ^ 64 \<le> r_start r + PAGE then Panic
      else
        (let cand = max (align_up (r_start r)) b in
         if cand \<le> r_end r \<and> bytes \<le> r_end r - cand then Ok (Some cand)
         else scan_span b bytes rs))"

definition allocate_contiguous :: "nat \<Rightarrow> nat option frp" where
  "allocate_contiguous count a =
     (if count = 0 then (Ok None, a)
      else if 2 ^ 64 \<le> count * PAGE then (Ok None, a)
      else
        (case scan_span (bump_next a) (count * PAGE) (memory_regions a) of
           Ok (Some cand) \<Rightarrow> (Ok (Some cand), take_bump cand count a)
         | Ok None \<Rightarrow> (Ok None, a\<lparr>oom := oom a + 1\<rparr>)
         | Err e \<Rightarrow> (Err e, a)
         | Panic \<Rightarrow> (Panic, a)))"

definition deallocate_frame :: "nat \<Rightarrow> unit frp" where
  "deallocate_frame addr =
     bindP (\<lambda>a. phys_write addr (free_head a) a) (\<lambda>_ a.
       if used a = 0 then (Panic, a\<lparr>free_head := addr\<rparr>)
       else (Ok (), a\<lparr>free_head := addr, used := used a - 1, freed := freed a + 1\<rparr>))"

section \<open>Ownership as a step relation\<close>

text \<open>
  The allocator together with its clients: \<open>owned\<close> are the single frames handed out and not yet
  freed, \<open>pinned\<close> the frames that are never given back (the low frame and the contiguous spans).
  Owners may write anything into their frames.
\<close>

record mem_sys =
  alloc :: falloc
  owned :: "nat set"
  pinned :: "nat set"

definition span :: "nat \<Rightarrow> nat \<Rightarrow> nat set" where
  "span cand count = (\<lambda>i. cand + i * PAGE) ` {..<count}"

inductive mem_step :: "mem_sys \<Rightarrow> mem_sys \<Rightarrow> bool" where
  ms_alloc: "allocate_frame (alloc m) = (Ok (Some f), a') \<Longrightarrow>
     mem_step m (m\<lparr>alloc := a', owned := insert f (owned m)\<rparr>)"
| ms_oom: "allocate_frame (alloc m) = (Ok None, a') \<Longrightarrow>
     mem_step m (m\<lparr>alloc := a'\<rparr>)"
| ms_low: "reserve_low_frame (alloc m) = (Ok (Some f), a') \<Longrightarrow>
     mem_step m (m\<lparr>alloc := a', pinned := insert f (pinned m)\<rparr>)"
| ms_span: "allocate_contiguous n (alloc m) = (Ok (Some f), a') \<Longrightarrow>
     mem_step m (m\<lparr>alloc := a', pinned := span f n \<union> pinned m\<rparr>)"
| ms_free: "\<lbrakk>f \<in> owned m; deallocate_frame f (alloc m) = (Ok (), a')\<rbrakk> \<Longrightarrow>
     mem_step m (m\<lparr>alloc := a', owned := owned m - {f}\<rparr>)"
| ms_write: "f \<in> owned m \<union> pinned m \<Longrightarrow>
     mem_step m (m\<lparr>alloc := (alloc m)\<lparr>phys := (phys (alloc m))(f := v)\<rparr>\<rparr>)"

inductive_cases mem_stepE: "mem_step m m'"

inductive mem_reach :: "mem_sys \<Rightarrow> mem_sys \<Rightarrow> bool" where
  mr_refl: "mem_reach m m"
| mr_step: "\<lbrakk>mem_reach m m'; mem_step m' m''\<rbrakk> \<Longrightarrow> mem_reach m m''"

definition mem_start :: "nat \<Rightarrow> (nat \<Rightarrow> nat) \<Rightarrow> region list \<Rightarrow> mem_sys" where
  "mem_start off mem rs = \<lparr>alloc = frames_init off mem rs, owned = {}, pinned = {}\<rparr>"

section \<open>The invariant\<close>

text \<open>\<open>free_list mem h fs\<close>: the frames \<open>fs\<close> are linked from \<open>h\<close> through their first words, ended by 0.\<close>

primrec free_list :: "(nat \<Rightarrow> nat) \<Rightarrow> nat \<Rightarrow> nat list \<Rightarrow> bool" where
  "free_list mem h [] \<longleftrightarrow> h = 0"
| "free_list mem h (f # fs) \<longleftrightarrow> h = f \<and> f \<noteq> 0 \<and> free_list mem (mem f) fs"

lemma free_list_upd [simp]: "f \<notin> set fs \<Longrightarrow> free_list (mem(f := v)) h fs = free_list mem h fs"
  by (induction fs arbitrary: h) auto

lemma free_list_Nil: "free_list mem 0 fs \<longleftrightarrow> fs = []"
  by (cases fs) auto

text \<open>A frame the allocator may hand out: page aligned, inside a usable region, below the cursor.\<close>

definition usable_frame :: "region list \<Rightarrow> nat \<Rightarrow> bool" where
  "usable_frame rs f \<longleftrightarrow> PAGE dvd f \<and> (\<exists>r \<in> set rs. r_usable r \<and> r_start r \<le> f \<and> f + PAGE \<le> r_end r)"

definition linked :: "mem_sys \<Rightarrow> nat list \<Rightarrow> bool" where
  "linked m fs \<longleftrightarrow> free_list (phys (alloc m)) (free_head (alloc m)) fs \<and> distinct fs \<and>
     set fs \<inter> (owned m \<union> pinned m) = {} \<and>
     (\<forall>f \<in> set fs \<union> owned m \<union> pinned m.
        usable_frame (memory_regions (alloc m)) f \<and> f + PAGE \<le> bump_next (alloc m))"

definition mem_inv :: "mem_sys \<Rightarrow> bool" where
  "mem_inv m \<longleftrightarrow> PAGE dvd bump_next (alloc m) \<and> PHYS_OFFSET (alloc m) \<noteq> 0 \<and>
     owned m \<inter> pinned m = {} \<and> finite (owned m) \<and> finite (pinned m) \<and>
     used (alloc m) = card (owned m) + card (pinned m) \<and>
     (\<exists>fs. linked m fs)"

lemma align_up_dvd [simp]: "PAGE dvd align_up x"
  by (simp add: align_up_def)

lemma align_up_ge: "x \<le> align_up x"
proof -
  have "x + 4095 < (x + 4095) div 4096 * 4096 + 4096"
    using div_mult_mod_eq [of "x + 4095" 4096] mod_less_divisor [of 4096 "x + 4095"] by linarith
  then show ?thesis by (simp add: align_up_def PAGE_def)
qed

lemma max_dvd: "\<lbrakk>k dvd a; k dvd b\<rbrakk> \<Longrightarrow> k dvd max a (b :: nat)"
  by (simp add: max_def)

lemma scan_frame_Some:
  "\<lbrakk>scan_frame b rs = Ok (Some c); PAGE dvd b\<rbrakk> \<Longrightarrow> PAGE dvd c \<and> b \<le> c \<and> usable_frame rs c"
proof (induction rs)
  case (Cons r rs)
  show ?case
  proof (cases "r_usable r \<and> max (align_up (r_start r)) b + PAGE \<le> r_end r")
    case True
    then have "c = max (align_up (r_start r)) b" using Cons.prems(1) by (auto simp: Let_def split: if_splits)
    moreover have "r_start r \<le> max (align_up (r_start r)) b" using align_up_ge [of "r_start r"] by simp
    ultimately show ?thesis using True Cons.prems(2) by (auto simp: usable_frame_def intro: max_dvd)
  next
    case False
    then have "scan_frame b rs = Ok (Some c)" using Cons.prems(1) by (auto simp: Let_def split: if_splits)
    then show ?thesis using Cons by (auto simp: usable_frame_def)
  qed
qed simp

lemma scan_low_Some:
  "scan_low b rs = Ok (Some c) \<Longrightarrow> PAGE dvd c \<and> b \<le> c \<and> usable_frame rs c \<and> c \<noteq> 0 \<and> c + PAGE \<le> 0x100000"
proof (induction rs)
  case (Cons r rs)
  let ?c = "max (align_up (max (r_start r) 0x1000)) (align_up b)"
  show ?case
  proof (cases "r_usable r \<and> ?c + PAGE \<le> r_end r \<and> ?c + PAGE \<le> 0x100000")
    case True
    then have "c = ?c" using Cons.prems(1) by (auto simp: Let_def split: if_splits)
    moreover have "r_start r \<le> ?c" "b \<le> ?c" "0x1000 \<le> ?c"
      using align_up_ge [of "max (r_start r) 0x1000"] align_up_ge [of b] by (simp_all add: max_def split: if_splits)
    ultimately show ?thesis using True by (auto simp: usable_frame_def intro: max_dvd)
  next
    case False
    then have "scan_low b rs = Ok (Some c)" using Cons.prems(1) by (auto simp: Let_def split: if_splits)
    then show ?thesis using Cons by (auto simp: usable_frame_def)
  qed
qed simp

lemma scan_span_Some:
  "\<lbrakk>scan_span b (n * PAGE) rs = Ok (Some c); PAGE dvd b\<rbrakk> \<Longrightarrow>
   PAGE dvd c \<and> b \<le> c \<and> (\<forall>i < n. usable_frame rs (c + i * PAGE))"
proof (induction rs)
  case (Cons r rs)
  let ?c = "max (align_up (r_start r)) b"
  show ?case
  proof (cases "r_usable r \<and> ?c \<le> r_end r \<and> n * PAGE \<le> r_end r - ?c")
    case True
    then have c: "c = ?c" using Cons.prems(1) by (auto simp: Let_def split: if_splits)
    have "r_start r \<le> ?c" using align_up_ge [of "r_start r"] by simp
    moreover have d: "PAGE dvd ?c" using Cons.prems(2) by (intro max_dvd) simp_all
    moreover have "?c + i * PAGE + PAGE \<le> r_end r" if "i < n" for i
      using block_span [OF that, of PAGE "r_end r - ?c"] True by linarith
    ultimately show ?thesis using True c by (auto simp: usable_frame_def)
  next
    case False
    then have "scan_span b (n * PAGE) rs = Ok (Some c)" using Cons.prems(1) by (auto simp: Let_def split: if_splits)
    then show ?thesis using Cons by (auto simp: usable_frame_def)
  qed
qed simp

lemma span_facts:
  "finite (span c n)" "card (span c n) = n" "f \<in> span c n \<Longrightarrow> c \<le> f \<and> f + PAGE \<le> c + n * PAGE"
proof -
  show "finite (span c n)" by (simp add: span_def)
  have "inj_on (\<lambda>i. c + i * PAGE) {..<n}" by (auto simp: inj_on_def PAGE_def)
  then show "card (span c n) = n" by (simp add: span_def card_image)
  show "c \<le> f \<and> f + PAGE \<le> c + n * PAGE" if "f \<in> span c n"
  proof -
    obtain i where "i < n" "f = c + i * PAGE" using \<open>f \<in> span c n\<close> by (auto simp: span_def)
    then show ?thesis using block_span [of i n PAGE "n * PAGE"] by simp
  qed
qed

text \<open>Taking \<open>n\<close> fresh frames at or above the cursor, as single frame or as pinned span.\<close>

lemma mem_inv_bump:
  assumes inv: "mem_inv m" and c: "bump_next (alloc m) \<le> c" "PAGE dvd c"
    and u: "\<forall>i < n. usable_frame (memory_regions (alloc m)) (c + i * PAGE)"
  shows "span c n \<inter> (owned m \<union> pinned m) = {}"
    and "mem_inv (m\<lparr>alloc := take_bump c n (alloc m), pinned := span c n \<union> pinned m\<rparr>)"
    and "n = 1 \<Longrightarrow> mem_inv (m\<lparr>alloc := take_bump c 1 (alloc m), owned := insert c (owned m)\<rparr>)"
proof -
  let ?rs = "memory_regions (alloc m)" and ?b = "bump_next (alloc m)"
  obtain fs where l: "linked m fs" using inv by (auto simp: mem_inv_def)
  then have fs: "free_list (phys (alloc m)) (free_head (alloc m)) fs" "distinct fs"
    "set fs \<inter> (owned m \<union> pinned m) = {}"
    "\<And>f. f \<in> set fs \<union> owned m \<union> pinned m \<Longrightarrow> usable_frame ?rs f \<and> f + PAGE \<le> ?b"
    unfolding linked_def by blast+
  have new: "f \<notin> span c n" if "f \<in> set fs \<union> owned m \<union> pinned m" for f
    using fs(4) [OF that] span_facts(3) [of f c n] c(1) by (auto simp: PAGE_def)
  then show dis: "span c n \<inter> (owned m \<union> pinned m) = {}" by blast
  have up: "usable_frame ?rs f \<and> f + PAGE \<le> c + n * PAGE" if "f \<in> set fs \<union> owned m \<union> (span c n \<union> pinned m)" for f
    using that fs(4) [of f] span_facts(3) [of f c n] u c(1) by (auto simp: span_def)
  have fin: "finite (owned m)" "finite (pinned m)" "PHYS_OFFSET (alloc m) \<noteq> 0" "owned m \<inter> pinned m = {}"
    "used (alloc m) = card (owned m) + card (pinned m)" using inv by (auto simp: mem_inv_def)
  have card: "card (span c n \<union> pinned m) = n + card (pinned m)"
    using fin(2) span_facts(1,2) [of c n] dis by (subst card_Un_disjoint) auto
  show "mem_inv (m\<lparr>alloc := take_bump c n (alloc m), pinned := span c n \<union> pinned m\<rparr>)"
    unfolding mem_inv_def take_bump_def linked_def
    using fs(1-3) new up c(2) fin card dis span_facts(1) [of c n]
    by (auto intro!: exI [of _ fs])
  show "mem_inv (m\<lparr>alloc := take_bump c 1 (alloc m), owned := insert c (owned m)\<rparr>)" if "n = 1"
  proof -
    have "span c n = {c}" using that by (auto simp: span_def)
    then show ?thesis
      unfolding mem_inv_def take_bump_def linked_def
      using fs(1-3) new up c(2) fin dis that
      by (auto intro!: exI [of _ fs])
  qed
qed

lemma allocate_frame_cases:
  assumes "allocate_frame a = (Ok r, a')"
  obtains (free) "free_head a \<noteq> 0" "PHYS_OFFSET a \<noteq> 0" "r = Some (free_head a)"
      "a' = a\<lparr>free_head := phys a (free_head a), used := used a + 1\<rparr>"
    | (bump) c where "free_head a = 0" "r = Some c" "scan_frame (bump_next a) (memory_regions a) = Ok (Some c)"
      "a' = take_bump c 1 a"
    | (oom) "free_head a = 0" "r = None" "scan_frame (bump_next a) (memory_regions a) = Ok None"
      "a' = a\<lparr>oom := oom a + 1\<rparr>"
  using assms
  by (auto simp: allocate_frame_def bindP_def phys_read_def split: if_splits res.splits option.splits)

lemma mem_inv_step:
  assumes "mem_inv m" "mem_step m m'"
  shows "mem_inv m'"
  using assms(2)
proof (cases rule: mem_step.cases)
  case (ms_alloc f a')
  from ms_alloc(2) show ?thesis
  proof (cases rule: allocate_frame_cases)
    case free
    obtain fs where fs: "linked m fs" using assms(1) by (auto simp: mem_inv_def)
    obtain gs where gs: "fs = free_head (alloc m) # gs" using fs free(1) by (cases fs) (auto simp: linked_def)
    have "linked m' gs" using fs gs free ms_alloc(1) by (auto simp: linked_def)
    moreover have "free_head (alloc m) \<notin> owned m \<union> pinned m" using fs gs by (auto simp: linked_def)
    ultimately show ?thesis
      using assms(1) free ms_alloc(1) by (auto simp: mem_inv_def)
  next
    case (bump c)
    then show ?thesis
      using mem_inv_bump(3) [OF assms(1), of c 1] scan_frame_Some [OF bump(3)] assms(1) ms_alloc
      by (auto simp: mem_inv_def [of m])
  qed simp
next
  case (ms_oom a')
  from ms_oom(2) show ?thesis
    by (cases rule: allocate_frame_cases) (use ms_oom(1) assms(1) in \<open>auto simp: mem_inv_def linked_def\<close>)
next
  case (ms_low f a')
  have s: "scan_low (bump_next (alloc m)) (memory_regions (alloc m)) = Ok (Some f)" "a' = take_bump f 1 (alloc m)"
    using ms_low(2) by (auto simp: reserve_low_frame_def split: res.splits option.splits)
  have "span f 1 = {f}" by (auto simp: span_def)
  then show ?thesis
    using mem_inv_bump(2) [OF assms(1), of f 1] scan_low_Some [OF s(1)] s(2) ms_low(1) by simp
next
  case (ms_span n f a')
  have s: "scan_span (bump_next (alloc m)) (n * PAGE) (memory_regions (alloc m)) = Ok (Some f)"
    "a' = take_bump f n (alloc m)"
    using ms_span(2) by (auto simp: allocate_contiguous_def split: res.splits option.splits if_splits)
  show ?thesis
    using mem_inv_bump(2) [OF assms(1), of f n] scan_span_Some [OF s(1)] s(2) ms_span(1) assms(1)
    by (simp add: mem_inv_def [of m])
next
  case (ms_free f a')
  obtain fs where fs: "linked m fs" using assms(1) by (auto simp: mem_inv_def)
  have a': "a' = (alloc m)\<lparr>phys := (phys (alloc m))(f := free_head (alloc m)), free_head := f,
      used := used (alloc m) - 1, freed := freed (alloc m) + 1\<rparr>"
    using ms_free(3) by (auto simp: deallocate_frame_def phys_write_def bindP_def split: if_splits)
  have "f \<notin> set fs" "f \<notin> pinned m"
    using fs ms_free(2) assms(1) by (auto simp: linked_def mem_inv_def)
  then have "linked m' (if f = 0 then [] else f # fs)"
    using fs ms_free(1,2) a' by (cases "f = 0") (auto simp: linked_def)
  moreover have "card (owned m - {f}) = card (owned m) - 1" "0 < card (owned m)"
    using ms_free(2) assms(1) by (auto simp: mem_inv_def card_gt_0_iff)
  ultimately show ?thesis
    using assms(1) ms_free(1) a' by (auto simp: mem_inv_def)
next
  case (ms_write f v)
  obtain fs where fs: "linked m fs" using assms(1) by (auto simp: mem_inv_def)
  have "f \<notin> set fs" using fs ms_write(2) by (auto simp: linked_def)
  then have "linked m' fs" using fs ms_write(1) by (simp add: linked_def)
  then show ?thesis using assms(1) ms_write(1) by (auto simp: mem_inv_def)
qed

lemma mem_inv_reach: "mem_reach m m' \<Longrightarrow> mem_inv m \<Longrightarrow> mem_inv m'"
  by (induction rule: mem_reach.induct) (auto intro: mem_inv_step)

lemma mem_inv_start: "off \<noteq> 0 \<Longrightarrow> mem_inv (mem_start off mem rs)"
  by (simp add: mem_inv_def mem_start_def frames_init_def linked_def exI [of _ "[]"])

lemma mem_step_regions: "mem_step m m' \<Longrightarrow> memory_regions (alloc m') = memory_regions (alloc m)"
  by (erule mem_stepE)
    (auto simp: allocate_frame_def reserve_low_frame_def allocate_contiguous_def deallocate_frame_def
      phys_read_def phys_write_def take_bump_def bindP_def split: if_splits res.splits option.splits)

lemma mem_reach_regions: "mem_reach m m' \<Longrightarrow> memory_regions (alloc m') = memory_regions (alloc m)"
  by (induction rule: mem_reach.induct) (auto dest: mem_step_regions)

section \<open>Properties\<close>

text \<open>
  C32. No double allocation. In every state the allocator and its clients can reach from boot, a frame
  that \<open>allocate_frame\<close> returns is page aligned, lies in a usable region, and is neither owned by a
  client nor part of a reserved span, although clients write freely into the frames they own.
\<close>

theorem allocate_frame_fresh:
  assumes "off \<noteq> 0" "mem_reach (mem_start off mem rs) m" "allocate_frame (alloc m) = (Ok (Some f), a')"
  shows "f \<notin> owned m \<union> pinned m \<and> usable_frame rs f \<and> used a' = card (owned m) + card (pinned m) + 1"
proof -
  have inv: "mem_inv m" using mem_inv_reach [OF assms(2) mem_inv_start [OF assms(1)]] .
  have rs: "memory_regions (alloc m) = rs"
    using mem_reach_regions [OF assms(2)] by (simp add: mem_start_def frames_init_def)
  from assms(3) show ?thesis
  proof (cases rule: allocate_frame_cases)
    case free
    obtain fs where fs: "linked m fs" using inv by (auto simp: mem_inv_def)
    then obtain gs where "fs = free_head (alloc m) # gs" using free(1) by (cases fs) (auto simp: linked_def)
    then show ?thesis using fs free inv rs by (auto simp: linked_def mem_inv_def)
  next
    case (bump c)
    have c: "PAGE dvd c" "bump_next (alloc m) \<le> c" "usable_frame rs c"
      using scan_frame_Some [OF bump(3)] inv rs by (auto simp: mem_inv_def)
    have "span c 1 = {c}" by (auto simp: span_def)
    then show ?thesis
      using mem_inv_bump(1) [OF inv c(2,1), of 1] bump c(3) inv rs by (auto simp: take_bump_def mem_inv_def)
  qed simp
qed

definition sample_regions :: "region list" where
  "sample_regions = [\<lparr>r_start = 0x1000, r_end = 0x3000, r_usable = True\<rparr>,
     \<lparr>r_start = 0x10000, r_end = 0x14000, r_usable = True\<rparr>]"

lemma sample_alloc:
  "allocate_frame (alloc (mem_start 1 (\<lambda>_. 0) sample_regions)) =
     (Ok (Some 0x1000), take_bump 0x1000 1 (alloc (mem_start 1 (\<lambda>_. 0) sample_regions)))"
  by (simp add: allocate_frame_def mem_start_def frames_init_def sample_regions_def Let_def align_up_def PAGE_def)

theorem allocate_frame_fresh_witness:
  "let m = mem_start 1 (\<lambda>_. 0) sample_regions in
   0x1000 \<notin> owned m \<union> pinned m \<and> usable_frame sample_regions 0x1000 \<and>
   used (take_bump 0x1000 1 (alloc m)) = card (owned m) + card (pinned m) + 1"
  using allocate_frame_fresh [OF _ mr_refl sample_alloc] unfolding Let_def by blast


lemma sample_span:
  "allocate_contiguous 4 (alloc (mem_start 1 (\<lambda>_. 0) sample_regions)) =
     (Ok (Some 0x10000), take_bump 0x10000 4 (alloc (mem_start 1 (\<lambda>_. 0) sample_regions)))"
  by (simp add: allocate_contiguous_def mem_start_def frames_init_def sample_regions_def Let_def align_up_def PAGE_def)




text \<open>
  A contiguous allocation strands memory: after a span is taken from a later region, the frames
  of the earlier regions are never handed out again. Here two of six frames are still unused, and
  the next allocation reports out of memory.
\<close>

theorem contiguous_strands_frames:
  "\<exists>a1 a2. allocate_contiguous 4 (frames_init 1 (\<lambda>_. 0) sample_regions) = (Ok (Some 0x10000), a1) \<and>
    used a1 = 4 \<and> total_frames a1 = 6 \<and> allocate_frame a1 = (Ok None, a2)"
  by (simp add: allocate_contiguous_def frames_init_def sample_regions_def Let_def align_up_def PAGE_def
    take_bump_def allocate_frame_def)

end
