(* ===== verification/Vfs.thy ===== *)
theory Vfs
  imports Blkcache
begin

text \<open>
  The virtual file system: \<open>kernel/src/vfs.rs\<close>. A file system behind the \<open>FileSystem\<close> trait is a
  record of its operations, programs over the block device; the mount table is the list behind the
  static \<open>MOUNTS\<close>, and the disk is absent when none was probed. Paths are byte strings, as the
  lengths the code checks are byte lengths. The lemmas show that \<open>split_path\<close> and the printing of
  components are inverse to each other, that a mount is picked by the longest matching prefix, and
  that every operation is dispatched to the picked mount.
\<close>

section \<open>Definitions\<close>

datatype fs_error = NotFound | Exists | NotSupported | NoSpace | BadFs | Io ata_error | IsDir

record file_stat =
  st_size :: nat
  st_is_dir :: bool
  st_atime :: nat
  st_mtime :: nat
  st_ctime :: nat

record dir_entry =
  de_name :: string
  de_size :: nat
  de_is_dir :: bool

type_synonym 'a fsp = "(blk, fs_error, 'a) prog"

text \<open>The trait, one field per method; \<open>read_at\<close> returns the count and the filled buffer.\<close>

record filesystem =
  fs_list :: "string \<Rightarrow> dir_entry list fsp"
  fs_open :: "string \<Rightarrow> unit fsp"
  fs_read_at :: "string \<Rightarrow> nat \<Rightarrow> bytes \<Rightarrow> (nat \<times> bytes) fsp"
  fs_write_at :: "string \<Rightarrow> nat \<Rightarrow> bytes \<Rightarrow> nat fsp"
  fs_mkdir :: "string \<Rightarrow> unit fsp"
  fs_stat :: "string \<Rightarrow> file_stat fsp"
  fs_fsync :: "string \<Rightarrow> unit fsp"
  fs_unlink :: "string \<Rightarrow> unit fsp"
  fs_rename :: "string \<Rightarrow> string \<Rightarrow> unit fsp"

text \<open>\<open>str::split\<close> on one character: the pieces between its occurrences, empty ones included.\<close>

fun split_on :: "char \<Rightarrow> string \<Rightarrow> string list" where
  "split_on c [] = [[]]"
| "split_on c (x # xs) =
     (if x = c then [] # split_on c xs
      else (case split_on c xs of [] \<Rightarrow> [[x]] | y # ys \<Rightarrow> (x # y) # ys))"

text \<open>The loop of \<open>split_path\<close>, with its early return.\<close>

fun keep_components :: "string list \<Rightarrow> string list option" where
  "keep_components [] = Some []"
| "keep_components (x # cs) =
     (if x = [] then keep_components cs
      else if x = ''.'' \<or> x = ''..'' \<or> 255 < length x then None
      else map_option ((#) x) (keep_components cs))"

definition split_path :: "string \<Rightarrow> string list option" where
  "split_path path =
     (case path of
        [] \<Rightarrow> None
      | x # rest \<Rightarrow> if x \<noteq> CHR ''/'' \<or> 512 < length path then None
          else keep_components (split_on (CHR ''/'') rest))"

record mount =
  mnt_point :: string
  mnt_label :: string
  mnt_fs :: filesystem

definition strip_prefix :: "string \<Rightarrow> string \<Rightarrow> string option" where
  "strip_prefix p s = (if take (length p) s = p then Some (drop (length p) s) else None)"

definition mount_matches :: "string \<Rightarrow> string \<Rightarrow> bool" where
  "mount_matches point path \<longleftrightarrow>
     (if point = ''/'' then True
      else case strip_prefix point path of
        None \<Rightarrow> False
      | Some rest \<Rightarrow> rest = [] \<or> hd rest = CHR ''/'')"

text \<open>
  \<open>max_by_key\<close> keeps the last of equal maxima; the key is the length of the point and then the
  complement of the index, compared lexicographically.
\<close>

definition mount_key :: "nat \<times> mount \<Rightarrow> nat \<times> nat" where
  "mount_key im = (length (mnt_point (snd im)), 2 ^ 64 - 1 - fst im)"

definition key_le :: "nat \<times> nat \<Rightarrow> nat \<times> nat \<Rightarrow> bool" where
  "key_le a b \<longleftrightarrow> fst a < fst b \<or> fst a = fst b \<and> snd a \<le> snd b"

definition max_by_key :: "('a \<Rightarrow> nat \<times> nat) \<Rightarrow> 'a list \<Rightarrow> 'a option" where
  "max_by_key key xs =
     (case xs of [] \<Rightarrow> None
      | x # rest \<Rightarrow> Some (foldl (\<lambda>best y. if key_le (key best) (key y) then y else best) x rest))"

definition pick_mount :: "mount list \<Rightarrow> string \<Rightarrow> nat option" where
  "pick_mount mounts path =
     map_option fst (max_by_key mount_key
       (filter (\<lambda>im. mount_matches (mnt_point (snd im)) path) (List.enumerate 0 mounts)))"

record vfs =
  MOUNTS :: "mount list"
  DISK :: "blk option"

type_synonym 'a vfsp = "(vfs, fs_error, 'a) prog"

definition with_disk :: "'a fsp \<Rightarrow> 'a vfsp" where
  "with_disk m v =
     (case DISK v of
        None \<Rightarrow> (Err BadFs, v)
      | Some d \<Rightarrow> (case m d of (r, d') \<Rightarrow> (r, v\<lparr>DISK := Some d'\<rparr>)))"

definition with_fs :: "string \<Rightarrow> (filesystem \<Rightarrow> 'a fsp) \<Rightarrow> 'a vfsp" where
  "with_fs path f v =
     (case pick_mount (MOUNTS v) path of
        None \<Rightarrow> (Err BadFs, v)
      | Some i \<Rightarrow> if length (MOUNTS v) \<le> i then (Panic, v) else with_disk (f (mnt_fs (MOUNTS v ! i))) v)"

definition add_mount :: "string \<Rightarrow> filesystem \<Rightarrow> unit vfsp" where
  "add_mount label fs v =
     (Ok (), v\<lparr>MOUNTS := MOUNTS v @ [\<lparr>mnt_point = ''/'', mnt_label = label, mnt_fs = fs\<rparr>]\<rparr>)"

definition mount_secondary :: "filesystem \<Rightarrow> unit vfsp" where
  "mount_secondary fs = add_mount ''ext2'' fs"

definition vfs_list :: "string \<Rightarrow> dir_entry list vfsp" where
  "vfs_list path = with_fs path (\<lambda>fs. fs_list fs path)"

definition vfs_list2 :: "string \<Rightarrow> dir_entry list vfsp" where
  "vfs_list2 path v =
     (case position (\<lambda>m. mnt_label m = ''ext2'') (MOUNTS v) of
        None \<Rightarrow> (Err BadFs, v)
      | Some i \<Rightarrow> with_disk (fs_list (mnt_fs (MOUNTS v ! i)) path) v)"

definition vfs_open :: "string \<Rightarrow> unit vfsp" where
  "vfs_open path = with_fs path (\<lambda>fs. fs_open fs path)"

definition vfs_mkdir :: "string \<Rightarrow> unit vfsp" where
  "vfs_mkdir path = with_fs path (\<lambda>fs. fs_mkdir fs path)"

definition vfs_read_at :: "string \<Rightarrow> nat \<Rightarrow> bytes \<Rightarrow> (nat \<times> bytes) vfsp" where
  "vfs_read_at path off buf = with_fs path (\<lambda>fs. fs_read_at fs path off buf)"

definition vfs_write_at :: "string \<Rightarrow> nat \<Rightarrow> bytes \<Rightarrow> nat vfsp" where
  "vfs_write_at path off buf = with_fs path (\<lambda>fs. fs_write_at fs path off buf)"

definition vfs_stat :: "string \<Rightarrow> file_stat vfsp" where
  "vfs_stat path = with_fs path (\<lambda>fs. fs_stat fs path)"

definition vfs_unlink :: "string \<Rightarrow> unit vfsp" where
  "vfs_unlink path = with_fs path (\<lambda>fs. fs_unlink fs path)"

definition vfs_rename :: "string \<Rightarrow> string \<Rightarrow> unit vfsp" where
  "vfs_rename from to = with_fs from (\<lambda>fs. fs_rename fs from to)"

definition vfs_fsync :: "string \<Rightarrow> unit vfsp" where
  "vfs_fsync path = with_fs path (\<lambda>fs. fs_fsync fs path)"

section \<open>Paths\<close>

text \<open>A component that a path can name, and the canonical spelling of a list of components.\<close>

definition path_component :: "string \<Rightarrow> bool" where
  "path_component c \<longleftrightarrow> c \<noteq> [] \<and> c \<noteq> ''.'' \<and> c \<noteq> ''..'' \<and> length c \<le> 255 \<and> CHR ''/'' \<notin> set c"

definition path_string :: "string list \<Rightarrow> string" where
  "path_string cs = (if cs = [] then ''/'' else concat (map ((#) (CHR ''/'')) cs))"

lemma split_on_not_Nil [simp]: "split_on c s \<noteq> []"
  by (induction s) (auto split: list.splits)

lemma split_on_pieces: "p \<in> set (split_on c s) \<Longrightarrow> c \<notin> set p"
  by (induction s arbitrary: p) (auto split: if_splits list.splits)

lemma split_on_no_sep: "c \<notin> set s \<Longrightarrow> split_on c s = [s]"
  by (induction s) auto

lemma split_on_append: "c \<notin> set p \<Longrightarrow> split_on c (p @ c # s) = p # split_on c s"
  by (induction p) auto

lemma split_on_trailing: "split_on c (s @ [c]) = split_on c s @ [[]]"
  by (induction s) (auto split: list.splits)

lemma keep_components_append:
  "keep_components (xs @ ys) =
     (case keep_components xs of None \<Rightarrow> None | Some a \<Rightarrow> map_option ((@) a) (keep_components ys))"
  by (induction xs rule: keep_components.induct; cases "keep_components ys") (auto split: option.splits)

lemma keep_components_id: "\<forall>c \<in> set cs. path_component c \<Longrightarrow> keep_components cs = Some cs"
  by (induction cs) (auto simp: path_component_def)

lemma keep_components_ok:
  "\<lbrakk>keep_components ps = Some cs; \<forall>p \<in> set ps. CHR ''/'' \<notin> set p\<rbrakk> \<Longrightarrow> \<forall>c \<in> set cs. path_component c"
proof (induction ps arbitrary: cs)
  case (Cons x ds)
  show ?case
  proof (cases "x = []")
    case True
    then show ?thesis using Cons.IH Cons.prems by simp
  next
    case False
    then have x: "\<not> (x = ''.'' \<or> x = ''..'' \<or> 255 < length x)" and
      "map_option ((#) x) (keep_components ds) = Some cs"
      using Cons.prems(1) by (simp_all split: if_splits)
    then obtain es where "keep_components ds = Some es" "cs = x # es" by (auto simp del: keep_components.simps)
    then show ?thesis using Cons.IH [of es] Cons.prems(2) x False by (simp add: path_component_def)
  qed
qed simp

lemma split_on_path_string:
  "\<lbrakk>\<forall>c \<in> set (c1 # cs). CHR ''/'' \<notin> set c\<rbrakk> \<Longrightarrow>
   split_on (CHR ''/'') (c1 @ concat (map ((#) (CHR ''/'')) cs)) = c1 # cs"
  by (induction cs arbitrary: c1) (auto simp: split_on_no_sep split_on_append)

section \<open>The mount table\<close>

lemma key_le_trans: "key_le a b \<Longrightarrow> key_le b c \<Longrightarrow> key_le a c"
  by (auto simp: key_le_def)

lemma key_le_total: "key_le a b \<or> key_le b a"
  by (auto simp: key_le_def)

lemma foldl_max_key:
  assumes "b = foldl (\<lambda>best y. if key_le (key best) (key y) then y else best) x xs"
  shows "b \<in> set (x # xs) \<and> (\<forall>y \<in> set (x # xs). key_le (key y) (key b))"
  using assms
proof (induction xs arbitrary: x)
  case Nil
  then show ?case by (auto simp: key_le_def)
next
  case (Cons y ys)
  let ?z = "if key_le (key x) (key y) then y else x"
  have "b \<in> set (?z # ys)" "\<forall>w \<in> set (?z # ys). key_le (key w) (key b)"
    using Cons.IH [of ?z] Cons.prems by simp_all
  then show ?case using key_le_trans key_le_total [of "key x" "key y"] by (auto split: if_splits)
qed

lemma max_by_key_Some:
  "max_by_key key xs = Some b \<Longrightarrow> b \<in> set xs \<and> (\<forall>y \<in> set xs. key_le (key y) (key b))"
  using foldl_max_key by (fastforce simp: max_by_key_def split: list.splits)

lemma max_by_key_None: "max_by_key key xs = None \<longleftrightarrow> xs = []"
  by (simp add: max_by_key_def split: list.splits)

section \<open>Properties\<close>

text \<open>
  Path syntax round trip: the canonical spelling of any list of components within the length
  limits splits into exactly that list, and whatever \<open>split_path\<close> accepts consists of such components.
\<close>

theorem split_path_roundtrip:
  assumes "\<forall>c \<in> set cs. path_component c" "length (path_string cs) \<le> 512"
  shows "split_path (path_string cs) = Some cs \<and>
    (\<forall>p ds. split_path p = Some ds \<longrightarrow> (\<forall>d \<in> set ds. path_component d))"
proof
  show "split_path (path_string cs) = Some cs"
  proof (cases cs)
    case Nil
    then show ?thesis by (simp add: split_path_def path_string_def)
  next
    case (Cons c ds)
    then show ?thesis
      using assms split_on_path_string [of c ds] keep_components_id [of cs]
      by (auto simp: split_path_def path_string_def path_component_def)
  qed
  show "\<forall>p ds. split_path p = Some ds \<longrightarrow> (\<forall>d \<in> set ds. path_component d)"
    using keep_components_ok split_on_pieces
    by (auto simp: split_path_def split: list.splits if_splits)
qed

theorem split_path_roundtrip_witness:
  "split_path ''/SUBDIR/A.TXT'' = Some [''SUBDIR'', ''A.TXT''] \<and> path_component ''A.TXT''"
  using split_path_roundtrip [of "[''SUBDIR'', ''A.TXT'']"]
  by (simp add: path_component_def path_string_def)

text \<open>
  C26. A path is served by the mount with the longest matching mount point, the earliest one among
  equals; no mount is picked exactly when none matches.
\<close>

theorem pick_mount_longest_prefix:
  assumes "length mounts \<le> 2 ^ 64"
  shows "(pick_mount mounts path = None \<longleftrightarrow> (\<forall>m \<in> set mounts. \<not> mount_matches (mnt_point m) path)) \<and>
    (\<forall>i. pick_mount mounts path = Some i \<longrightarrow>
       i < length mounts \<and> mount_matches (mnt_point (mounts ! i)) path \<and>
       (\<forall>j < length mounts. mount_matches (mnt_point (mounts ! j)) path \<longrightarrow>
          length (mnt_point (mounts ! j)) < length (mnt_point (mounts ! i)) \<or>
          length (mnt_point (mounts ! j)) = length (mnt_point (mounts ! i)) \<and> i \<le> j))"
proof -
  let ?xs = "filter (\<lambda>im. mount_matches (mnt_point (snd im)) path) (List.enumerate 0 mounts)"
  have mem: "(j, m) \<in> set ?xs \<longleftrightarrow> j < length mounts \<and> m = mounts ! j \<and> mount_matches (mnt_point m) path" for j m
    by (auto simp: in_set_enumerate_eq)
  have "?xs = [] \<longleftrightarrow> (\<forall>j m. (j, m) \<notin> set ?xs)" by (simp only: set_empty [symmetric]) auto
  then have "?xs = [] \<longleftrightarrow> (\<forall>m \<in> set mounts. \<not> mount_matches (mnt_point m) path)"
    unfolding mem by (metis in_set_conv_nth)
  then have "pick_mount mounts path = None \<longleftrightarrow> (\<forall>m \<in> set mounts. \<not> mount_matches (mnt_point m) path)"
    by (simp add: pick_mount_def max_by_key_None)
  moreover have "i < length mounts \<and> mount_matches (mnt_point (mounts ! i)) path \<and>
       (\<forall>j < length mounts. mount_matches (mnt_point (mounts ! j)) path \<longrightarrow>
          length (mnt_point (mounts ! j)) < length (mnt_point (mounts ! i)) \<or>
          length (mnt_point (mounts ! j)) = length (mnt_point (mounts ! i)) \<and> i \<le> j)"
    if "pick_mount mounts path = Some i" for i
  proof -
    obtain m where "max_by_key mount_key ?xs = Some (i, m)"
      using \<open>pick_mount mounts path = Some i\<close> by (auto simp: pick_mount_def)
    note b = max_by_key_Some [OF this]
    have i: "i < length mounts" "m = mounts ! i" "mount_matches (mnt_point m) path"
      using b mem [of i m] by auto
    have "key_le (mount_key (j, mounts ! j)) (mount_key (i, m))"
      if "j < length mounts" "mount_matches (mnt_point (mounts ! j)) path" for j
      using b mem [of j "mounts ! j"] that by blast
    then show ?thesis using i assms by (fastforce simp: mount_key_def key_le_def)
  qed
  ultimately show ?thesis by blast
qed

definition null_fs :: filesystem where
  "null_fs = \<lparr>fs_list = (\<lambda>_. errP NotFound), fs_open = (\<lambda>_. errP NotFound), fs_read_at = (\<lambda>_ _ _. errP NotFound),
     fs_write_at = (\<lambda>_ _ _. errP NotFound), fs_mkdir = (\<lambda>_. errP NotFound), fs_stat = (\<lambda>_. errP NotFound),
     fs_fsync = (\<lambda>_. errP NotFound), fs_unlink = (\<lambda>_. errP NotFound), fs_rename = (\<lambda>_ _. errP NotFound)\<rparr>"

definition sample_mounts :: "mount list" where
  "sample_mounts = [\<lparr>mnt_point = ''/'', mnt_label = ''FAT32'', mnt_fs = null_fs\<rparr>,
     \<lparr>mnt_point = ''/'', mnt_label = ''ext2'', mnt_fs = null_fs\<rparr>,
     \<lparr>mnt_point = ''/mnt'', mnt_label = ''usb'', mnt_fs = null_fs\<rparr>]"

theorem pick_mount_longest_prefix_witness: "pick_mount sample_mounts ''/mnt/a'' = Some 2"
proof -
  have m: "length sample_mounts = 3" "length sample_mounts \<le> 2 ^ 64"
    "mount_matches (mnt_point (sample_mounts ! 2)) ''/mnt/a''" "length (mnt_point (sample_mounts ! 2)) = 4"
    "length (mnt_point (sample_mounts ! 0)) = 1" "length (mnt_point (sample_mounts ! 1)) = 1"
    by (simp_all add: sample_mounts_def mount_matches_def strip_prefix_def)
  note t = pick_mount_longest_prefix [OF m(2), of "''/mnt/a''"]
  have "sample_mounts ! 2 \<in> set sample_mounts" using m(1) by simp
  then have "pick_mount sample_mounts ''/mnt/a'' \<noteq> None" using t m(3) by blast
  then obtain i where i: "pick_mount sample_mounts ''/mnt/a'' = Some i" by blast
  note ti = conjunct2 [OF t, rule_format, OF i]
  have i3: "i < 3" using ti m(1) by simp
  have two: "2 < length sample_mounts" using m(1) by simp
  have "4 < length (mnt_point (sample_mounts ! i)) \<or> 4 = length (mnt_point (sample_mounts ! i)) \<and> i \<le> 2"
    using ti two m(3) unfolding m(4) [symmetric] by blast
  then have "length (mnt_point (sample_mounts ! i)) \<noteq> 1" by linarith
  then have "i \<noteq> 0 \<and> i \<noteq> 1" using m(5,6) by metis
  then have "i = 2" using i3 by simp
  then show ?thesis using i by simp
qed

text \<open>The table the boot path builds: the first file system mounted at the root serves every path.\<close>

lemma pick_mount_root:
  assumes "mounts \<noteq> []" "\<forall>m \<in> set mounts. mnt_point m = ''/''" "length mounts \<le> 2 ^ 64"
  shows "pick_mount mounts path = Some 0"
proof -
  let ?xs = "filter (\<lambda>im. mount_matches (mnt_point (snd im)) path) (List.enumerate 0 mounts)"
  have all: "im \<in> set ?xs \<longleftrightarrow> fst im < length mounts \<and> snd im = mounts ! fst im" for im
    using assms(2) by (cases im) (auto simp: in_set_enumerate_eq mount_matches_def)
  then have "(0, mounts ! 0) \<in> set ?xs" using assms(1) by auto
  then obtain b where b: "max_by_key mount_key ?xs = Some b" by (metis max_by_key_None not_None_eq list.set(1) empty_iff)
  have "fst b < length mounts" "key_le (mount_key (0, mounts ! 0)) (mount_key b)"
    using max_by_key_Some [OF b] all [of b] \<open>(0, mounts ! 0) \<in> set ?xs\<close> by blast+
  moreover have "mnt_point (mounts ! 0) = ''/''" "mnt_point (snd b) = ''/''"
    using assms(1,2) max_by_key_Some [OF b] all [of b] by auto
  ultimately have "fst b = 0" using assms(3) by (auto simp: mount_key_def key_le_def)
  then show ?thesis using b by (simp add: pick_mount_def)
qed

lemma with_fs_root:
  assumes "MOUNTS v = \<lparr>mnt_point = ''/'', mnt_label = l, mnt_fs = fs\<rparr> # ms"
    and "\<forall>m \<in> set ms. mnt_point m = ''/''" "length (MOUNTS v) \<le> 2 ^ 64" "DISK v = Some d"
  shows "with_fs p f v = (fst (f fs d), v\<lparr>DISK := Some (snd (f fs d))\<rparr>)"
proof -
  have "pick_mount (MOUNTS v) p = Some 0" using assms by (intro pick_mount_root) auto
  then show ?thesis using assms(1,4) by (simp add: with_fs_def with_disk_def split_beta)
qed

text \<open>
  Dispatch: with every file system mounted at the root and a disk present, an operation on a path
  runs on the first mounted file system and on the disk, and the mount table is unchanged.
\<close>

theorem root_mounts_dispatch_to_first:
  assumes "MOUNTS v = \<lparr>mnt_point = ''/'', mnt_label = l, mnt_fs = fs\<rparr> # ms"
    and "\<forall>m \<in> set ms. mnt_point m = ''/''" "length (MOUNTS v) \<le> 2 ^ 64" "DISK v = Some d"
  shows "vfs_read_at path off buf v =
      (fst (fs_read_at fs path off buf d), v\<lparr>DISK := Some (snd (fs_read_at fs path off buf d))\<rparr>) \<and>
    vfs_write_at path off buf v =
      (fst (fs_write_at fs path off buf d), v\<lparr>DISK := Some (snd (fs_write_at fs path off buf d))\<rparr>) \<and>
    vfs_rename path path' v =
      (fst (fs_rename fs path path' d), v\<lparr>DISK := Some (snd (fs_rename fs path path' d))\<rparr>)"
  by (simp add: vfs_read_at_def vfs_write_at_def vfs_rename_def with_fs_root [OF assms])

theorem root_mounts_dispatch_to_first_witness:
  "let v = \<lparr>MOUNTS = take 2 sample_mounts, DISK = Some sample_blk\<rparr> in
    vfs_read_at ''/A'' 0 [0] v =
      (fst (fs_read_at null_fs ''/A'' 0 [0] sample_blk), v\<lparr>DISK := Some (snd (fs_read_at null_fs ''/A'' 0 [0] sample_blk))\<rparr>) \<and>
    vfs_write_at ''/A'' 0 [0] v =
      (fst (fs_write_at null_fs ''/A'' 0 [0] sample_blk), v\<lparr>DISK := Some (snd (fs_write_at null_fs ''/A'' 0 [0] sample_blk))\<rparr>) \<and>
    vfs_rename ''/A'' ''/B'' v =
      (fst (fs_rename null_fs ''/A'' ''/B'' sample_blk), v\<lparr>DISK := Some (snd (fs_rename null_fs ''/A'' ''/B'' sample_blk))\<rparr>)"
  unfolding Let_def
  by (rule root_mounts_dispatch_to_first [where ms = "[\<lparr>mnt_point = ''/'', mnt_label = ''ext2'', mnt_fs = null_fs\<rparr>]"
    and l = "''FAT32''"]) (simp_all add: sample_mounts_def)

end
