(* ===== verification/Block.thy ===== *)
theory Block
  imports Blkcache
begin

unbundle bit_operations_syntax

text \<open>
  The block layer: \<open>kernel/src/block.rs\<close>. Partition tables are parsed from the bytes of sectors read
  through \<open>Ata\<close> and \<open>Blkcache\<close>; log output is left out, except for the sum it computes, which can
  overflow. Names of GPT partitions are lists of code points. The lemmas bound what a hostile GPT
  header can do, show that the MBR parser inverts the table layout, and relate the bitwise CRC to
  the table-driven one and to the errors it detects.
\<close>

section \<open>Definitions\<close>

definition GPT_ENTRY_MIN :: nat where "GPT_ENTRY_MIN = 128"
definition GPT_ENTRY_MAX :: nat where "GPT_ENTRY_MAX = 4096"
definition GPT_MAX_ENTRIES :: nat where "GPT_MAX_ENTRIES = 4096"
definition GPT_MAX_SECTORS :: nat where "GPT_MAX_SECTORS = 4096"

datatype layout = Mbr | Gpt

record partition =
  start_lba :: nat
  sectors :: nat
  kind :: string
  part_name :: "nat list option"

record disk =
  disk_info :: drive_info
  disk_layout :: layout
  partitions :: "partition list"
  disk_guid :: string

text \<open>Hexadecimal text, two digits for a byte.\<close>

definition hex_digit :: "bool \<Rightarrow> nat \<Rightarrow> char" where
  "hex_digit upper n = (if n < 10 then char_of (48 + n) else char_of ((if upper then 55 else 87) + n))"

definition hex2 :: "bool \<Rightarrow> u8 \<Rightarrow> string" where
  "hex2 upper b = [hex_digit upper (unat b div 16), hex_digit upper (unat b mod 16)]"

definition mbr_type_name :: "u8 \<Rightarrow> string" where
  "mbr_type_name t =
     (let s = (if t = 0x01 then ''FAT12''
        else if t = 0x04 \<or> t = 0x06 \<or> t = 0x0E then ''FAT16''
        else if t = 0x07 then ''NTFS/exFAT''
        else if t = 0x0B then ''FAT32''
        else if t = 0x0C then ''FAT32 (LBA)''
        else if t = 0x20 then ''bootloader (stage-2/kernel)''
        else if t = 0x83 then ''Linux''
        else if t = 0xEE then ''GPT protective''
        else if t = 0xDA then ''non-FS data''
        else ''unknown'')
      in ''type=0x'' @ hex2 False t @ '' ('' @ s @ '')'')"

definition mbr_entry :: "bytes \<Rightarrow> nat \<Rightarrow> bytes" where
  "mbr_entry mbr i = subslice mbr (446 + i * 16) (446 + i * 16 + 16)"

definition mbr_partition :: "bytes \<Rightarrow> partition" where
  "mbr_partition e = \<lparr>start_lba = le_nat (subslice e 8 12), sectors = le_nat (subslice e 12 16),
     kind = mbr_type_name (e ! 4), part_name = None\<rparr>"

definition scan_mbr :: "bytes \<Rightarrow> partition list" where
  "scan_mbr mbr =
     map mbr_partition (filter (\<lambda>e. e ! 4 \<noteq> 0 \<and> e ! 4 \<noteq> 0xEE) (map (mbr_entry mbr) [0..<4]))"

definition validate_gpt_geometry :: "nat \<Rightarrow> nat \<Rightarrow> bool" where
  "validate_gpt_geometry entry_size entry_count \<longleftrightarrow>
     \<not> entry_size < GPT_ENTRY_MIN \<and> \<not> GPT_ENTRY_MAX < entry_size \<and> \<not> GPT_MAX_ENTRIES < entry_count"

definition crc_bit :: "u32 \<Rightarrow> u32" where
  "crc_bit crc = (if crc AND 1 \<noteq> 0 then drop_bit 1 crc XOR 0xEDB88320 else drop_bit 1 crc)"

definition crc_byte :: "u32 \<Rightarrow> u8 \<Rightarrow> u32" where
  "crc_byte crc b = (crc_bit ^^ 8) (crc XOR ucast b)"

definition crc32 :: "bytes \<Rightarrow> u32" where
  "crc32 data = NOT (foldl crc_byte 0xFFFFFFFF data)"

definition fmt_guid :: "bytes \<Rightarrow> string" where
  "fmt_guid b =
     (let h = (\<lambda>i. hex2 True (b ! i)) in
      h 3 @ h 2 @ h 1 @ h 0 @ ''-'' @ h 5 @ h 4 @ ''-'' @ h 7 @ h 6 @ ''-'' @ h 8 @ h 9 @ ''-'' @
      h 10 @ h 11 @ h 12 @ h 13 @ h 14 @ h 15)"

definition guid_kind :: "bytes \<Rightarrow> string" where
  "guid_kind g =
     (let t = fmt_guid g in
      if t = ''C12A7328-F81F-11D2-BA4B-00A0C93EC93B'' then ''EFI System''
      else if t = ''EBD0A0A2-B9E5-4433-87C0-68B6B72699C7'' then ''Microsoft basic data''
      else if t = ''0FC63DAF-8483-4772-8E79-3D69D8477DE4'' then ''Linux filesystem''
      else if t = ''0657FD6D-A4AB-43C4-84E5-0933C84B4F4F'' then ''Linux swap''
      else ''GUID '' @ t)"

text \<open>A UTF-16 unit as a code point; lone surrogates become a question mark.\<close>

definition char_from_u16 :: "nat \<Rightarrow> nat" where
  "char_from_u16 c = (if 0xD800 \<le> c \<and> c < 0xE000 then 63 else c)"

fun gpt_name :: "bytes \<Rightarrow> nat list" where
  "gpt_name (a # b # rest) =
     (let c = le_nat [a, b] in if c = 0 then [] else char_from_u16 c # gpt_name rest)"
| "gpt_name _ = []"

definition saturating_add64 :: "nat \<Rightarrow> nat \<Rightarrow> nat" where
  "saturating_add64 a b = min (a + b) (2 ^ 64 - 1)"

definition gpt_partition :: "bytes \<Rightarrow> partition" where
  "gpt_partition e =
     (let first = le_nat (subslice e 32 40); la = le_nat (subslice e 40 48);
          name = gpt_name (subslice e 56 128)
      in \<lparr>start_lba = first, sectors = saturating_add64 (la - first) 1,
          kind = guid_kind (subslice e 0 16), part_name = (if name = [] then None else Some name)\<rparr>)"

text \<open>The loop over the entries: it stops at the first entry that is not inside the table.\<close>

primrec gpt_entries :: "bytes \<Rightarrow> nat \<Rightarrow> nat list \<Rightarrow> partition list" where
  "gpt_entries table esz [] = []"
| "gpt_entries table esz (i # is) =
     (if length table < i * esz + esz then []
      else
        (let e = subslice table (i * esz) (i * esz + esz) in
         if subslice e 0 16 = replicate 16 0 then gpt_entries table esz is
         else gpt_partition e # gpt_entries table esz is))"

text \<open>Reading the entry array in chunks of at most 255 sectors.\<close>

function read_table :: "nat \<Rightarrow> nat \<Rightarrow> nat \<Rightarrow> bytes \<Rightarrow> bytes blkp" where
  "read_table want lba remaining table s =
     (if remaining = 0 then (Ok table, s)
      else
        (let chunk = min remaining 255; off = (want - remaining) * SECTOR_SIZE in
         bindP (read_sectors lba chunk (subslice table off (off + chunk * SECTOR_SIZE))) (\<lambda>got.
           if 2 ^ 64 \<le> lba + chunk then panicP
           else read_table want (lba + chunk) (remaining - chunk) (put table off got)) s))"
  by pat_completeness auto
termination by (relation "measure (\<lambda>(want, lba, remaining, table, s). remaining)") auto

declare read_table.simps [simp del]

text \<open>Sectors of the entry array that are read.\<close>

definition want_sectors :: "nat \<Rightarrow> nat \<Rightarrow> nat" where
  "want_sectors entry_count entry_size =
     min (div_ceil (min (entry_count * entry_size) (2 ^ 64 - 1)) SECTOR_SIZE) GPT_MAX_SECTORS"

definition scan_gpt :: "bytes \<Rightarrow> (layout \<times> partition list \<times> string) blkp" where
  "scan_gpt lba0 =
     bindP (tryP (read_sectors 1 1 (replicate SECTOR_SIZE 0))) (\<lambda>r.
     case r of
       None \<Rightarrow> retP (Mbr, [], [])
     | Some hdr \<Rightarrow>
         if subslice hdr 0 8 \<noteq> map (\<lambda>c. of_nat (of_char c)) ''EFI PART'' then retP (Mbr, [], [])
         else
           (let entry_lba = le_nat (subslice hdr 72 80);
                entry_count = le_nat (subslice hdr 80 84);
                entry_size = le_nat (subslice hdr 84 88) in
            if \<not> validate_gpt_geometry entry_size entry_count then retP (Gpt, [], [])
            else
              (let want = want_sectors entry_count entry_size in
               bindP (tryP (read_table want entry_lba want (replicate (want * SECTOR_SIZE) 0))) (\<lambda>t.
               case t of
                 None \<Rightarrow> retP (Gpt, [], [])
               | Some table \<Rightarrow>
                   retP (Gpt, gpt_entries table entry_size [0..<entry_count] @ scan_mbr lba0,
                     fmt_guid (subslice hdr 56 72))))))"

section \<open>Bringing the disk up\<close>

text \<open>
  \<open>block::init\<close> after a successful probe. The log line of a partition computes its end, a checked
  addition. The result is the value stored in the static \<open>DISK\<close>, if any.
\<close>

primrec log_partitions :: "partition list \<Rightarrow> unit blkp" where
  "log_partitions [] = retP ()"
| "log_partitions (p # ps) =
     bindP (guardP (start_lba p + sectors p < 2 ^ 64)) (\<lambda>_. log_partitions ps)"

definition read_verify :: "bytes option blkp" where
  "read_verify =
     bindP (tryP (on_dev (read_sectors_raw 0 1 (replicate SECTOR_SIZE 0)))) (\<lambda>ra.
     case ra of
       None \<Rightarrow> retP None
     | Some a \<Rightarrow>
         bindP (tryP (on_dev (read_sectors_raw 0 1 (replicate SECTOR_SIZE 0)))) (\<lambda>rb.
         retP (if rb = Some a then Some a else None)))"

definition write_verify :: "nat \<Rightarrow> bool blkp" where
  "write_verify tot =
     (if tot = 0 then retP False
      else
        bindP (tryP (on_dev (read_sectors_raw (tot - 1) 1 (replicate SECTOR_SIZE 0)))) (\<lambda>rb.
        case rb of
          None \<Rightarrow> retP False
        | Some before \<Rightarrow>
            bindP (tryP (on_dev (write_sectors_raw (tot - 1) 1 before))) (\<lambda>w.
            if w = None then retP False
            else
              bindP (tryP (on_dev (read_sectors_raw (tot - 1) 1 (replicate SECTOR_SIZE 0)))) (\<lambda>ra.
              retP (ra = Some before)))))"

definition block_init :: "disk option blkp" where
  "block_init =
     bindP (tryP (on_dev new_primary_master)) (\<lambda>ri.
     case ri of
       None \<Rightarrow> retP None
     | Some info \<Rightarrow>
         bindP read_verify (\<lambda>ra.
         case ra of
           None \<Rightarrow> retP None
         | Some a \<Rightarrow>
             if a ! 510 \<noteq> 0x55 \<or> a ! 511 \<noteq> 0xAA then retP None
             else
               bindP (if a ! (446 + 4) = 0xEE then scan_gpt a else retP (Mbr, scan_mbr a, [])) (\<lambda>lpg.
               bindP (log_partitions (fst (snd lpg))) (\<lambda>_.
               bindP (write_verify (info_total_sectors info)) (\<lambda>_.
               retP (Some \<lparr>disk_info = info, disk_layout = fst lpg, partitions = fst (snd lpg),
                 disk_guid = snd (snd lpg)\<rparr>))))))"

section \<open>The CRC\<close>

lemma xor_left_cancel: "(a :: 'a::len word) XOR b = a XOR c \<longleftrightarrow> b = c"
proof
  assume "a XOR b = a XOR c"
  then have "a XOR (a XOR b) = a XOR (a XOR c)" by simp
  then show "b = c" by (simp flip: xor.assoc)
qed simp

lemma crc_bit_alt: "crc_bit x = drop_bit 1 x XOR (if bit x 0 then 0xEDB88320 else 0)"
  by (simp add: crc_bit_def and_one_eq bit_0 odd_iff_mod_2_eq_one even_iff_mod_2_eq_zero)

lemma crc_bit_xor: "crc_bit (x XOR y) = crc_bit x XOR crc_bit y"
  by (simp add: crc_bit_alt bit_xor_iff drop_bit_xor ac_simps)

lemma crc_bits_xor: "(crc_bit ^^ n) (x XOR y) = (crc_bit ^^ n) x XOR (crc_bit ^^ n) y"
  by (induction n) (simp_all add: crc_bit_xor)

lemma crc_bit_0: "crc_bit x = 0 \<Longrightarrow> x = 0"
proof -
  assume a: "crc_bit x = 0"
  have "\<not> bit x 0"
  proof
    assume "bit x 0"
    then have "crc_bit x = drop_bit 1 x XOR 0xEDB88320" by (simp add: crc_bit_alt)
    moreover have "\<not> bit (drop_bit 1 x) 31" by (auto simp: bit_drop_bit_eq dest: bit_imp_le_length)
    moreover have "bit (0xEDB88320 :: u32) 31" by simp
    ultimately have "bit (crc_bit x) 31" by (simp only: bit_xor_iff simp_thms)
    then show False using a by simp
  qed
  then have "drop_bit 1 x = 0" using a by (simp add: crc_bit_alt)
  then have "\<not> bit (drop_bit 1 x) n" for n by simp
  then have "\<not> bit x (Suc n)" for n by (simp only: bit_drop_bit_eq comp_apply) simp
  then have "\<not> bit x n" for n using \<open>\<not> bit x 0\<close> by (cases n) auto
  then show "x = 0" by (simp add: bit_eq_iff)
qed

lemma crc_bits_inj: "(crc_bit ^^ n) x = (crc_bit ^^ n) y \<Longrightarrow> x = y"
proof (induction n)
  case (Suc n)
  then have "crc_bit ((crc_bit ^^ n) x XOR (crc_bit ^^ n) y) = 0" by (simp add: crc_bit_xor)
  then have "(crc_bit ^^ n) x XOR (crc_bit ^^ n) y = 0" by (rule crc_bit_0)
  then have "(crc_bit ^^ n) x = (crc_bit ^^ n) y"
    using xor_left_cancel [of "(crc_bit ^^ n) x" "(crc_bit ^^ n) y" "(crc_bit ^^ n) x"] by simp
  then show ?case by (rule Suc.IH)
qed simp

lemma crc_byte_inj: "crc_byte x a = crc_byte y a \<Longrightarrow> x = y"
  unfolding crc_byte_def by (drule crc_bits_inj) (simp add: xor.commute [of _ "ucast a"] xor_left_cancel)

lemma crc_byte_inj_byte: "crc_byte x a = crc_byte x b \<Longrightarrow> a = b"
proof -
  assume "crc_byte x a = crc_byte x b"
  then have eq: "ucast a = (ucast b :: u32)" unfolding crc_byte_def by (drule_tac crc_bits_inj) (simp add: xor_left_cancel)
  show "a = b"
  proof (rule bit_word_eqI)
    fix n assume "n < LENGTH(8)"
    then show "bit a n = bit b n"
      using arg_cong [OF eq, of "\<lambda>w. bit w n"] by (simp add: bit_ucast_iff)
  qed
qed

lemma foldl_crc_inj: "foldl crc_byte x bs = foldl crc_byte y bs \<Longrightarrow> x = y"
  by (induction bs arbitrary: x y) (auto dest: crc_byte_inj)

lemma crc_bits_shift: "\<forall>i < n. \<not> bit y i \<Longrightarrow> (crc_bit ^^ n) y = drop_bit n y"
proof (induction n)
  case (Suc n)
  then have "(crc_bit ^^ n) y = drop_bit n y" "\<not> bit (drop_bit n y) 0" by (simp_all add: bit_drop_bit_eq)
  then show ?case using crc_bit_alt [of "drop_bit n y"] by simp
qed simp

text \<open>The usual table-driven formulation: one table lookup per byte.\<close>

definition crc_table :: "u32 \<Rightarrow> u32" where
  "crc_table i = (crc_bit ^^ 8) i"

definition crc32_table_driven :: "bytes \<Rightarrow> u32" where
  "crc32_table_driven data =
     NOT (foldl (\<lambda>crc b. crc_table ((crc XOR ucast b) AND 0xFF) XOR drop_bit 8 crc) 0xFFFFFFFF data)"

lemma crc_byte_table: "crc_byte crc b = crc_table ((crc XOR ucast b) AND 0xFF) XOR drop_bit 8 crc"
proof -
  define x where "x = crc XOR ucast b"
  define M :: u32 where "M = 0xFF"
  have m: "bit M n \<longleftrightarrow> n < 8" if "n < 32" for n
    using bit_mask_iff [of 8 n, where 'a = u32] that by (simp add: mask_eq_exp_minus_1 M_def)
  have split: "x = (x AND M) XOR (x AND NOT M)"
    by (rule bit_word_eqI) (auto simp: bit_xor_iff bit_and_iff bit_not_iff)
  have "\<forall>i < 8. \<not> bit (x AND NOT M) i" using m by (simp add: bit_and_iff bit_not_iff)
  then have "(crc_bit ^^ 8) (x AND NOT M) = drop_bit 8 (x AND NOT M)" by (rule crc_bits_shift)
  moreover have "drop_bit 8 (x AND NOT M) = drop_bit 8 crc"
  proof (rule bit_word_eqI)
    fix n assume n: "n < LENGTH(32)"
    show "bit (drop_bit 8 (x AND NOT M)) n = bit (drop_bit 8 crc) n"
    proof (cases "n + 8 < 32")
      case True
      then have "\<not> bit (M) (8 + n)" "\<not> bit b (8 + n)"
        using m [of "8 + n"] by (auto dest: bit_imp_le_length)
      then show ?thesis
        using True by (simp add: bit_drop_bit_eq bit_and_iff bit_not_iff bit_xor_iff bit_ucast_iff x_def)
    next
      case False
      then have "\<not> bit w (8 + n)" for w :: u32 by (auto dest: bit_imp_le_length)
      then show ?thesis by (simp only: bit_drop_bit_eq comp_apply)
    qed
  qed
  ultimately have "(crc_bit ^^ 8) x = (crc_bit ^^ 8) (x AND M) XOR drop_bit 8 crc"
    using crc_bits_xor [of 8 "x AND M" "x AND NOT M"] split by simp
  then show ?thesis by (simp add: crc_byte_def crc_table_def x_def M_def)
qed

section \<open>Scanning a GPT\<close>

lemma read_table_spec:
  "\<lbrakk>coherent s; lba + remaining + READ_AHEAD \<le> 2 ^ 64; remaining \<le> want; length table = want * SECTOR_SIZE\<rbrakk> \<Longrightarrow>
   \<exists>r s'. read_table want lba remaining table s = (r, s') \<and> unchanged s s' \<and> r \<noteq> Panic \<and>
     (\<forall>t. r = Ok t \<longrightarrow> length t = length table)"
proof (induction remaining arbitrary: lba table s rule: less_induct)
  case (less remaining)
  show ?case
  proof (cases "remaining = 0")
    case True
    then show ?thesis using less.prems by (subst read_table.simps) simp
  next
    case False
    define chunk where "chunk = min remaining 255"
    define off where "off = (want - remaining) * SECTOR_SIZE"
    have c: "0 < chunk" "chunk \<le> remaining" using False by (auto simp: chunk_def)
    have "off + chunk * SECTOR_SIZE \<le> off + remaining * SECTOR_SIZE" using c(2) by simp
    also have "\<dots> = want * SECTOR_SIZE" using less.prems(3) by (simp add: off_def add_mult_distrib [symmetric])
    finally have fit: "off + chunk * SECTOR_SIZE \<le> length table" using less.prems(4) by simp
    let ?b = "subslice table off (off + chunk * SECTOR_SIZE)"
    obtain r s1 where r: "read_sectors lba chunk ?b s = (r, s1)" "unchanged s s1" "r \<noteq> Panic"
      "\<And>b. r = Ok b \<Longrightarrow> length b = chunk * SECTOR_SIZE"
      using read_sectors_spec [OF less.prems(1) c(1), of ?b lba] less.prems(1,2) c(2) fit
      by (fastforce simp: coherent_def small_disk_def)
    have eq: "read_table want lba remaining table s =
        bindP (read_sectors lba chunk ?b) (\<lambda>got. if 2 ^ 64 \<le> lba + chunk then panicP
           else read_table want (lba + chunk) (remaining - chunk) (put table off got)) s"
      unfolding chunk_def off_def by (subst read_table.simps) (use False in \<open>simp add: Let_def\<close>)
    show ?thesis
    proof (cases r)
      case (Ok got)
      have "length (put table off got) = length table" using r(4) [OF Ok] fit by simp
      then have "\<exists>r2 s2. read_table want (lba + chunk) (remaining - chunk) (put table off got) s1 = (r2, s2) \<and>
          unchanged s1 s2 \<and> r2 \<noteq> Panic \<and> (\<forall>t. r2 = Ok t \<longrightarrow> length t = length table)"
        using less.IH [of "remaining - chunk" s1 "lba + chunk" "put table off got"] less.prems(2,3,4) r(2) c
        by (auto simp: unchanged_def)
      then obtain r2 s2 where r2: "read_table want (lba + chunk) (remaining - chunk) (put table off got) s1 = (r2, s2)"
        "unchanged s1 s2" "r2 \<noteq> Panic" "\<forall>t. r2 = Ok t \<longrightarrow> length t = length table" by blast
      have "read_table want lba remaining table s = (r2, s2)"
        using eq r(1) Ok r2(1) less.prems(2) c by (simp add: READ_AHEAD_def)
      then show ?thesis using r2 unchanged_trans [OF r(2) r2(2)] by blast
    next
      case (Err e)
      then show ?thesis using eq r by simp
    next
      case Panic
      then show ?thesis using r(3) by simp
    qed
  qed
qed

lemma gpt_entries_length: "length (gpt_entries table esz is) \<le> length is"
  by (induction "is") (auto simp: Let_def)

lemma scan_mbr_length: "length (scan_mbr mbr) \<le> 4"
  unfolding scan_mbr_def length_map using length_filter_le [of _ "map (mbr_entry mbr) [0..<4]"]
  by (rule le_trans) simp




definition hostile_header :: bytes where
  "hostile_header = map (\<lambda>c. of_nat (of_char c)) ''EFI PART'' @ replicate 64 0 @ to_le 8 (2 ^ 64 - 1) @
     to_le 4 8 @ to_le 4 128 @ replicate 424 0"

definition hostile_blk :: blk where
  "hostile_blk = \<lparr>dev = sample_drive\<lparr>medium := (\<lambda>l. if l = 1 then bytes_words hostile_header else replicate 256 0)\<rparr>,
     cache = new_cache\<rparr>"

lemma hostile_header_fields:
  "length hostile_header = 512" "subslice hostile_header 0 8 = map (\<lambda>c. of_nat (of_char c)) ''EFI PART''"
  "le_nat (subslice hostile_header 72 80) = 2 ^ 64 - 1" "le_nat (subslice hostile_header 80 84) = 8"
  "le_nat (subslice hostile_header 84 88) = 128"
proof -
  have "subslice hostile_header 72 80 = to_le 8 (2 ^ 64 - 1)" "subslice hostile_header 80 84 = to_le 4 8"
    "subslice hostile_header 84 88 = to_le 4 128"
    by (simp_all add: hostile_header_def subslice_def)
  then show "le_nat (subslice hostile_header 72 80) = 2 ^ 64 - 1" "le_nat (subslice hostile_header 80 84) = 8"
    "le_nat (subslice hostile_header 84 88) = 128" by simp_all
qed (simp_all add: hostile_header_def subslice_def)

text \<open>
  The entry array address is not validated: a GPT header that passes the geometry check but puts
  the array at the last 64-bit sector number makes the scan panic on a healthy drive.
\<close>

theorem scan_gpt_hostile_panics:
  "\<exists>s. coherent s \<and> ready (dev s) \<and> fst (scan_gpt lba0 s) = Panic"
proof -
  let ?z = "replicate SECTOR_SIZE (0 :: u8)"
  have co: "coherent hostile_blk" "ready (dev hostile_blk)"
    using sample_drive_ok hostile_header_fields(1)
    by (auto simp: hostile_blk_def coherent_def small_disk_def ready_def cache_wf_new)
  obtain hdr s1 where r: "read_sectors 1 1 ?z hostile_blk = (Ok hdr, s1)" "unchanged hostile_blk s1"
    "hdr = disk_bytes (medium (dev hostile_blk)) 1 1"
    using read_sectors_spec [OF co(1), of 1 ?z 1] co(2)
    by (auto simp: READ_AHEAD_def hostile_blk_def sample_drive_def)
  have hdr: "hdr = hostile_header"
    using r(3) hostile_header_fields(1) by (simp add: disk_bytes_def hostile_blk_def sector_bytes_bytes_words)
  have s1: "cache_wf (cache s1)" "\<not> contains (2 ^ 64 - 1) (cache s1)"
    using r(2) peek_None_iff [of "cache s1" "2 ^ 64 - 1"]
    by (auto simp: unchanged_def coherent_def same_drive_def hostile_blk_def sample_drive_def) fastforce+
  have "fst (read_table 2 (2 ^ 64 - 1) 2 (replicate (2 * SECTOR_SIZE) 0) s1) = Panic"
    using read_past_u64 [OF s1, of "replicate (2 * SECTOR_SIZE) 0"]
    by (subst read_table.simps) (auto simp: bindP_def split: prod.splits)
  moreover have "want_sectors 8 128 = 2"
    by (simp add: want_sectors_def div_ceil_def SECTOR_SIZE_def GPT_MAX_SECTORS_def)
  ultimately have "fst (scan_gpt lba0 hostile_blk) = Panic"
    using r(1) hdr hostile_header_fields
    by (auto simp: scan_gpt_def bindP_def tryP_def Let_def validate_gpt_geometry_def GPT_ENTRY_MIN_def
      GPT_ENTRY_MAX_def GPT_MAX_ENTRIES_def split: prod.splits)
  then show ?thesis using co by blast
qed

section \<open>The MBR\<close>

text \<open>The image of a partition table of four entries: type byte, start and length at their offsets.\<close>

definition mbr_slot :: "u8 \<times> nat \<times> nat \<Rightarrow> bytes" where
  "mbr_slot p = (case p of (t, st, n) \<Rightarrow> replicate 4 0 @ [t] @ replicate 3 0 @ to_le 4 st @ to_le 4 n)"

definition mbr_image :: "bytes \<Rightarrow> (u8 \<times> nat \<times> nat) list \<Rightarrow> bytes" where
  "mbr_image boot ps = boot @ concat (map mbr_slot ps) @ [0x55, 0xAA]"

lemma mbr_slot_length [simp]: "length (mbr_slot p) = 16"
  by (simp add: mbr_slot_def split: prod.splits)

lemma mbr_entry_image:
  assumes "length boot = 446" "length ps = 4" "i < 4"
  shows "mbr_entry (mbr_image boot ps) i = mbr_slot (ps ! i)"
proof -
  obtain a b c d where ps: "ps = [a, b, c, d]" using assms(2) by (auto simp: numeral_eq_Suc length_Suc_conv)
  have "i = 0 \<or> i = 1 \<or> i = 2 \<or> i = 3" using assms(3) by auto
  then show ?thesis using assms(1) unfolding ps
    by (elim disjE) (simp_all add: mbr_entry_def mbr_image_def subslice_def)
qed

text \<open>
  C29. The MBR parser inverts the table layout: of a table with four slots exactly the used,
  non-protective ones are reported, in order, with their start and length.
\<close>

theorem scan_mbr_inverts_image:
  assumes "length boot = 446" "length ps = 4" "\<forall>(t, st, n) \<in> set ps. st < 2 ^ 32 \<and> n < 2 ^ 32"
  shows "map (\<lambda>p. (start_lba p, sectors p, kind p)) (scan_mbr (mbr_image boot ps)) =
    map (\<lambda>(t, st, n). (st, n, mbr_type_name t)) (filter (\<lambda>(t, st, n). t \<noteq> 0 \<and> t \<noteq> 0xEE) ps)"
proof -
  have slots: "map (mbr_entry (mbr_image boot ps)) [0..<4] = map mbr_slot ps"
    using mbr_entry_image [OF assms(1,2)] assms(2) by (intro nth_equalityI) simp_all
  have ty: "mbr_slot (t, st, n) ! 4 = t" for t st n by (simp add: mbr_slot_def nth_append)
  have part: "start_lba (mbr_partition (mbr_slot (t, st, n))) = st \<and> sectors (mbr_partition (mbr_slot (t, st, n))) = n"
    if "st < 2 ^ 32" "n < 2 ^ 32" for t st n
    using that by (simp add: mbr_partition_def mbr_slot_def subslice_def)
  have fil: "filter (\<lambda>e. e ! 4 \<noteq> 0 \<and> e ! 4 \<noteq> 0xEE) (map mbr_slot ps) =
      map mbr_slot (filter (\<lambda>(t, st, n). t \<noteq> 0 \<and> t \<noteq> 0xEE) ps)"
    unfolding filter_map by (rule arg_cong [of _ _ "map mbr_slot"]) (auto intro!: filter_cong simp: ty)
  show ?thesis
    unfolding scan_mbr_def slots fil
    using assms(3) part by (auto simp: mbr_partition_def ty)
qed

theorem scan_mbr_inverts_image_witness:
  "map (\<lambda>p. (start_lba p, sectors p, kind p)) (scan_mbr (mbr_image (replicate 446 0)
      [(0x20, 1, 2047), (0x0C, 2048, 65536), (0, 0, 0), (0x83, 70000, 9000)])) =
    map (\<lambda>(t, st, n). (st, n, mbr_type_name t)) (filter (\<lambda>(t, st, n). t \<noteq> 0 \<and> t \<noteq> 0xEE)
      [(0x20, 1, 2047), (0x0C, 2048, 65536), (0, 0, 0), (0x83, 70000, 9000)])"
  by (rule scan_mbr_inverts_image) simp_all

end
