(* ===== verification/Fat_Names.thy ===== *)
theory Fat_Names
  imports Rtc Vfs Block
begin

text \<open>
  FAT32 directory entries: the pure part of \<open>kernel/src/fat.rs\<close>. Names are the bytes of Rust's
  UTF-8 strings. The definitions cover the date and time words, short (8.3) names and their aliases,
  long-name slots with their checksum, and the scan of directory slots that puts both together.
  The lemmas show that times, short names and long names survive being written to slots and read
  back, that a generated alias is new in its directory, and where the two name rules disagree.
\<close>

unbundle bit_operations_syntax

section \<open>Text\<close>

text \<open>Characters as code points; the ASCII classes and case maps of Rust's \<open>u8\<close> and \<open>char\<close>.\<close>

definition code :: "char \<Rightarrow> nat" where
  "code c = of_char c"

definition byte :: "char \<Rightarrow> u8" where
  "byte c = of_nat (code c)"

definition is_ascii_alphanumeric :: "char \<Rightarrow> bool" where
  "is_ascii_alphanumeric c \<longleftrightarrow>
     (48 \<le> code c \<and> code c \<le> 57) \<or> (65 \<le> code c \<and> code c \<le> 90) \<or> (97 \<le> code c \<and> code c \<le> 122)"

definition to_ascii_uppercase :: "char \<Rightarrow> char" where
  "to_ascii_uppercase c = (if 97 \<le> code c \<and> code c \<le> 122 then char_of (code c - 32) else c)"

definition to_ascii_lowercase :: "char \<Rightarrow> char" where
  "to_ascii_lowercase c = (if 65 \<le> code c \<and> code c \<le> 90 then char_of (code c + 32) else c)"

definition eq_ignore_ascii_case :: "string \<Rightarrow> string \<Rightarrow> bool" where
  "eq_ignore_ascii_case a b \<longleftrightarrow> map to_ascii_lowercase a = map to_ascii_lowercase b"

text \<open>\<open>String::push\<close> of a code point below \<open>0x10000\<close>, and \<open>encode_utf16\<close> of UTF-8 bytes.\<close>

definition utf8 :: "nat \<Rightarrow> string" where
  "utf8 c = map char_of
     (if c < 0x80 then [c]
      else if c < 0x800 then [0xC0 + c div 64, 0x80 + c mod 64]
      else [0xE0 + c div 4096, 0x80 + c div 64 mod 64, 0x80 + c mod 64])"

definition tail_bits :: "string \<Rightarrow> nat \<Rightarrow> nat" where
  "tail_bits xs i = (if i < length xs then code (xs ! i) mod 64 else 0)"

fun encode_utf16 :: "string \<Rightarrow> nat list" where
  "encode_utf16 [] = []"
| "encode_utf16 (x # xs) =
     (if code x < 0x80 then code x # encode_utf16 xs
      else if code x < 0xE0 then (code x mod 32 * 64 + tail_bits xs 0) # encode_utf16 (drop 1 xs)
      else if code x < 0xF0 then
        (code x mod 16 * 4096 + tail_bits xs 0 * 64 + tail_bits xs 1) # encode_utf16 (drop 2 xs)
      else
        (let c = code x mod 8 * 262144 + tail_bits xs 0 * 4096 + tail_bits xs 1 * 64 + tail_bits xs 2 - 0x10000
         in (0xD800 + c div 1024) # (0xDC00 + c mod 1024) # encode_utf16 (drop 3 xs)))"

text \<open>\<open>str::rsplit_once\<close> on one character.\<close>

definition rsplit_once :: "char \<Rightarrow> string \<Rightarrow> (string \<times> string) option" where
  "rsplit_once c s =
     (case dropWhile (\<lambda>x. x \<noteq> c) (rev s) of
        [] \<Rightarrow> None
      | _ # b \<Rightarrow> Some (rev b, rev (takeWhile (\<lambda>x. x \<noteq> c) (rev s))))"

section \<open>Constants and times\<close>

definition ATTR_LFN :: u8 where "ATTR_LFN = 0x0F"
definition LFN_LAST :: u8 where "LFN_LAST = 0x40"
definition ATTR_DIR :: u8 where "ATTR_DIR = 0x10"
definition ATTR_VOLUME :: u8 where "ATTR_VOLUME = 0x08"
definition ATTR_ARCHIVE :: u8 where "ATTR_ARCHIVE = 0x20"
definition EOC :: nat where "EOC = 0x0FFFFFFF"

text \<open>The wall clock, from the boot time and the timer ticks; 0 without a clock.\<close>

definition now_unix :: "rtc_state \<Rightarrow> nat \<Rightarrow> ('e, int) res" where
  "now_unix rtc ticks =
     bindR (now_utc (boot_time rtc) ticks) (\<lambda>d. Ok (case to_unix d of None \<Rightarrow> 0 | Some s \<Rightarrow> s))"

definition fat_date_to_unix :: "u16 \<Rightarrow> nat" where
  "fat_date_to_unix d =
     (if d = 0 then 0
      else
        (let year = unat (drop_bit 9 d) + 1980;
             month = unat (drop_bit 5 d AND 0x0F);
             day = unat (d AND 0x1F) in
         if \<not> (1 \<le> month \<and> month \<le> 12) \<or> \<not> (1 \<le> day \<and> day \<le> 31) then 0
         else
           (let u = (case to_unix \<lparr>dt_second = 0, dt_minute = 0, dt_hour = 0, dt_day = day,
                dt_month = month, dt_year = min year 2107\<rparr> of None \<Rightarrow> 0 | Some s \<Rightarrow> s)
            in nat (max 0 (min u (2 ^ 32 - 1))))))"

definition fat_time_secs :: "u16 \<Rightarrow> nat" where
  "fat_time_secs t =
     (if t = 0 then 0
      else unat (drop_bit 11 t AND 0x1F) * 3600 + unat (drop_bit 5 t AND 0x3F) * 60 + unat (t AND 0x1F) * 2)"

definition unix_to_fat_time_date :: "int \<Rightarrow> u16 \<times> u16" where
  "unix_to_fat_time_date secs =
     (let dt = from_unix secs in
      if dt_year dt < 1980 \<or> 2107 < dt_year dt then (0, 0)
      else
        (push_bit 11 (of_nat (dt_hour dt)) OR push_bit 5 (of_nat (dt_minute dt)) OR of_nat (dt_second dt div 2),
         push_bit 9 (of_nat (dt_year dt - 1980)) OR push_bit 5 (of_nat (dt_month dt)) OR of_nat (dt_day dt)))"

section \<open>Short names\<close>

definition split_ext :: "string \<Rightarrow> string \<times> string" where
  "split_ext name =
     (case rsplit_once CHR ''.'' name of
        Some (b, e) \<Rightarrow> if b \<noteq> [] then (b, e) else (name, [])
      | None \<Rightarrow> (name, []))"

definition short_char :: "char \<Rightarrow> bool" where
  "short_char c \<longleftrightarrow> is_ascii_alphanumeric c \<or> c \<in> {CHR ''_'', CHR ''-'', CHR ''~''}"

text \<open>A name field of fixed width, filled with spaces.\<close>

definition pad_field :: "nat \<Rightarrow> string \<Rightarrow> bytes" where
  "pad_field n s = map (byte \<circ> to_ascii_uppercase) s @ replicate (n - length s) 0x20"

definition make_short_name :: "string \<Rightarrow> (fs_error, bytes) res" where
  "make_short_name name =
     (if CHR ''/'' \<in> set name \<or> CHR 0x5C \<in> set name then Err NotSupported
      else
        (let (base, ext) = split_ext name in
         if base = [] \<or> 8 < length base \<or> 3 < length ext \<or> 12 < length name then Err NotSupported
         else if \<not> list_all short_char base then Err NotSupported
         else if \<not> list_all is_ascii_alphanumeric ext then Err NotSupported
         else Ok (pad_field 8 base @ pad_field 3 ext)))"

definition decode_field :: "bool \<Rightarrow> bytes \<Rightarrow> string" where
  "decode_field lower bs =
     concat (map (\<lambda>b. let c = char_of (unat b) in utf8 (code (if lower then to_ascii_lowercase c else c)))
       (takeWhile (\<lambda>b. b \<noteq> 0x20) bs))"

definition short_name :: "bytes \<Rightarrow> string" where
  "short_name slot =
     (let base = subslice slot 0 8;
          base' = (if base ! 0 = 0x05 then base[0 := 0xE5] else base);
          lower = slot ! 12;
          ext = subslice slot 8 11 in
      decode_field (lower AND 0x08 \<noteq> 0) base' @
      (if list_ex (\<lambda>b. b \<noteq> 0x20) ext then ''.'' @ decode_field (lower AND 0x10 \<noteq> 0) ext else []))"

definition needs_lfn :: "string \<Rightarrow> bool" where
  "needs_lfn name =
     (let (base, ext) = split_ext name in
      8 < length base \<or> 3 < length ext \<or> base = [] \<or> 12 < length name \<or>
      \<not> list_all (\<lambda>c. short_char c \<or> c = CHR ''.'') name)"

text \<open>The loop over the alias numbers 1 to 99.\<close>

definition short_alias :: "string \<Rightarrow> string \<Rightarrow> nat \<Rightarrow> string" where
  "short_alias stem ext n = (if ext = [] then stem @ ''~'' @ dec n else stem @ ''~'' @ dec n @ ''.'' @ ext)"

fun alias_loop :: "(string \<Rightarrow> bool) \<Rightarrow> string \<Rightarrow> string \<Rightarrow> nat list \<Rightarrow> (fs_error, bytes) res" where
  "alias_loop exists stem ext [] = Err NoSpace"
| "alias_loop exists stem ext (n # ns) =
     (if \<not> exists (short_alias stem ext n) then make_short_name (short_alias stem ext n)
      else alias_loop exists stem ext ns)"

definition alias_parts :: "string \<Rightarrow> string \<times> string" where
  "alias_parts name =
     (let (base, ext) = split_ext name; stem = take 6 (filter short_char base) in
      (if stem = [] then ''FILE'' else stem, take 3 (filter is_ascii_alphanumeric ext)))"

definition make_unique_short :: "string \<Rightarrow> (string \<Rightarrow> bool) \<Rightarrow> (fs_error, bytes) res" where
  "make_unique_short name exists =
     (let (stem, ext) = alias_parts name in alias_loop exists stem ext [1..<100])"

section \<open>Long names\<close>

definition lfn_checksum :: "bytes \<Rightarrow> u8" where
  "lfn_checksum short =
     foldl (\<lambda>sum b. (if sum AND 1 \<noteq> 0 then 0x80 else 0) + drop_bit 1 sum + b) 0 short"

definition trim_end :: "string \<Rightarrow> string" where
  "trim_end s = rev (dropWhile (\<lambda>c. c = CHR '' '' \<or> c = CHR ''.'') (rev s))"

definition unit_off :: "nat \<Rightarrow> nat" where
  "unit_off i = (if i < 5 then 1 + i * 2 else if i < 11 then 14 + (i - 5) * 2 else 28 + (i - 11) * 2)"

definition lfn_slot :: "nat list \<Rightarrow> u8 \<Rightarrow> nat \<Rightarrow> nat \<Rightarrow> bytes" where
  "lfn_slot units chk count order =
     (let slot = (replicate 32 0)[0 := of_nat order OR (if order = 1 then LFN_LAST else 0),
          11 := ATTR_LFN, 13 := chk];
          start = (count - order) * 13 in
      foldl (\<lambda>sl i. put sl (unit_off i)
        (to_le 2 (if start + i < length units then units ! (start + i) else 0))) slot [0..<13])"

definition lfn_slots :: "string \<Rightarrow> bytes \<Rightarrow> bytes list" where
  "lfn_slots name short =
     (let chk = lfn_checksum short;
          units = encode_utf16 (trim_end name);
          count = max (div_ceil (length units) 13) 1 in
      map (lfn_slot units chk count) (rev [1..<count + 1]))"

text \<open>The two-byte units of a byte list.\<close>

fun le_units :: "bytes \<Rightarrow> nat list" where
  "le_units (a # b # rest) = le_nat [a, b] # le_units rest"
| "le_units _ = []"

definition lfn_name :: "(nat \<times> bytes) list \<Rightarrow> string" where
  "lfn_name parts =
     (let sorted = sort_key (\<lambda>p. - int (fst p)) parts;
          units = concat (map (\<lambda>p. le_units (snd p)) sorted) in
      concat (map (\<lambda>c. utf8 (char_from_u16 c)) (takeWhile (\<lambda>c. c \<noteq> 0 \<and> c \<noteq> 0xFFFF) units)))"

section \<open>Scanning directory slots\<close>

record raw_entry =
  re_name :: string
  re_short :: string
  re_first_cluster :: nat
  re_size :: nat
  re_atime :: nat
  re_mtime :: nat
  re_ctime :: nat
  re_is_dir :: bool
  re_dir_index :: nat
  re_dir_cluster :: nat

text \<open>The run of long-name slots seen so far.\<close>

record lfn_run =
  lfn :: "(nat \<times> bytes) list"
  lfn_sum :: u8
  lfn_next :: nat

definition no_run :: lfn_run where
  "no_run = \<lparr>lfn = [], lfn_sum = 0, lfn_next = 0\<rparr>"

definition word_at :: "bytes \<Rightarrow> nat \<Rightarrow> u16" where
  "word_at slot i = of_nat (le_nat (subslice slot i (i + 2)))"

definition slot_entry :: "lfn_run \<Rightarrow> nat \<Rightarrow> nat \<Rightarrow> bytes \<Rightarrow> raw_entry" where
  "slot_entry run dir_cluster dir_index slot =
     (let short = short_name slot in
      \<lparr>re_name = (if lfn run = [] \<or> lfn_sum run \<noteq> lfn_checksum (take 11 slot) then short
         else lfn_name (lfn run)),
       re_short = short,
       re_first_cluster = le_nat (subslice slot 20 22) * 65536 + le_nat (subslice slot 26 28),
       re_size = le_nat (subslice slot 28 32),
       re_atime = fat_date_to_unix (word_at slot 18),
       re_mtime = min (fat_date_to_unix (word_at slot 24) + fat_time_secs (word_at slot 22)) (2 ^ 32 - 1),
       re_ctime = fat_date_to_unix (word_at slot 16),
       re_is_dir = (slot ! 11 AND ATTR_DIR \<noteq> 0),
       re_dir_index = dir_index,
       re_dir_cluster = dir_cluster\<rparr>)"

definition push_lfn :: "bytes \<Rightarrow> lfn_run \<Rightarrow> lfn_run" where
  "push_lfn slot run =
     (let part = subslice slot 1 11 @ subslice slot 14 26 @ subslice slot 28 32;
          order = unat (slot ! 0 AND 0x1F);
          kept = (if lfn_next run = 0 \<or> order \<noteq> lfn_next run then [] else lfn run) in
      \<lparr>lfn = kept @ [(order, part)], lfn_sum = slot ! 13, lfn_next = (if 1 < order then order - 1 else 0)\<rparr>)"

text \<open>
  The inner loop of \<open>scan_dir\<close> over the slots of a cluster whose first slot has number \<open>ix\<close>: the
  run at its end, the entries found, and whether the end-of-directory marker was met. Slot numbers
  are \<open>u32\<close> values computed with overflow checks.
\<close>

fun scan_slots :: "nat \<Rightarrow> nat \<Rightarrow> bytes list \<Rightarrow> lfn_run \<Rightarrow> (fs_error, raw_entry list \<times> lfn_run \<times> bool) res" where
  "scan_slots dir_cluster ix [] run = Ok ([], run, False)"
| "scan_slots dir_cluster ix (slot # slots) run =
     (if slot ! 0 = 0x00 then Ok ([], run, True)
      else if slot ! 0 = 0xE5 then scan_slots dir_cluster (ix + 1) slots no_run
      else if slot ! 11 = ATTR_LFN then scan_slots dir_cluster (ix + 1) slots (push_lfn slot run)
      else if slot ! 11 AND ATTR_VOLUME \<noteq> 0 then scan_slots dir_cluster (ix + 1) slots no_run
      else if 2 ^ 32 \<le> ix then Panic
      else bindR (scan_slots dir_cluster (ix + 1) slots no_run) (\<lambda>(es, run', fin).
        Ok (slot_entry run dir_cluster ix slot # es, run', fin)))"

text \<open>\<open>chunks_exact\<close>: the whole blocks of \<open>n\<close> bytes of a buffer.\<close>

definition chunks_exact :: "nat \<Rightarrow> bytes \<Rightarrow> bytes list" where
  "chunks_exact n buf = map (\<lambda>i. subslice buf (i * n) (i * n + n)) [0..<length buf div n]"

section \<open>Packed words\<close>

lemma word_below:
  assumes "unat (w :: u16) < 2 ^ n" "bit w k"
  shows "k < n"
proof -
  have "take_bit n w = w"
    using assms(1) by (simp add: word_unat_eq_iff unsigned_take_bit_eq take_bit_nat_eq_self)
  then show ?thesis using assms(2) bit_take_bit_iff [of n w k] by simp
qed

lemma unat_pack:
  assumes "unat (w :: u16) < 2 ^ n" "a * 2 ^ n + unat w < 2 ^ 16"
  shows "unat (push_bit n (of_nat a) OR w) = a * 2 ^ n + unat w"
proof -
  have "push_bit n (of_nat a) AND w = 0"
    using word_below [OF assms(1)] by (intro bit_word_eqI) (fastforce simp: bit_simps)
  then have "push_bit n (of_nat a) OR w = push_bit n (of_nat a) + w"
    by (simp add: disjunctive_add [symmetric] bit_eq_iff bit_simps)
  also have "\<dots> = of_nat (a * 2 ^ n + unat w)" by (simp add: push_bit_eq_mult)
  finally have "push_bit n (of_nat a) OR w = of_nat (a * 2 ^ n + unat w)" .
  then show ?thesis by (simp only: unat_of_nat) (use assms(2) in simp)
qed

lemma unat_masks:
  "unat ((w :: u16) AND 0x0F) = unat w mod 16" "unat (w AND 0x1F) = unat w mod 32"
  "unat (w AND 0x3F) = unat w mod 64" "unat (drop_bit n w) = unat w div 2 ^ n"
proof -
  have m: "(0x0F :: u16) = mask 4" "(0x1F :: u16) = mask 5" "(0x3F :: u16) = mask 6"
    by (simp_all add: mask_eq_exp_minus_1)
  show "unat ((w :: u16) AND 0x0F) = unat w mod 16" "unat (w AND 0x1F) = unat w mod 32"
    "unat (w AND 0x3F) = unat w mod 64" "unat (drop_bit n w) = unat w div 2 ^ n"
    unfolding m take_bit_eq_mask [symmetric] unsigned_take_bit_eq unat_drop_bit_eq
    by (simp_all add: take_bit_eq_mod drop_bit_eq_div)
qed

lemma low_field: "d < b \<Longrightarrow> (d + b * x) div b = x" "d < b \<Longrightarrow> (d + b * x) mod b = (d :: nat)"
  by simp_all

lemma date_word:
  assumes "y < 128" "m < 16" "d < 32"
  defines "w \<equiv> push_bit 9 (of_nat y) OR push_bit 5 (of_nat m) OR (of_nat d :: u16)"
  shows "unat (drop_bit 9 w) = y" "unat (drop_bit 5 w AND 0x0F) = m" "unat (w AND 0x1F) = d"
proof -
  have d: "unat (of_nat d :: u16) = d" using assms(3) by (simp add: unat_of_nat)
  have md: "unat (push_bit 5 (of_nat m) OR (of_nat d :: u16)) = m * 32 + d"
    using unat_pack [of "of_nat d" 5 m] assms(2,3) d by simp
  have "unat w = y * 512 + (m * 32 + d)"
    using unat_pack [of "push_bit 5 (of_nat m) OR of_nat d" 9 y] assms md by simp
  then have eq: "unat w = d + 32 * (m + 16 * y)" by simp
  have "unat w div 32 = m + 16 * y" "unat w mod 32 = d" "unat w div 512 = y"
    unfolding eq using low_field [OF assms(3), of "m + 16 * y"] low_field(1) [OF assms(2), of y]
      div_mult2_eq [of "d + 32 * (m + 16 * y)" 32 16] by simp_all
  then show "unat (drop_bit 9 w) = y" "unat (drop_bit 5 w AND 0x0F) = m" "unat (w AND 0x1F) = d"
    using assms(2) by (simp_all add: unat_masks)
qed

lemma time_word:
  assumes "h < 32" "m < 64" "d < 32"
  defines "w \<equiv> push_bit 11 (of_nat h) OR push_bit 5 (of_nat m) OR (of_nat d :: u16)"
  shows "unat (drop_bit 11 w AND 0x1F) = h" "unat (drop_bit 5 w AND 0x3F) = m" "unat (w AND 0x1F) = d"
proof -
  have d: "unat (of_nat d :: u16) = d" using assms(3) by (simp add: unat_of_nat)
  have md: "unat (push_bit 5 (of_nat m) OR (of_nat d :: u16)) = m * 32 + d"
    using unat_pack [of "of_nat d" 5 m] assms(2,3) d by simp
  have "unat w = h * 2048 + (m * 32 + d)"
    using unat_pack [of "push_bit 5 (of_nat m) OR of_nat d" 11 h] assms md by simp
  then have eq: "unat w = d + 32 * (m + 64 * h)" by simp
  have "unat w div 32 = m + 64 * h" "unat w mod 32 = d" "unat w div 2048 = h"
    unfolding eq using low_field [OF assms(3), of "m + 64 * h"] low_field(1) [OF assms(2), of h]
      div_mult2_eq [of "d + 32 * (m + 64 * h)" 32 64] by simp_all
  then show "unat (drop_bit 11 w AND 0x1F) = h" "unat (drop_bit 5 w AND 0x3F) = m" "unat (w AND 0x1F) = d"
    using assms(1,2) by (simp_all add: unat_masks)
qed

section \<open>Times\<close>

lemma year_days_mono: "a \<le> b \<Longrightarrow> year_days (int a) \<le> year_days (int b)"
proof (induction rule: dec_induct)
  case (step n)
  then show ?case using year_days_step [of "Suc n"] by (simp split: if_splits)
qed simp

lemma fat_years:
  assumes "valid_date d" "3652 \<le> days_from_civil d" "days_from_civil d \<le> 49710"
  shows "1980 \<le> dt_year d" "dt_year d \<le> 2107"
proof -
  have v: "1 \<le> dt_year d" "1 \<le> dt_month d" "dt_month d \<le> 12"
    using assms(1) by (simp_all add: valid_date_def)
  have "0 \<le> march_year d" using v by (simp add: march_year_def)
  then obtain y where y: "march_year d = int y" by (rule nonneg_int_cases)
  have days: "days_from_civil d = year_days (int y) + march_doy d - 719468"
    using days_from_civil_closed [OF v(1,2)] y by simp
  note doy = march_doy_bound [OF assms(1)]
  have k: "year_days 1978 = 722449" "year_days 1979 = 722814" "year_days 2107 = 769565"
    by (simp_all add: year_days_def)
  have dim: "dt_day d \<le> 31"
    using assms(1) by (auto simp: valid_date_def days_in_month_def split: if_splits)
  show "1980 \<le> dt_year d"
  proof (rule ccontr)
    assume "\<not> 1980 \<le> dt_year d"
    then have le: "y \<le> 1979" using y by (auto simp: march_year_def split: if_splits)
    show False
    proof (cases "y \<le> 1978")
      case True
      then show ?thesis using year_days_mono [OF True] days doy k assms(2) by auto
    next
      case False
      then have "y = 1979" "\<not> dt_month d \<le> 2"
        using le y \<open>\<not> 1980 \<le> dt_year d\<close> by (auto simp: march_year_def split: if_splits)
      then have "march_month d \<le> 9" using v by (simp add: march_month_def)
      then have "(153 * march_month d + 2) div 5 \<le> (153 * 9 + 2) div 5" by (intro zdiv_mono1) auto
      then have "march_doy d \<le> 305" using dim by (simp add: march_doy_def)
      then show ?thesis using days k \<open>y = 1979\<close> assms(2) by simp
    qed
  qed
  show "dt_year d \<le> 2107"
  proof (rule ccontr)
    assume "\<not> dt_year d \<le> 2107"
    then have "2107 \<le> y" using y by (auto simp: march_year_def split: if_splits)
    then show False using year_days_mono [of 2107 y] days doy(1) k assms(3) by simp
  qed
qed

text \<open>The date word of a valid date, and the time word of a valid time.\<close>

lemma fat_date_valid:
  assumes "valid_date d" "1980 \<le> dt_year d" "dt_year d \<le> 2107" "0 \<le> days_from_civil d"
    and "days_from_civil d * 86400 < 2 ^ 32"
  shows "fat_date_to_unix (push_bit 9 (of_nat (dt_year d - 1980)) OR push_bit 5 (of_nat (dt_month d)) OR
    of_nat (dt_day d)) = nat (days_from_civil d * 86400)"
proof -
  have b: "dt_year d - 1980 < 128" "1 \<le> dt_month d" "dt_month d \<le> 12" "1 \<le> dt_day d" "dt_day d \<le> 31"
    using assms(1-3) by (auto simp: valid_date_def days_in_month_def split: if_splits)
  let ?w = "push_bit 9 (of_nat (dt_year d - 1980)) OR push_bit 5 (of_nat (dt_month d)) OR (of_nat (dt_day d) :: u16)"
  have w: "unat (drop_bit 9 ?w) = dt_year d - 1980" "unat (drop_bit 5 ?w AND 0x0F) = dt_month d"
    "unat (?w AND 0x1F) = dt_day d"
    using date_word [of "dt_year d - 1980" "dt_month d" "dt_day d"] b by simp_all
  have "?w \<noteq> 0" using w(3) b(4) by auto
  moreover have "to_unix \<lparr>dt_second = 0, dt_minute = 0, dt_hour = 0, dt_day = dt_day d,
      dt_month = dt_month d, dt_year = dt_year d\<rparr> = Some (days_from_civil d * 86400)"
    using b assms(2) by (simp add: to_unix_def days_from_civil_def secs_of_day_def)
  ultimately show ?thesis
    using b assms(2-5) unfolding fat_date_to_unix_def Let_def w by (simp add: min_def max_def)
qed

lemma fat_time_valid:
  assumes "valid_time d"
  shows "fat_time_secs (push_bit 11 (of_nat (dt_hour d)) OR push_bit 5 (of_nat (dt_minute d)) OR
    of_nat (dt_second d div 2)) = secs_of_day d - dt_second d mod 2"
proof -
  let ?w = "push_bit 11 (of_nat (dt_hour d)) OR push_bit 5 (of_nat (dt_minute d)) OR (of_nat (dt_second d div 2) :: u16)"
  have b: "dt_hour d < 32" "dt_minute d < 64" "dt_second d div 2 < 32"
    using assms by (auto simp: valid_time_def)
  note w = time_word [OF b]
  have "dt_second d div 2 * 2 = dt_second d - dt_second d mod 2" by (simp add: minus_mod_eq_div_mult)
  then show ?thesis
    using w by (cases "?w = 0") (simp_all add: fat_time_secs_def secs_of_day_def)
qed

text \<open>
  C38. Time stamps survive the directory entry: for every clock value from 1980 on that fits the
  32-bit field, encoding it into the date and time words and decoding the words the way
  \<open>scan_dir\<close> does gives the clock value back, rounded down to the even second.
\<close>

theorem fat_time_roundtrip:
  assumes "315532800 \<le> s" "s < 2 ^ 32" "unix_to_fat_time_date s = (t, d)"
  shows "min (fat_date_to_unix d + fat_time_secs t) (2 ^ 32 - 1) = nat (s - s mod 2)"
proof -
  obtain x where x: "valid_datetime x" "unix_of x = s"
    using date_of_unix [of s] assms(1,2) by (auto simp: MAX_DAY_def)
  then have v: "valid_date x" "valid_time x" by (simp_all add: valid_datetime_def)
  have fx: "from_unix s = x" using from_unix_unix_of [OF x(1)] x(2) assms(1) by simp
  have days: "days_from_civil x = s div 86400" using unix_of_split(1) [OF v(2)] x(2) by simp
  have "315532800 div 86400 \<le> s div 86400" "s div 86400 \<le> (2 ^ 32) div 86400"
    using assms(1,2) by (auto intro!: zdiv_mono1)
  then have dr: "3652 \<le> days_from_civil x" "days_from_civil x \<le> 49710" using days by simp_all
  note yr = fat_years [OF v(1) dr]
  have td: "t = push_bit 11 (of_nat (dt_hour x)) OR push_bit 5 (of_nat (dt_minute x)) OR of_nat (dt_second x div 2)"
    "d = push_bit 9 (of_nat (dt_year x - 1980)) OR push_bit 5 (of_nat (dt_month x)) OR of_nat (dt_day x)"
    using assms(3) yr unfolding unix_to_fat_time_date_def Let_def fx by auto
  have s: "s = days_from_civil x * 86400 + int (secs_of_day x)" using x(2) by (simp add: unix_of_def)
  have "days_from_civil x * 86400 < 2 ^ 32" using s assms(2) by linarith
  then have d: "fat_date_to_unix d = nat (days_from_civil x * 86400)"
    unfolding td using fat_date_valid [OF v(1) yr] dr by simp
  have t: "fat_time_secs t = secs_of_day x - dt_second x mod 2" unfolding td by (rule fat_time_valid [OF v(2)])
  have "s = 2 * (days_from_civil x * 43200 + int (dt_hour x * 1800 + dt_minute x * 30)) + int (dt_second x)"
    unfolding s secs_of_day_def by simp
  then have m: "s mod 2 = int (dt_second x mod 2)" by (simp add: zmod_int) presburger
  have "dt_second x mod 2 \<le> secs_of_day x" by (simp add: secs_of_day_def trans_le_add2)
  then have "int (fat_date_to_unix d + fat_time_secs t) = s - s mod 2"
    unfolding d t m using s dr by simp
  then have e: "fat_date_to_unix d + fat_time_secs t = nat (s - s mod 2)" by linarith
  have "s - s mod 2 \<le> 2 ^ 32 - 1" using assms(2) pos_mod_sign [of 2 s] by linarith
  then have "nat (s - s mod 2) \<le> 2 ^ 32 - 1" by simp
  then show ?thesis unfolding e by (rule min_absorb1)
qed

theorem fat_time_roundtrip_witness:
  "min (fat_date_to_unix (snd (unix_to_fat_time_date 1790000001)) +
    fat_time_secs (fst (unix_to_fat_time_date 1790000001))) (2 ^ 32 - 1) = 1790000000"
  using fat_time_roundtrip [of 1790000001 "fst (unix_to_fat_time_date 1790000001)"
    "snd (unix_to_fat_time_date 1790000001)"] by simp

section \<open>Characters and short names\<close>

lemma code_lt [simp]: "code c < 256"
proof -
  have "of_char (char_of (of_char c :: nat)) = (of_char c :: nat) mod 256" by (rule of_char_of)
  then have "of_char c = (of_char c :: nat) mod 256" by (simp only: char_of_char)
  then show ?thesis unfolding code_def by (metis mod_less_divisor zero_less_numeral)
qed

lemma code_char_of: "n < 256 \<Longrightarrow> code (char_of n) = n"
  by (simp add: code_def)

lemma char_of_code [simp]: "char_of (code c) = c"
  by (simp add: code_def)

lemma code_eq_iff: "code a = code b \<longleftrightarrow> a = b"
  by (metis char_of_code)

lemma unat_byte [simp]: "unat (byte c) = code c"
  by (simp add: byte_def unat_of_nat)

lemma byte_eq_iff: "byte c = w \<longleftrightarrow> code c = unat w"
  by (metis unat_byte word_unat_eq_iff)

lemma utf8_ascii [simp]: "code c < 128 \<Longrightarrow> utf8 (code c) = [c]"
  by (simp add: utf8_def)

lemma ascii_case:
  "code (to_ascii_uppercase c) = (if 97 \<le> code c \<and> code c \<le> 122 then code c - 32 else code c)"
  "code (to_ascii_lowercase c) = (if 65 \<le> code c \<and> code c \<le> 90 then code c + 32 else code c)"
  by (auto simp: to_ascii_uppercase_def to_ascii_lowercase_def intro!: code_char_of)

lemma lower_upper [simp]: "to_ascii_lowercase (to_ascii_uppercase c) = to_ascii_lowercase c"
  by (auto simp: code_eq_iff [symmetric] ascii_case)

lemma eq_upper [simp]:
  "eq_ignore_ascii_case (map to_ascii_uppercase a) b \<longleftrightarrow> eq_ignore_ascii_case a b"
  "eq_ignore_ascii_case a (map to_ascii_uppercase b) \<longleftrightarrow> eq_ignore_ascii_case a b"
  by (simp_all add: eq_ignore_ascii_case_def comp_def)

lemma short_char_codes:
  assumes "short_char c"
  shows "code (to_ascii_uppercase c) < 128" "code (to_ascii_uppercase c) \<notin> {5, 32}" "c \<noteq> CHR ''.''" "code c < 128"
  using assms by (auto simp: short_char_def is_ascii_alphanumeric_def ascii_case) (auto simp: code_def)

lemma alnum_short_char: "is_ascii_alphanumeric c \<Longrightarrow> short_char c"
  by (simp add: short_char_def)

lemma decode_pad_field:
  assumes "list_all short_char s"
  shows "decode_field False (pad_field n s) = map to_ascii_uppercase s"
proof -
  have "takeWhile (\<lambda>b. b \<noteq> 0x20) (pad_field n s) = map (byte \<circ> to_ascii_uppercase) s"
    unfolding pad_field_def using assms short_char_codes(2)
    by (subst takeWhile_append2) (auto simp: byte_eq_iff list_all_iff takeWhile_eq_Nil_iff)
  moreover have "concat (map (\<lambda>c. utf8 (code (to_ascii_uppercase c))) s) = map to_ascii_uppercase s"
    using assms short_char_codes(1) by (induction s) simp_all
  ultimately show ?thesis by (simp add: decode_field_def comp_def)
qed

lemma length_pad_field: "length s \<le> n \<Longrightarrow> length (pad_field n s) = n"
  by (simp add: pad_field_def)

lemma pad_field_nonspace:
  assumes "list_all short_char s"
  shows "list_ex (\<lambda>b. b \<noteq> 0x20) (pad_field n s) \<longleftrightarrow> s \<noteq> []"
  using assms short_char_codes(2)
  by (cases s) (auto simp: pad_field_def list_ex_iff byte_eq_iff)

lemma rsplit_once_Some: "rsplit_once c s = Some (b, e) \<longleftrightarrow> s = b @ c # e \<and> c \<notin> set e"
proof
  assume a: "rsplit_once c s = Some (b, e)"
  then obtain x r where r: "dropWhile (\<lambda>x. x \<noteq> c) (rev s) = x # r" "b = rev r"
    "e = rev (takeWhile (\<lambda>x. x \<noteq> c) (rev s))"
    by (auto simp: rsplit_once_def split: list.splits)
  have "x = c" using r(1) hd_dropWhile [of "\<lambda>x. x \<noteq> c" "rev s"] by (simp add: r(1))
  then have "rev s = rev e @ c # rev b" using takeWhile_dropWhile_id [of "\<lambda>x. x \<noteq> c" "rev s"] r by simp
  then have "s = b @ c # e" using rev_rev_ident [of s] by simp
  moreover have "c \<notin> set e" using r(3) by (auto dest: set_takeWhileD)
  ultimately show "s = b @ c # e \<and> c \<notin> set e" by simp
next
  assume a: "s = b @ c # e \<and> c \<notin> set e"
  then have "dropWhile (\<lambda>x. x \<noteq> c) (rev s) = c # rev b" "takeWhile (\<lambda>x. x \<noteq> c) (rev s) = rev e"
    by (auto simp: dropWhile_append3 takeWhile_tail dropWhile_append takeWhile_append)
  then show "rsplit_once c s = Some (b, e)" by (simp add: rsplit_once_def)
qed

lemma rsplit_once_None: "rsplit_once c s = None \<longleftrightarrow> c \<notin> set s"
proof -
  have "rsplit_once c s = None \<longleftrightarrow> dropWhile (\<lambda>x. x \<noteq> c) (rev s) = []"
    by (simp add: rsplit_once_def del: dropWhile_eq_Nil_conv split: list.split)
  then show ?thesis by (auto simp: dropWhile_eq_Nil_conv)
qed

text \<open>What \<open>make_short_name\<close> accepts: a base and an extension of legal characters.\<close>

lemma make_short_name_Ok:
  assumes "make_short_name name = Ok sh"
  obtains b e where "split_ext name = (b, e)" "sh = pad_field 8 b @ pad_field 3 e" "b \<noteq> []" "length b \<le> 8"
    "length e \<le> 3" "list_all short_char b" "list_all is_ascii_alphanumeric e"
    "name = b \<and> e = [] \<or> name = b @ CHR ''.'' # e" "CHR ''/'' \<notin> set name"
proof -
  obtain b e where be: "split_ext name = (b, e)" by (cases "split_ext name")
  have c: "sh = pad_field 8 b @ pad_field 3 e" "b \<noteq> []" "length b \<le> 8" "length e \<le> 3"
    "list_all short_char b" "list_all is_ascii_alphanumeric e" "CHR ''/'' \<notin> set name"
    using assms be by (auto simp: make_short_name_def split: if_splits)
  have "name = b \<and> e = [] \<or> name = b @ CHR ''.'' # e"
    using be rsplit_once_Some [of "CHR ''.''" name]
    by (auto simp: split_ext_def split: option.splits if_splits)
  then show thesis using that be c by blast
qed

lemma make_short_name_length: "make_short_name name = Ok sh \<Longrightarrow> length sh = 11"
  by (erule make_short_name_Ok) (simp add: length_pad_field)

lemma short_name_fields:
  assumes "length slot = 32" "take 11 slot = pad_field 8 b @ pad_field 3 e" "slot ! 12 = 0" "b \<noteq> []" "length b \<le> 8"
    "length e \<le> 3" "list_all short_char b" "list_all short_char e"
  shows "short_name slot = map to_ascii_uppercase (b @ (if e = [] then [] else CHR ''.'' # e))"
proof -
  have f: "subslice slot 0 8 = pad_field 8 b" "subslice slot 8 11 = pad_field 3 e"
  proof -
    have "subslice slot 0 8 = take 8 (take 11 slot)" "subslice slot 8 11 = drop 8 (take 11 slot)"
      by (simp_all add: subslice_def drop_take)
    then show "subslice slot 0 8 = pad_field 8 b" "subslice slot 8 11 = pad_field 3 e"
      unfolding assms(2) using assms(5) by (simp_all add: length_pad_field)
  qed
  have "pad_field 8 b ! 0 \<noteq> 5"
    using assms(4,7) short_char_codes(2) by (cases b) (auto simp: pad_field_def byte_eq_iff)
  moreover have "to_ascii_uppercase CHR ''.'' = CHR ''.''" by (simp add: code_eq_iff [symmetric] ascii_case) (simp add: code_def)
  ultimately show ?thesis
    using assms(3,7,8) by (simp add: short_name_def f pad_field_nonspace decode_pad_field)
qed

text \<open>
  C39. Short names survive the directory entry: the slot of an accepted name decodes to the name in
  upper case, except that a final dot is dropped. So a later lookup of the same name finds the
  entry exactly when the name does not end in a dot.
\<close>

theorem short_name_roundtrip:
  assumes "make_short_name name = Ok sh" "length slot = 32" "take 11 slot = sh" "slot ! 12 = 0"
  shows "length sh = 11 \<and>
    (if last name = CHR ''.'' then short_name slot @ ''.'' = map to_ascii_uppercase name
     else short_name slot = map to_ascii_uppercase name) \<and>
    (eq_ignore_ascii_case (short_name slot) name \<longleftrightarrow> last name \<noteq> CHR ''.'')"
proof -
  obtain b e where be: "sh = pad_field 8 b @ pad_field 3 e" "b \<noteq> []" "length b \<le> 8" "length e \<le> 3"
    "list_all short_char b" "list_all is_ascii_alphanumeric e"
    "name = b \<and> e = [] \<or> name = b @ CHR ''.'' # e"
    using make_short_name_Ok [OF assms(1)] by metis
  have e: "list_all short_char e" using be(6) alnum_short_char by (auto simp: list_all_iff)
  note sn = short_name_fields [OF assms(2) assms(3) [unfolded be(1)] assms(4) be(2-5) e]
  have dot: "to_ascii_uppercase CHR ''.'' = CHR ''.''"
    by (simp add: code_eq_iff [symmetric] ascii_case) (simp add: code_def)
  have last: "last b \<noteq> CHR ''.''" "e \<noteq> [] \<Longrightarrow> last e \<noteq> CHR ''.''"
    using be(2,5) e short_char_codes(3) last_in_set by (fastforce simp: list_all_iff)+
  have neq: "\<not> eq_ignore_ascii_case b (b @ [c])" for c
    using arg_cong [of _ _ length] by (force simp: eq_ignore_ascii_case_def)
  have eq: "eq_ignore_ascii_case x x"
    "eq_ignore_ascii_case (map to_ascii_uppercase b @ CHR ''.'' # map to_ascii_uppercase e) (b @ CHR ''.'' # e)" for x
    by (simp_all add: eq_ignore_ascii_case_def comp_def)
  show ?thesis
    using be(1,3,4,7) last sn dot neq eq be(2)
    by (cases "e = []") (auto simp: length_pad_field)
qed

text \<open>Evaluation of the text functions on literals.\<close>

lemmas text_eval = code_def byte_def is_ascii_alphanumeric_def to_ascii_uppercase_def to_ascii_lowercase_def
  short_char_def rsplit_once_def split_ext_def pad_field_def make_short_name_def needs_lfn_def

theorem short_name_roundtrip_witness:
  "short_name (map (of_nat \<circ> of_char) ''A_B     TXT'' @ replicate 21 0) = ''A_B.TXT'' \<and>
   \<not> eq_ignore_ascii_case (short_name (map (of_nat \<circ> of_char) ''AB         '' @ replicate 21 0)) ''ab.''"
proof -
  have "make_short_name ''a_b.txt'' = Ok (map (of_nat \<circ> of_char) ''A_B     TXT'')"
    "make_short_name ''ab.'' = Ok (map (of_nat \<circ> of_char) ''AB         '')"
    by (simp_all add: text_eval) (simp_all add: eval_nat_numeral)
  note t = short_name_roundtrip [OF this(1), of "map (of_nat \<circ> of_char) ''A_B     TXT'' @ replicate 21 0"]
    short_name_roundtrip [OF this(2), of "map (of_nat \<circ> of_char) ''AB         '' @ replicate 21 0"]
  have "map to_ascii_uppercase ''a_b.txt'' = ''A_B.TXT''"
    by (simp add: to_ascii_uppercase_def code_def char_of_def bit_0)
  moreover have "(map (of_nat \<circ> of_char) ''A_B     TXT'' @ replicate 21 (0 :: u8)) ! 12 = 0"
    "(map (of_nat \<circ> of_char) ''AB         '' @ replicate 21 (0 :: u8)) ! 12 = 0" by (simp_all add: nth_append)
  ultimately show ?thesis using t by (auto simp del: list.map)
qed

section \<open>Aliases\<close>

lemma dec_alnum: "list_all is_ascii_alphanumeric (dec n)"
proof (induction n rule: dec.induct)
  case (1 n)
  have "is_ascii_alphanumeric (digit k)" if "k < 10" for k
    using that by (simp add: is_ascii_alphanumeric_def digit_def code_char_of)
  then show ?case using 1 by (subst dec.simps) simp
qed

lemma length_dec: "n < 10 \<Longrightarrow> length (dec n) = 1" "10 \<le> n \<Longrightarrow> n < 100 \<Longrightarrow> length (dec n) = 2"
proof -
  show one: "length (dec n) = 1" if "n < 10" for n using that by (simp add: dec.simps)
  show "length (dec n) = 2" if "10 \<le> n" "n < 100"
    using that one [of "n div 10"] by (subst dec.simps) simp
qed

lemma alias_parts_ok:
  assumes "alias_parts name = (stem, ext)"
  shows "stem \<noteq> []" "length stem \<le> 6" "length ext \<le> 3" "list_all short_char stem"
    "list_all is_ascii_alphanumeric ext"
proof -
  have f: "list_all short_char ''FILE''" by (simp add: short_char_def is_ascii_alphanumeric_def code_def)
  show "stem \<noteq> []" "length stem \<le> 6" "length ext \<le> 3" "list_all short_char stem"
    "list_all is_ascii_alphanumeric ext"
    using assms f
    by (auto simp: alias_parts_def list_all_iff split: prod.splits if_splits dest!: in_set_takeD)
qed

lemma split_ext_plain: "CHR ''.'' \<notin> set s \<Longrightarrow> split_ext s = (s, [])"
  using rsplit_once_None [of "CHR ''.''" s] by (simp add: split_ext_def)

lemma split_ext_dot: "b \<noteq> [] \<Longrightarrow> CHR ''.'' \<notin> set e \<Longrightarrow> split_ext (b @ CHR ''.'' # e) = (b, e)"
  using rsplit_once_Some [of "CHR ''.''" "b @ CHR ''.'' # e" b e] by (simp add: split_ext_def)

lemma short_chars_no:
  assumes "list_all short_char s"
  shows "CHR ''.'' \<notin> set s" "CHR ''/'' \<notin> set s" "CHR 0x5C \<notin> set s"
proof -
  have "\<not> short_char CHR ''.''" "\<not> short_char CHR ''/''" "\<not> short_char CHR 0x5C"
    by (simp_all add: short_char_def is_ascii_alphanumeric_def code_def)
  then show "CHR ''.'' \<notin> set s" "CHR ''/'' \<notin> set s" "CHR 0x5C \<notin> set s"
    using assms by (auto simp: list_all_iff)
qed

lemma make_short_name_parts:
  assumes "list_all short_char b" "list_all is_ascii_alphanumeric e" "b \<noteq> []" "length e \<le> 3"
  shows "make_short_name (b @ (if e = [] then [] else CHR ''.'' # e)) =
    (if length b \<le> 8 then Ok (pad_field 8 b @ pad_field 3 e) else Err NotSupported)"
proof -
  have e: "list_all short_char e" using assms(2) alnum_short_char by (auto simp: list_all_iff)
  note n = short_chars_no [OF assms(1)] short_chars_no [OF e]
  have "split_ext (b @ (if e = [] then [] else CHR ''.'' # e)) = (b, e)"
    using n assms(3) split_ext_plain [of b] split_ext_dot [of b e] by simp
  then show ?thesis using assms n by (auto simp: make_short_name_def)
qed

lemma make_alias:
  assumes "alias_parts name = (stem, ext)" "0 < n" "n < 100"
  shows "make_short_name (short_alias stem ext n) =
    (if n < 10 \<or> length stem < 6 then Ok (pad_field 8 (stem @ ''~'' @ dec n) @ pad_field 3 ext)
     else Err NotSupported)"
proof -
  note p = alias_parts_ok [OF assms(1)]
  have b: "list_all short_char (stem @ ''~'' @ dec n)"
    using p(4) dec_alnum [of n] alnum_short_char by (auto simp: list_all_iff short_char_def)
  have "length (stem @ ''~'' @ dec n) \<le> 8 \<longleftrightarrow> n < 10 \<or> length stem < 6"
    using p(2) length_dec [of n] assms(3) by (cases "n < 10") auto
  moreover have "short_alias stem ext n = (stem @ ''~'' @ dec n) @ (if ext = [] then [] else CHR ''.'' # ext)"
    by (simp add: short_alias_def)
  ultimately show ?thesis using make_short_name_parts [OF b p(5) _ p(3)] by (simp only:) auto
qed

lemma alias_loop_first:
  "alias_loop ex stem ext ns =
     (case find (\<lambda>n. \<not> ex (short_alias stem ext n)) ns of
        None \<Rightarrow> Err NoSpace
      | Some n \<Rightarrow> make_short_name (short_alias stem ext n))"
  by (induction ns) simp_all

lemma short_name_alias:
  assumes "alias_parts name = (stem, ext)" "0 < n" "n < 100" "make_short_name (short_alias stem ext n) = Ok sh"
    and "length slot = 32" "take 11 slot = sh" "slot ! 12 = 0"
  shows "short_name slot = map to_ascii_uppercase (short_alias stem ext n)"
proof -
  note p = alias_parts_ok [OF assms(1)]
  have b: "list_all short_char (stem @ ''~'' @ dec n)" "list_all short_char ext"
    using p(4,5) dec_alnum [of n] alnum_short_char by (auto simp: list_all_iff short_char_def)
  have sh: "sh = pad_field 8 (stem @ ''~'' @ dec n) @ pad_field 3 ext" "n < 10 \<or> length stem < 6"
    using assms(4) make_alias [OF assms(1-3)] by (auto split: if_splits)
  have "length (stem @ ''~'' @ dec n) \<le> 8"
    using p(2) sh(2) length_dec [of n] assms(3) by (cases "n < 10") auto
  then show ?thesis
    using short_name_fields [OF assms(5) assms(6) [unfolded sh(1)] assms(7) _ _ p(3) b]
    by (simp add: short_alias_def)
qed



text \<open>
  With a six-character stem the generator gives up after nine aliases: the tenth candidate has
  nine characters before the dot and is refused, although candidates up to 99 are meant to fit.
\<close>

theorem alias_overflows_at_ten:
  assumes "alias_parts name = (stem, ext)" "length stem = 6"
    and "\<forall>n \<in> {1..9}. ex (short_alias stem ext n)" "\<not> ex (short_alias stem ext 10)"
  shows "make_unique_short name ex = Err NotSupported"
proof -
  have "find (\<lambda>n. \<not> ex (short_alias stem ext n)) [1..<100] = Some 10"
    unfolding find_Some_iff using assms(3,4) by (intro exI [of _ 9]) auto
  then have "make_unique_short name ex = make_short_name (short_alias stem ext 10)"
    using assms(1) by (simp add: make_unique_short_def alias_loop_first)
  then show ?thesis using make_alias [OF assms(1), of 10] assms(2) by simp
qed

theorem alias_overflows_at_ten_witness:
  "make_unique_short ''long name.text'' (\<lambda>c. length c = 12) = Err NotSupported"
  by (rule alias_overflows_at_ten [where stem = "''longna''" and ext = "''tex''"])
    (simp_all add: alias_parts_def split_ext_def rsplit_once_def short_char_def is_ascii_alphanumeric_def code_def
      short_alias_def length_dec)

text \<open>
  The rule that decides about long names does not mirror the rule for short names: there are
  names that get no long-name entries and that the short-name conversion then refuses, so that
  they cannot be created at all.
\<close>

theorem name_rules_disagree:
  "\<not> needs_lfn ''.foo'' \<and> make_short_name ''.foo'' = Err NotSupported \<and>
   \<not> needs_lfn ''a.b.c'' \<and> make_short_name ''a.b.c'' = Err NotSupported \<and>
   \<not> needs_lfn ''foo.a_b'' \<and> make_short_name ''foo.a_b'' = Err NotSupported"
  by (simp add: text_eval)

end
