(* ===== verification/Fat_Lfn.thy ===== *)
theory Fat_Lfn
  imports Fat_Names
begin

text \<open>
  Long file names on FAT32: the slots that \<open>lfn_slots\<close> (\<open>kernel/src/fat.rs\<close>) writes in front of a
  short entry are read back by the directory scan as exactly the name they were made from.
\<close>

unbundle bit_operations_syntax

section \<open>Long names\<close>

definition lfn_unit :: "nat list \<Rightarrow> nat \<Rightarrow> nat" where
  "lfn_unit units i = (if i < length units then units ! i else 0)"

lemma lfn_slot_bytes:
  fixes units
  defines "lo \<equiv> \<lambda>i. of_nat (lfn_unit units i)" and "hi \<equiv> \<lambda>i. of_nat (lfn_unit units i div 256)"
  shows "lfn_slot units chk count order =
    (let b = (count - order) * 13 in
     [of_nat order OR (if order = 1 then LFN_LAST else 0),
      lo b, hi b, lo (b + 1), hi (b + 1), lo (b + 2), hi (b + 2), lo (b + 3), hi (b + 3), lo (b + 4), hi (b + 4),
      ATTR_LFN, 0, chk,
      lo (b + 5), hi (b + 5), lo (b + 6), hi (b + 6), lo (b + 7), hi (b + 7), lo (b + 8), hi (b + 8),
      lo (b + 9), hi (b + 9), lo (b + 10), hi (b + 10), 0, 0, lo (b + 11), hi (b + 11), lo (b + 12), hi (b + 12)])"
proof -
  have u: "[0..<13] = [0, 1, 2, 3, 4, 5, 6, 7, 8, 9, 10, 11, 12 :: nat]" by (simp add: upt_rec)
  have r: "replicate 32 (0 :: u8) = [0,0,0,0,0,0,0,0,0,0,0,0,0,0,0,0,0,0,0,0,0,0,0,0,0,0,0,0,0,0,0,0]"
    by (simp add: eval_nat_numeral)
  have l: "to_le 2 x = [of_nat x, of_nat (x div 256)]" for x by (simp add: numeral_2_eq_2)
  show ?thesis
    unfolding lfn_slot_def u r lfn_unit_def [symmetric] lo_def hi_def Let_def
    by (simp add: unit_off_def put_def l)
qed

definition lfn_part :: "nat list \<Rightarrow> nat \<Rightarrow> nat \<Rightarrow> bytes" where
  "lfn_part units count order =
     concat (map (\<lambda>i. to_le 2 (lfn_unit units ((count - order) * 13 + i))) [0..<13])"

lemma lfn_slot_facts:
  fixes units :: "nat list" and chk :: u8 and count :: nat
  assumes "0 < order" "order < 32"
  defines "slot \<equiv> lfn_slot units chk count order"
  shows "length slot = 32" "slot ! 0 \<noteq> 0" "slot ! 0 \<noteq> 0xE5" "slot ! 11 = ATTR_LFN" "slot ! 13 = chk"
    and "unat (slot ! 0 AND 0x1F) = order"
    and "subslice slot 1 11 @ subslice slot 14 26 @ subslice slot 28 32 = lfn_part units count order"
proof -
  let ?b = "of_nat order OR (if order = 1 then LFN_LAST else 0) :: u8"
  have "list_all (\<lambda>n. let b = of_nat n OR (if n = 1 then LFN_LAST else 0) :: u8 in
      b \<noteq> 0 \<and> b \<noteq> 0xE5 \<and> unat (b AND 0x1F) = n) [1..<32]"
    by (simp add: upt_rec LFN_LAST_def)
  then have b: "?b \<noteq> 0" "?b \<noteq> 0xE5" "unat (?b AND 0x1F) = order"
    using assms(1,2) unfolding list_all_iff Let_def by auto
  have l: "to_le 2 x = [of_nat x, of_nat (x div 256)]" for x by (simp add: numeral_2_eq_2)
  have u: "[0..<13] = [0, 1, 2, 3, 4, 5, 6, 7, 8, 9, 10, 11, 12 :: nat]" by (simp add: upt_rec)
  show "length slot = 32" "slot ! 0 \<noteq> 0" "slot ! 0 \<noteq> 0xE5" "slot ! 11 = ATTR_LFN" "slot ! 13 = chk"
    "unat (slot ! 0 AND 0x1F) = order"
    unfolding slot_def lfn_slot_bytes Let_def using b by simp_all
  show "subslice slot 1 11 @ subslice slot 14 26 @ subslice slot 28 32 = lfn_part units count order"
    unfolding slot_def lfn_slot_bytes Let_def lfn_part_def u by (simp add: subslice_def l)
qed

text \<open>Scanning a run of long-name slots in descending order collects their parts.\<close>

lemma scan_lfn_run:
  assumes "0 < k" "k < 32" "lfn run = [] \<or> lfn_next run = k"
  shows "scan_slots dc ix (map (lfn_slot units chk count) (rev [1..<k + 1]) @ ss) run =
    scan_slots dc (ix + k) ss
      \<lparr>lfn = lfn run @ map (\<lambda>o'. (o', lfn_part units count o')) (rev [1..<k + 1]), lfn_sum = chk, lfn_next = 0\<rparr>"
  using assms
proof (induction k arbitrary: ix run)
  case (Suc k)
  note f = lfn_slot_facts [of "Suc k" units chk count]
  let ?slot = "lfn_slot units chk count (Suc k)"
  let ?run = "\<lparr>lfn = lfn run @ [(Suc k, lfn_part units count (Suc k))], lfn_sum = chk, lfn_next = k\<rparr>"
  have "push_lfn ?slot run = ?run"
    using f Suc.prems by (auto simp: push_lfn_def Let_def)
  then have "scan_slots dc ix (map (lfn_slot units chk count) (rev [1..<Suc k + 1]) @ ss) run =
      scan_slots dc (ix + 1) (map (lfn_slot units chk count) (rev [1..<k + 1]) @ ss) ?run"
    using f Suc.prems by (simp add: upt_Suc_append)
  also have "\<dots> = scan_slots dc (ix + Suc k) ss
      \<lparr>lfn = lfn run @ map (\<lambda>o'. (o', lfn_part units count o')) (rev [1..<Suc k + 1]), lfn_sum = chk, lfn_next = 0\<rparr>"
  proof (cases "k = 0")
    case False
    then show ?thesis using Suc.IH [of ?run "ix + 1"] Suc.prems by (simp add: upt_Suc_append)
  qed simp
  finally show ?case .
qed simp

section \<open>Reassembling the name\<close>

lemma le_units_append: "even (length xs) \<Longrightarrow> le_units (xs @ ys) = le_units xs @ le_units ys"
  by (induction xs rule: le_units.induct) auto

lemma le_units_part:
  assumes "\<forall>u \<in> set units. u < 65536"
  shows "le_units (lfn_part units count k) = map (\<lambda>i. lfn_unit units ((count - k) * 13 + i)) [0..<13]"
proof -
  have u: "lfn_unit units i mod 65536 = lfn_unit units i" for i
    using assms by (simp add: lfn_unit_def)
  have "le_units (concat (map (\<lambda>i. to_le 2 (f i)) is)) = map (\<lambda>i. f i mod 65536) is" for f :: "nat \<Rightarrow> nat" and "is"
  proof (induction "is")
    case (Cons i "is")
    have "to_le 2 (f i) = [of_nat (f i), of_nat (f i div 256)]" by (simp add: numeral_2_eq_2)
    moreover have "le_nat (to_le 2 (f i)) = f i mod 65536" by simp
    ultimately show ?case using Cons by simp
  qed simp
  then show ?thesis unfolding lfn_part_def by (simp only: u)
qed

lemma sort_descending:
  "sort_key (\<lambda>p. - int (fst p)) (map (\<lambda>k. (k, g k)) (rev [1..<n + 1])) = map (\<lambda>k. (k, g k)) (rev [1..<n + 1])"
  by (induction n) (simp_all add: insort_is_Cons)

lemma concat_chunks:
  "concat (map (\<lambda>k. map (\<lambda>i. f ((n - k) * 13 + i)) [0..<13]) (rev [1..<n + 1])) = map f [0..<n * 13]"
proof -
  have "rev [1..<n + 1] = map (\<lambda>j. n - j) [0..<n]" by (rule nth_equalityI) (simp_all add: rev_nth del: upt_Suc)
  then have "concat (map (\<lambda>k. map (\<lambda>i. f ((n - k) * 13 + i)) [0..<13]) (rev [1..<n + 1])) =
      concat (map (\<lambda>j. map (\<lambda>i. f (j * 13 + i)) [0..<13]) [0..<n])"
    by (simp only: map_map) (rule arg_cong [of _ _ concat], rule map_cong, auto)
  also have "\<dots> = map f [0..<n * 13]"
  proof (induction n)
    case (Suc n)
    have "[0..<Suc n * 13] = [0..<n * 13] @ map (\<lambda>i. n * 13 + i) [0..<13]"
      using upt_add_eq_append [of 0 "n * 13" 13] map_add_upt [of "n * 13" 13] by (simp add: add.commute)
    then show ?case using Suc by (simp add: comp_def)
  qed simp
  finally show ?thesis .
qed

lemma takeWhile_units:
  assumes "length units \<le> n" "\<forall>u \<in> set units. u \<noteq> 0 \<and> u \<noteq> 0xFFFF"
  shows "takeWhile (\<lambda>c. c \<noteq> 0 \<and> c \<noteq> 0xFFFF) (map (lfn_unit units) [0..<n]) = units"
proof -
  have "map (lfn_unit units) [0..<n] = units @ replicate (n - length units) 0"
    by (rule nth_equalityI) (use assms(1) in \<open>auto simp: lfn_unit_def nth_append\<close>)
  then show ?thesis using assms(2) by (simp add: takeWhile_append takeWhile_eq_Nil_iff)
qed

lemma lfn_name_run:
  assumes "length units \<le> n * 13" "\<forall>u \<in> set units. u \<noteq> 0 \<and> u < 0xFFFF"
  shows "lfn_name (map (\<lambda>k. (k, lfn_part units n k)) (rev [1..<n + 1])) =
    concat (map (\<lambda>c. utf8 (char_from_u16 c)) units)"
proof -
  have lt: "\<forall>u \<in> set units. u < 65536" using assms(2) by auto
  have "concat (map (\<lambda>p. le_units (snd p)) (map (\<lambda>k. (k, lfn_part units n k)) (rev [1..<n + 1]))) =
      map (lfn_unit units) [0..<n * 13]"
    using concat_chunks [of "lfn_unit units" n] by (simp add: comp_def le_units_part [OF lt])
  moreover have "\<forall>u \<in> set units. u \<noteq> 0 \<and> u \<noteq> 0xFFFF" using assms(2) by auto
  ultimately show ?thesis
    unfolding lfn_name_def Let_def sort_descending using takeWhile_units [OF assms(1)] by (simp only:)
qed

text \<open>For text in ASCII the code units are the characters.\<close>

definition ascii_text :: "string \<Rightarrow> bool" where
  "ascii_text s \<longleftrightarrow> list_all (\<lambda>c. 0 < code c \<and> code c < 128) s"

lemma ascii_units: "ascii_text s \<Longrightarrow> encode_utf16 s = map code s"
  by (induction s) (simp_all add: ascii_text_def)

lemma ascii_decode: "ascii_text s \<Longrightarrow> concat (map (\<lambda>c. utf8 (char_from_u16 c)) (map code s)) = s"
  by (induction s) (simp_all add: ascii_text_def char_from_u16_def)

definition lfn_count :: "string \<Rightarrow> nat" where
  "lfn_count name = max (div_ceil (length name) 13) 1"

lemma lfn_count_bounds: "0 < lfn_count name" "length name \<le> lfn_count name * 13"
  "length name \<le> 255 \<Longrightarrow> lfn_count name < 32"
proof -
  show "0 < lfn_count name" by (simp add: lfn_count_def)
  have "length name \<le> div_ceil (length name) 13 * 13" by (rule div_ceil_mult_ge) simp
  also have "\<dots> \<le> lfn_count name * 13" by (simp add: lfn_count_def)
  finally show "length name \<le> lfn_count name * 13" .
  show "lfn_count name < 32" if "length name \<le> 255"
    using that by (simp add: lfn_count_def div_ceil_def)
qed

text \<open>A name that the long-name writer stores in full.\<close>

definition long_name_ok :: "string \<Rightarrow> bool" where
  "long_name_ok name \<longleftrightarrow> ascii_text name \<and> length name \<le> 255 \<and> trim_end name = name"

lemma lfn_slots_ascii:
  assumes "long_name_ok name"
  shows "lfn_slots name sh = map (lfn_slot (map code name) (lfn_checksum sh) (lfn_count name)) (rev [1..<lfn_count name + 1])"
    and "length (lfn_slots name sh) = lfn_count name"
  using assms ascii_units [of name] by (simp_all add: long_name_ok_def lfn_slots_def lfn_count_def Let_def)

text \<open>A slot that holds a short entry.\<close>

definition short_slot :: "bytes \<Rightarrow> bool" where
  "short_slot slot \<longleftrightarrow> length slot = 32 \<and> slot ! 0 \<noteq> 0 \<and> slot ! 0 \<noteq> 0xE5 \<and> slot ! 11 \<noteq> ATTR_LFN \<and>
     slot ! 11 AND ATTR_VOLUME = 0"

lemma scan_long_entry:
  assumes "long_name_ok name" "short_slot slot" "take 11 slot = sh" "ix + lfn_count name < 2 ^ 32" "lfn run = []"
  shows "scan_slots dc ix (lfn_slots name sh @ slot # ss) run =
    bindR (scan_slots dc (ix + lfn_count name + 1) ss no_run) (\<lambda>(es, run', fin).
      Ok ((slot_entry no_run dc (ix + lfn_count name) slot)\<lparr>re_name := name\<rparr> # es, run', fin))"
proof -
  note c = lfn_count_bounds [of name]
  have a: "ascii_text name" "length name \<le> 255" using assms(1) by (simp_all add: long_name_ok_def)
  let ?parts = "map (\<lambda>k. (k, lfn_part (map code name) (lfn_count name) k)) (rev [1..<lfn_count name + 1])"
  let ?run = "\<lparr>lfn = ?parts, lfn_sum = lfn_checksum sh, lfn_next = 0\<rparr>"
  have "scan_slots dc ix (lfn_slots name sh @ slot # ss) run = scan_slots dc (ix + lfn_count name) (slot # ss) ?run"
    unfolding lfn_slots_ascii(1) [OF assms(1)]
    using scan_lfn_run [of "lfn_count name" run dc ix] c(1) c(3) [OF a(2)] assms(5) by simp
  moreover have "slot_entry ?run dc i slot = (slot_entry no_run dc i slot)\<lparr>re_name := name\<rparr>" for i
  proof -
    have "\<forall>u \<in> set (map code name). u \<noteq> 0 \<and> u < 0xFFFF"
      using a(1) by (fastforce simp: ascii_text_def list_all_iff)
    then have "lfn_name ?parts = name"
      using lfn_name_run [of "map code name" "lfn_count name"] c(2) ascii_decode [OF a(1)] by simp
    moreover have "?parts \<noteq> []" using c(1) by simp
    ultimately show ?thesis using assms(3) by (simp add: slot_entry_def Let_def)
  qed
  ultimately show ?thesis using assms(2,4) by (simp add: short_slot_def)
qed

lemma short_slot_of_name:
  assumes "make_short_name cand = Ok sh" "length rest = 21" "rest ! 0 \<in> {ATTR_DIR, ATTR_ARCHIVE}"
  shows "short_slot (sh @ rest)"
proof -
  obtain b e where b: "sh = pad_field 8 b @ pad_field 3 e" "b \<noteq> []" "list_all short_char b" "length b \<le> 8" "length e \<le> 3"
    using make_short_name_Ok [OF assms(1)] by metis
  have len: "length sh = 11" using b by (simp add: length_pad_field)
  obtain c cs where c: "b = c # cs" "short_char c" using b by (cases b) auto
  have "0 < code (to_ascii_uppercase c)"
    using c(2) by (auto simp: short_char_def is_ascii_alphanumeric_def ascii_case) (auto simp: code_def)
  then have "unat (sh ! 0) \<noteq> 0" "unat (sh ! 0) < 128"
    using b(1) c short_char_codes(1) [OF c(2)] by (simp_all add: pad_field_def)
  then have "sh ! 0 \<noteq> 0" "sh ! 0 \<noteq> 0xE5" by auto
  then show ?thesis
    using assms(2,3) len by (auto simp: short_slot_def nth_append ATTR_DIR_def ATTR_ARCHIVE_def ATTR_LFN_def ATTR_VOLUME_def)
qed



end
