(* ===== verification/Fat_Volume.thy ===== *)
theory Fat_Volume
  imports Fat_Names
begin

text \<open>
  The FAT32 volume: mounting, clusters, the allocation table with its copies, and cluster chains
  (\<open>kernel/src/fat.rs\<close>). Every operation is a program over the cached block device. The proofs use
  the device only through the interpretation \<open>disk\<close> of the locale \<open>block_device\<close>. They relate the
  operations to an abstract view of the volume: the table as a function from clusters to entries,
  and the contents of the data clusters.
\<close>

section \<open>Definitions\<close>

record fat32 =
  part_start :: nat
  sectors_per_cluster :: nat
  reserved :: nat
  num_fats :: nat
  fat_sectors :: nat
  root_cluster :: nat
  total_clusters :: nat

text \<open>The device operations with the driver's errors mapped into the file system's.\<close>

definition dev_read :: "nat \<Rightarrow> nat \<Rightarrow> bytes \<Rightarrow> bytes fsp" where
  "dev_read lba n buf = map_errP Io (read_sectors lba n buf)"

definition dev_write :: "nat \<Rightarrow> nat \<Rightarrow> bytes \<Rightarrow> unit fsp" where
  "dev_write lba n buf = map_errP Io (write_sectors lba n buf)"

definition parse_bpb :: "nat \<Rightarrow> bytes \<Rightarrow> (fs_error, fat32) res" where
  "parse_bpb start sec =
     (let bps = le_nat (subslice sec 11 13); spc = unat (sec ! 13) in
      if bps \<noteq> SECTOR_SIZE then Err BadFs
      else if spc = 0 \<or> 8192 < spc * SECTOR_SIZE then Err BadFs
      else
        (let rsv = le_nat (subslice sec 14 16); nf = unat (sec ! 16);
             root_entries = le_nat (subslice sec 17 19); fat_sectors16 = le_nat (subslice sec 22 24);
             fs = le_nat (subslice sec 36 40); root = le_nat (subslice sec 44 48);
             total32 = le_nat (subslice sec 32 36) in
         if root_entries \<noteq> 0 \<or> fat_sectors16 \<noteq> 0 \<or> nf = 0 \<or> fs = 0 \<or> root < 2 \<or> total32 = 0 \<or> rsv = 0
         then Err BadFs
         else
           bindR (mul_u32 nf fs) (\<lambda>fats. bindR (add_u32 rsv fats) (\<lambda>data_start.
             if total32 \<le> data_start then Err BadFs
             else Ok \<lparr>part_start = start, sectors_per_cluster = spc, reserved = rsv, num_fats = nf,
               fat_sectors = fs, root_cluster = root, total_clusters = (total32 - data_start) div spc\<rparr>))))"

definition fat_mount :: "nat \<Rightarrow> fat32 fsp" where
  "fat_mount start = bindP (dev_read start 1 (replicate SECTOR_SIZE 0)) (\<lambda>sec. liftP (parse_bpb start sec))"

definition cluster_bytes :: "fat32 \<Rightarrow> nat" where
  "cluster_bytes v = sectors_per_cluster v * SECTOR_SIZE"

definition fat_summary :: "fat32 \<Rightarrow> string" where
  "fat_summary v = ''cluster='' @ dec (cluster_bytes v div 1024) @ ''KiB FATs='' @ dec (num_fats v) @ ''x'' @
     dec (fat_sectors v) @ ''sectors root_cluster='' @ dec (root_cluster v)"

definition data_lba :: "fat32 \<Rightarrow> nat" where
  "data_lba v = part_start v + reserved v + num_fats v * fat_sectors v"

definition cluster_lba :: "fat32 \<Rightarrow> nat \<Rightarrow> (fs_error, nat) res" where
  "cluster_lba v c =
     (if c < 2 then Panic
      else if 2 ^ 64 \<le> data_lba v + (c - 2) * sectors_per_cluster v then Panic
      else Ok (data_lba v + (c - 2) * sectors_per_cluster v))"

definition read_cluster :: "fat32 \<Rightarrow> nat \<Rightarrow> bytes \<Rightarrow> bytes fsp" where
  "read_cluster v c buf = bindP (liftP (cluster_lba v c)) (\<lambda>lba. dev_read lba (sectors_per_cluster v) buf)"

definition write_cluster :: "fat32 \<Rightarrow> nat \<Rightarrow> bytes \<Rightarrow> unit fsp" where
  "write_cluster v c buf = bindP (liftP (cluster_lba v c)) (\<lambda>lba. dev_write lba (sectors_per_cluster v) buf)"

text \<open>The sector of the \<open>f\<close>-th table copy that holds the entry of cluster \<open>c\<close>.\<close>

definition fat_lba :: "fat32 \<Rightarrow> nat \<Rightarrow> nat \<Rightarrow> nat" where
  "fat_lba v f c = part_start v + reserved v + f * fat_sectors v + c * 4 div SECTOR_SIZE"

definition fat_entry :: "fat32 \<Rightarrow> nat \<Rightarrow> nat fsp" where
  "fat_entry v c =
     bindP (guardP (fat_lba v 0 c < 2 ^ 64)) (\<lambda>_.
     bindP (dev_read (fat_lba v 0 c) 1 (replicate SECTOR_SIZE 0)) (\<lambda>sec.
     let p = c * 4 mod SECTOR_SIZE in retP (le_nat (subslice sec p (p + 4)))))"

definition set_fat_entry :: "fat32 \<Rightarrow> nat \<Rightarrow> nat \<Rightarrow> unit fsp" where
  "set_fat_entry v c val =
     forP (\<lambda>f.
       bindP (guardP (fat_lba v f c < 2 ^ 64)) (\<lambda>_.
       bindP (dev_read (fat_lba v f c) 1 (replicate SECTOR_SIZE 0)) (\<lambda>sec.
       dev_write (fat_lba v f c) 1 (put sec (c * 4 mod SECTOR_SIZE) (to_le 4 val))))) [0..<num_fats v]"

definition next_cluster :: "fat32 \<Rightarrow> nat \<Rightarrow> nat option fsp" where
  "next_cluster v c =
     bindP (fat_entry v c) (\<lambda>x.
       let e = x mod 2 ^ 28 in
       if 0x0FFFFFF8 \<le> e then retP None else if e < 2 then errP BadFs else retP (Some e))"

text \<open>
  The loop of \<open>walk_chain\<close>; the first argument counts the clusters that may still follow, so that
  the list has at most \<open>max\<close> elements, but always the first one.
\<close>

primrec walk_loop :: "fat32 \<Rightarrow> nat \<Rightarrow> nat \<Rightarrow> nat list fsp" where
  "walk_loop v 0 c = retP [c]"
| "walk_loop v (Suc k) c =
     bindP (next_cluster v c) (\<lambda>n. case n of
         None \<Rightarrow> retP [c]
       | Some d \<Rightarrow> bindP (walk_loop v k d) (\<lambda>cs. retP (c # cs)))"

definition walk_chain :: "fat32 \<Rightarrow> nat \<Rightarrow> nat \<Rightarrow> nat list fsp" where
  "walk_chain v first mx = walk_loop v (mx - 1) first"

primrec alloc_scan :: "fat32 \<Rightarrow> nat option \<Rightarrow> nat list \<Rightarrow> nat fsp" where
  "alloc_scan v prev [] = errP NoSpace"
| "alloc_scan v prev (c # cs) =
     bindP (fat_entry v c) (\<lambda>e.
       if e = 0 then
         bindP (set_fat_entry v c EOC) (\<lambda>_.
         bindP (case prev of None \<Rightarrow> retP () | Some p \<Rightarrow> set_fat_entry v p c) (\<lambda>_. retP c))
       else alloc_scan v prev cs)"

definition alloc_cluster :: "fat32 \<Rightarrow> nat option \<Rightarrow> nat fsp" where
  "alloc_cluster v prev =
     bindP (guardP (1 + total_clusters v < 2 ^ 32)) (\<lambda>_. alloc_scan v prev [2..<2 + total_clusters v])"

definition free_from :: "fat32 \<Rightarrow> nat \<Rightarrow> nat \<Rightarrow> unit fsp" where
  "free_from v first keep =
     bindP (walk_chain v first (total_clusters v)) (\<lambda>cs.
     bindP (forP (\<lambda>c. set_fat_entry v c 0) (drop keep cs)) (\<lambda>_.
     if 0 < keep then
       bindP (guardP (keep - 1 < length cs)) (\<lambda>_. set_fat_entry v (cs ! (keep - 1)) EOC)
     else retP ()))"

section \<open>The volume on an online device\<close>

definition same_disk :: "blk \<Rightarrow> blk \<Rightarrow> bool" where
  "same_disk s s' \<longleftrightarrow> online s' \<and> sector_at s' = sector_at s \<and> capacity s' = capacity s"

text \<open>
  A mounted volume that lies inside the device and whose allocation table has an entry for every
  cluster.
\<close>

definition volume :: "fat32 \<Rightarrow> blk \<Rightarrow> bool" where
  "volume v s \<longleftrightarrow> online s \<and> 0 < sectors_per_cluster v \<and> sectors_per_cluster v \<le> 16 \<and> 0 < num_fats v \<and>
     data_lba v + total_clusters v * sectors_per_cluster v \<le> capacity s \<and>
     (2 + total_clusters v) * 4 \<le> fat_sectors v * SECTOR_SIZE \<and> 1 + total_clusters v < 2 ^ 32"

definition is_cluster :: "fat32 \<Rightarrow> nat \<Rightarrow> bool" where
  "is_cluster v c \<longleftrightarrow> 2 \<le> c \<and> c < 2 + total_clusters v"

definition fat_at :: "fat32 \<Rightarrow> blk \<Rightarrow> nat \<Rightarrow> nat \<Rightarrow> nat" where
  "fat_at v s f c =
     le_nat (subslice (sector_at s (fat_lba v f c)) (c * 4 mod SECTOR_SIZE) (c * 4 mod SECTOR_SIZE + 4))"

definition cluster_at :: "fat32 \<Rightarrow> blk \<Rightarrow> nat \<Rightarrow> bytes" where
  "cluster_at v s c =
     (let lba = data_lba v + (c - 2) * sectors_per_cluster v
      in concat (map (sector_at s) [lba..<lba + sectors_per_cluster v]))"

lemma capacity_bound: "online s \<Longrightarrow> capacity s \<le> 2 ^ 28"
  by (simp add: online_def coherent_def small_disk_def capacity_def)

lemma same_disk_refl [simp]: "online s \<Longrightarrow> same_disk s s"
  by (simp add: same_disk_def)

lemma same_disk_trans [trans]: "same_disk a b \<Longrightarrow> same_disk b c \<Longrightarrow> same_disk a c"
  by (simp add: same_disk_def)

lemma same_disk_views:
  assumes "same_disk s s'"
  shows "fat_at v s' = fat_at v s" "cluster_at v s' = cluster_at v s" "volume v s \<Longrightarrow> volume v s'"
  using assms by (auto simp: same_disk_def volume_def fat_at_def cluster_at_def intro!: ext)

lemma volume_online: "volume v s \<Longrightarrow> online s"
  by (simp add: volume_def)

lemma dev_read_online:
  assumes "online s" "0 < n" "length b = n * SECTOR_SIZE" "lba + n \<le> capacity s"
  shows "\<exists>s'. dev_read lba n b s = (Ok (concat (map (sector_at s) [lba..<lba + n])), s') \<and> same_disk s s'"
  using disk.rd_online [OF assms] by (auto simp: dev_read_def same_disk_def)

lemma dev_read_one:
  assumes "online s" "lba < capacity s"
  shows "\<exists>s'. dev_read lba 1 (replicate SECTOR_SIZE 0) s = (Ok (sector_at s lba), s') \<and> same_disk s s'"
  using dev_read_online [of s 1 "replicate SECTOR_SIZE 0" lba] assms by simp

lemma dev_write_online:
  assumes "online s" "0 < n" "length b = n * SECTOR_SIZE" "lba + n \<le> capacity s"
  shows "\<exists>s'. dev_write lba n b s = (Ok (), s') \<and> online s' \<and> capacity s' = capacity s \<and>
    sector_at s' = (\<lambda>l. if lba \<le> l \<and> l < lba + n
      then subslice b ((l - lba) * SECTOR_SIZE) ((l - lba) * SECTOR_SIZE + SECTOR_SIZE) else sector_at s l)"
  using disk.wr_online [OF assms] by (auto simp: dev_write_def)

lemma dev_write_one:
  assumes "online s" "length b = SECTOR_SIZE" "lba < capacity s"
  shows "\<exists>s'. dev_write lba 1 b s = (Ok (), s') \<and> online s' \<and> capacity s' = capacity s \<and>
    sector_at s' = (sector_at s)(lba := b)"
  using disk.wr_one [OF assms] by (auto simp: dev_write_def)

section \<open>The allocation table\<close>

lemma entry_in_sector: "c * 4 mod SECTOR_SIZE = 4 * (c mod 128)" "c * 4 div SECTOR_SIZE = c div 128"
  "c * 4 mod SECTOR_SIZE + 4 \<le> SECTOR_SIZE"
proof -
  show a: "c * 4 mod SECTOR_SIZE = 4 * (c mod 128)" "c * 4 div SECTOR_SIZE = c div 128"
    using mult_mod_right [of 4 c 128] by (simp_all add: SECTOR_SIZE_def mult.commute)
  have "c mod 128 < 128" by simp
  then have "4 * (c mod 128) + 4 \<le> SECTOR_SIZE" unfolding SECTOR_SIZE_def by linarith
  then show "c * 4 mod SECTOR_SIZE + 4 \<le> SECTOR_SIZE" by (simp only: a(1))
qed

lemma entry_row:
  assumes "volume v s" "c < 2 + total_clusters v"
  shows "c div 128 < fat_sectors v"
proof -
  have "c * 4 < fat_sectors v * SECTOR_SIZE" using assms by (simp add: volume_def)
  then have "c < fat_sectors v * 128" by (simp add: SECTOR_SIZE_def)
  then show ?thesis by (simp add: less_mult_imp_div_less)
qed

lemma fat_lba_bounds:
  assumes "volume v s" "c < 2 + total_clusters v" "f < num_fats v"
  shows "fat_lba v f c < data_lba v" "fat_lba v f c < capacity s" "fat_lba v f c < 2 ^ 64"
proof -
  have "f * fat_sectors v + fat_sectors v \<le> num_fats v * fat_sectors v"
    using block_span [OF assms(3), of "fat_sectors v" "num_fats v * fat_sectors v"] by simp
  then show lt: "fat_lba v f c < data_lba v"
    using entry_row [OF assms(1,2)] by (simp add: fat_lba_def data_lba_def entry_in_sector)
  then show "fat_lba v f c < capacity s" using assms(1) by (simp add: volume_def)
  then show "fat_lba v f c < 2 ^ 64" using capacity_bound [of s] assms(1) by (simp add: volume_def)
qed

lemma fat_lba_eq:
  assumes "volume v s" "c < 2 + total_clusters v" "d < 2 + total_clusters v"
  shows "fat_lba v f c = fat_lba v g d \<longleftrightarrow> f = g \<and> c div 128 = d div 128"
proof
  assume "fat_lba v f c = fat_lba v g d"
  then have "c div 128 + fat_sectors v * f = d div 128 + fat_sectors v * g"
    by (simp add: fat_lba_def entry_in_sector mult.commute)
  then have "(c div 128 + fat_sectors v * f) div fat_sectors v = (d div 128 + fat_sectors v * g) div fat_sectors v"
    "(c div 128 + fat_sectors v * f) mod fat_sectors v = (d div 128 + fat_sectors v * g) mod fat_sectors v"
    by simp_all
  then show "f = g \<and> c div 128 = d div 128"
    using low_field [OF entry_row [OF assms(1,2)]] low_field [OF entry_row [OF assms(1,3)]] by simp
qed (simp add: fat_lba_def entry_in_sector)

lemma fat_entry_ok:
  assumes "volume v s" "c < 2 + total_clusters v"
  shows "\<exists>s'. fat_entry v c s = (Ok (fat_at v s 0 c), s') \<and> same_disk s s'"
proof -
  have b: "fat_lba v 0 c < capacity s" "fat_lba v 0 c < 2 ^ 64"
    using fat_lba_bounds [OF assms, of 0] assms(1) by (auto simp: volume_def)
  show ?thesis
    using dev_read_one [OF volume_online [OF assms(1)] b(1)] b(2)
    by (auto simp: fat_entry_def fat_at_def Let_def)
qed

text \<open>Writing an entry patches one four-byte field in one sector of every copy.\<close>

definition patched :: "fat32 \<Rightarrow> nat \<Rightarrow> nat \<Rightarrow> nat set \<Rightarrow> blk \<Rightarrow> blk \<Rightarrow> bool" where
  "patched v c val F s s' \<longleftrightarrow> online s' \<and> capacity s' = capacity s \<and>
     sector_at s' = (\<lambda>l. if l \<in> (\<lambda>f. fat_lba v f c) ` F
       then put (sector_at s l) (c * 4 mod SECTOR_SIZE) (to_le 4 val) else sector_at s l)"

lemma put_put: "off + length ys \<le> length xs \<Longrightarrow> put (put xs off ys) off ys = put xs off ys"
  by (rule nth_equalityI) (auto simp: nth_put)

lemma set_fat_entry_loop:
  assumes "volume v s" "c < 2 + total_clusters v" "set fs \<subseteq> {..<num_fats v}"
  shows "\<exists>s'. forP (\<lambda>f.
       bindP (guardP (fat_lba v f c < 2 ^ 64)) (\<lambda>_.
       bindP (dev_read (fat_lba v f c) 1 (replicate SECTOR_SIZE 0)) (\<lambda>sec.
       dev_write (fat_lba v f c) 1 (put sec (c * 4 mod SECTOR_SIZE) (to_le 4 val))))) fs s = (Ok (), s') \<and>
    patched v c val (set fs) s s'"
  using assms
proof (induction fs arbitrary: s)
  case Nil
  then show ?case by (simp add: patched_def volume_def)
next
  case (Cons f fs)
  let ?p = "c * 4 mod SECTOR_SIZE"
  have b: "fat_lba v f c < capacity s" "fat_lba v f c < 2 ^ 64"
    using fat_lba_bounds [OF Cons.prems(1,2), of f] Cons.prems(3) by auto
  obtain s1 where s1: "dev_read (fat_lba v f c) 1 (replicate SECTOR_SIZE 0) s = (Ok (sector_at s (fat_lba v f c)), s1)"
    "same_disk s s1"
    using dev_read_one [OF volume_online [OF Cons.prems(1)] b(1)] by blast
  have len: "length (sector_at s l) = SECTOR_SIZE" for l
    using disk.content_length [OF volume_online [OF Cons.prems(1)]] .
  have "online s1" "fat_lba v f c < capacity s1" using s1(2) b(1) by (simp_all add: same_disk_def)
  then obtain s2 where s2: "dev_write (fat_lba v f c) 1 (put (sector_at s (fat_lba v f c)) ?p (to_le 4 val)) s1 = (Ok (), s2)"
    "online s2" "capacity s2 = capacity s"
    "sector_at s2 = (sector_at s)(fat_lba v f c := put (sector_at s (fat_lba v f c)) ?p (to_le 4 val))"
    using dev_write_one [of s1 "put (sector_at s (fat_lba v f c)) ?p (to_le 4 val)" "fat_lba v f c"]
      s1(2) len entry_in_sector(3) [of c] by (auto simp: same_disk_def)
  have "volume v s2" using Cons.prems(1) s2(2,3) by (simp add: volume_def)
  then obtain s3 where s3: "forP (\<lambda>f.
       bindP (guardP (fat_lba v f c < 2 ^ 64)) (\<lambda>_.
       bindP (dev_read (fat_lba v f c) 1 (replicate SECTOR_SIZE 0)) (\<lambda>sec.
       dev_write (fat_lba v f c) 1 (put sec (c * 4 mod SECTOR_SIZE) (to_le 4 val))))) fs s2 = (Ok (), s3)"
    "patched v c val (set fs) s2 s3"
    using Cons.IH Cons.prems(2,3) by auto
  have "patched v c val (set (f # fs)) s s3"
    using s3(2) s2(3) len entry_in_sector(3) [of c]
    unfolding patched_def s2(4) by (auto simp: fun_eq_iff put_put)
  then show ?case using s1(1) s2(1) s3(1) b(2) by auto
qed

lemma set_fat_entry_patches:
  assumes "volume v s" "c < 2 + total_clusters v"
  shows "\<exists>s'. set_fat_entry v c val s = (Ok (), s') \<and> patched v c val {..<num_fats v} s s'"
  using set_fat_entry_loop [OF assms, of "[0..<num_fats v]" val]
  by (simp add: set_fat_entry_def atLeast0LessThan)

text \<open>Nothing but the allocation table changes, and the table of every copy becomes \<open>T\<close>.\<close>

definition only_table :: "fat32 \<Rightarrow> blk \<Rightarrow> blk \<Rightarrow> bool" where
  "only_table v s s' \<longleftrightarrow> volume v s' \<and> capacity s' = capacity s \<and>
     (\<forall>l. l < part_start v + reserved v \<or> data_lba v \<le> l \<longrightarrow> sector_at s' l = sector_at s l)"

definition table_is :: "fat32 \<Rightarrow> blk \<Rightarrow> (nat \<Rightarrow> nat \<Rightarrow> nat) \<Rightarrow> bool" where
  "table_is v s T \<longleftrightarrow> (\<forall>f < num_fats v. \<forall>d < 2 + total_clusters v. fat_at v s f d = T f d)"

definition set_entry :: "nat \<Rightarrow> nat \<Rightarrow> (nat \<Rightarrow> nat \<Rightarrow> nat) \<Rightarrow> nat \<Rightarrow> nat \<Rightarrow> nat" where
  "set_entry c val T f = (T f)(c := val)"

lemma table_self: "table_is v s (fat_at v s)"
  by (simp add: table_is_def)

lemma table_isD: "\<lbrakk>table_is v s T; volume v s; d < 2 + total_clusters v\<rbrakk> \<Longrightarrow> fat_at v s 0 d = T 0 d"
  by (simp add: table_is_def volume_def)

lemma table_set_entry:
  "\<lbrakk>table_is v s' (set_entry c val (fat_at v s)); table_is v s T\<rbrakk> \<Longrightarrow> table_is v s' (set_entry c val T)"
  by (simp add: table_is_def set_entry_def)

lemma only_table_refl: "volume v s \<Longrightarrow> same_disk s s' \<Longrightarrow> only_table v s s'"
  by (auto simp: only_table_def same_disk_def volume_def)

lemma only_table_trans: "only_table v s t \<Longrightarrow> only_table v t u \<Longrightarrow> only_table v s u"
  by (simp add: only_table_def)

lemma only_table_volume: "only_table v s s' \<Longrightarrow> volume v s'"
  by (simp add: only_table_def)

lemma only_table_cluster: "only_table v s s' \<Longrightarrow> cluster_at v s' = cluster_at v s"
  by (auto simp: only_table_def cluster_at_def Let_def intro!: ext arg_cong [of _ _ concat] map_cong)

lemma same_disk_table: "same_disk s s' \<Longrightarrow> table_is v s' T \<longleftrightarrow> table_is v s T"
  by (simp add: table_is_def same_disk_views)

lemma set_fat_entry_ok:
  assumes "volume v s" "c < 2 + total_clusters v" "val < 2 ^ 32"
  shows "\<exists>s'. set_fat_entry v c val s = (Ok (), s') \<and> only_table v s s' \<and>
    table_is v s' (set_entry c val (fat_at v s))"
proof -
  obtain s' where s': "set_fat_entry v c val s = (Ok (), s')" "patched v c val {..<num_fats v} s s'"
    using set_fat_entry_patches [OF assms(1,2)] by blast
  note on = volume_online [OF assms(1)]
  have len: "length (sector_at s l) = SECTOR_SIZE" for l using disk.content_length [OF on] .
  have "part_start v + reserved v \<le> fat_lba v f c" for f by (simp add: fat_lba_def)
  then have "l \<notin> (\<lambda>f. fat_lba v f c) ` {..<num_fats v}" if "l < part_start v + reserved v \<or> data_lba v \<le> l" for l
    using that fat_lba_bounds(1) [OF assms(1,2)] by (auto simp: not_le [symmetric])
  then have "only_table v s s'"
    using s'(2) assms(1) by (simp add: only_table_def patched_def volume_def)
  moreover have "fat_at v s' f d = set_entry c val (fat_at v s) f d"
    if fd: "f < num_fats v" "d < 2 + total_clusters v" for f d
  proof (cases "fat_lba v f d = fat_lba v f c")
    case True
    then have row: "d div 128 = c div 128" using fat_lba_eq [OF assms(1) fd(2) assms(2)] by blast
    have s: "sector_at s' (fat_lba v f d) = put (sector_at s (fat_lba v f c)) (c * 4 mod SECTOR_SIZE) (to_le 4 val)"
      using s'(2) True fd(1) by (auto simp: patched_def)
    show ?thesis
    proof (cases "d = c")
      case True
      then show ?thesis
        using s len entry_in_sector(3) [of c] assms(3) by (simp add: fat_at_def set_entry_def)
    next
      case False
      then have "d mod 128 \<noteq> c mod 128" using row by (metis div_mult_mod_eq)
      then have "d * 4 mod SECTOR_SIZE + 4 \<le> c * 4 mod SECTOR_SIZE \<or> c * 4 mod SECTOR_SIZE + 4 \<le> d * 4 mod SECTOR_SIZE"
        unfolding entry_in_sector(1) by linarith
      then show ?thesis
        using s False True len entry_in_sector(3) [of c] entry_in_sector(3) [of d]
        by (simp add: fat_at_def set_entry_def subslice_put_disjoint)
    qed
  next
    case False
    have "fat_lba v f d \<notin> (\<lambda>g. fat_lba v g c) ` {..<num_fats v}"
      using False fat_lba_eq [OF assms(1) fd(2) assms(2)] by auto
    moreover have "d \<noteq> c" using False by auto
    ultimately show ?thesis using s'(2) by (simp add: patched_def fat_at_def set_entry_def)
  qed
  ultimately show ?thesis using s'(1) by (auto simp: table_is_def)
qed

section \<open>Allocation\<close>

definition free_clusters :: "fat32 \<Rightarrow> blk \<Rightarrow> nat list" where
  "free_clusters v s = filter (\<lambda>c. fat_at v s 0 c = 0) [2..<2 + total_clusters v]"

lemma volume_small:
  assumes "volume v s"
  shows "2 + total_clusters v < 0x0FFFFFF8"
proof -
  have "data_lba v + total_clusters v * sectors_per_cluster v \<le> 2 ^ 28"
    using assms capacity_bound [of s] by (auto simp: volume_def)
  moreover have "total_clusters v * 1 \<le> total_clusters v * sectors_per_cluster v"
    using assms by (intro mult_le_mono2) (simp add: volume_def)
  moreover have "1 * fat_sectors v \<le> num_fats v * fat_sectors v"
    using assms by (intro mult_le_mono1) (simp add: volume_def)
  then have "fat_sectors v \<le> data_lba v" unfolding data_lba_def by linarith
  moreover have "2 + total_clusters v \<le> fat_sectors v * 128"
    using assms by (simp add: volume_def SECTOR_SIZE_def)
  ultimately have "fat_sectors v + total_clusters v \<le> 2 ^ 28" "2 + total_clusters v \<le> fat_sectors v * 128"
    by linarith+
  then show ?thesis by simp
qed

text \<open>Marking a cluster as the end of a chain and linking it after its predecessor.\<close>

definition link :: "nat option \<Rightarrow> nat \<Rightarrow> (nat \<Rightarrow> nat \<Rightarrow> nat) \<Rightarrow> nat \<Rightarrow> nat \<Rightarrow> nat" where
  "link prev c T = (case prev of None \<Rightarrow> set_entry c EOC T | Some p \<Rightarrow> set_entry p c (set_entry c EOC T))"

lemma alloc_scan_ok:
  assumes "volume v s" "set cs \<subseteq> {2..<2 + total_clusters v}" "\<forall>p. prev = Some p \<longrightarrow> p < 2 + total_clusters v"
  shows "\<exists>s'. case filter (\<lambda>c. fat_at v s 0 c = 0) cs of
      [] \<Rightarrow> alloc_scan v prev cs s = (Err NoSpace, s') \<and> same_disk s s'
    | c # _ \<Rightarrow> alloc_scan v prev cs s = (Ok c, s') \<and> only_table v s s' \<and> table_is v s' (link prev c (fat_at v s))"
  using assms
proof (induction cs arbitrary: s)
  case Nil
  then show ?case by (auto simp: volume_def)
next
  case (Cons c cs)
  have c: "c < 2 + total_clusters v" "c < 2 ^ 32"
    using Cons.prems(1,2) volume_small [OF Cons.prems(1)] by auto
  obtain s1 where s1: "fat_entry v c s = (Ok (fat_at v s 0 c), s1)" "same_disk s s1"
    using fat_entry_ok [OF Cons.prems(1) c(1)] by blast
  have v1: "volume v s1" using same_disk_views(3) [OF s1(2) Cons.prems(1)] .
  show ?case
  proof (cases "fat_at v s 0 c = 0")
    case False
    then show ?thesis
      using Cons.IH [OF v1 _ Cons.prems(3)] Cons.prems(2) s1 same_disk_views(1) [OF s1(2)]
        only_table_trans [OF only_table_refl [OF Cons.prems(1) s1(2)]] same_disk_trans [OF s1(2)]
      by (fastforce split: list.splits)
  next
    case True
    obtain s2 where s2: "set_fat_entry v c EOC s1 = (Ok (), s2)" "only_table v s1 s2"
      "table_is v s2 (set_entry c EOC (fat_at v s1))"
      using set_fat_entry_ok [OF v1 c(1), of EOC] by (auto simp: EOC_def)
    have o2: "only_table v s s2" by (rule only_table_trans [OF only_table_refl [OF Cons.prems(1) s1(2)] s2(2)])
    have t2: "table_is v s2 (set_entry c EOC (fat_at v s))" using s2(3) same_disk_views(1) [OF s1(2)] by simp
    show ?thesis
    proof (cases prev)
      case None
      then show ?thesis using True s1(1) s2(1) o2 t2 by (auto simp: link_def)
    next
      case (Some p)
      obtain s3 where s3: "set_fat_entry v p c s2 = (Ok (), s3)" "only_table v s2 s3"
        "table_is v s3 (set_entry p c (fat_at v s2))"
        using set_fat_entry_ok [OF only_table_volume [OF o2] _ c(2), of p] Cons.prems(3) Some by blast
      have "table_is v s3 (set_entry p c (set_entry c EOC (fat_at v s)))"
        by (rule table_set_entry [OF s3(3) t2])
      then show ?thesis
        using True Some s1(1) s2(1) s3(1) only_table_trans [OF o2 s3(2)] by (auto simp: link_def)
    qed
  qed
qed

lemma alloc_cluster_ok:
  assumes "volume v s" "\<forall>p. prev = Some p \<longrightarrow> p < 2 + total_clusters v"
  shows "\<exists>s'. case free_clusters v s of
      [] \<Rightarrow> alloc_cluster v prev s = (Err NoSpace, s') \<and> same_disk s s'
    | c # _ \<Rightarrow> alloc_cluster v prev s = (Ok c, s') \<and> only_table v s s' \<and> table_is v s' (link prev c (fat_at v s))"
proof -
  have "set [2..<2 + total_clusters v] \<subseteq> {2..<2 + total_clusters v}" by (simp only: set_upt order_refl)
  note scan = alloc_scan_ok [OF assms(1) this assms(2)]
  have "alloc_cluster v prev s = alloc_scan v prev [2..<2 + total_clusters v] s"
    using assms(1) by (simp add: alloc_cluster_def volume_def del: upt_Suc)
  then show ?thesis unfolding free_clusters_def using scan by (simp only:)
qed

section \<open>Data clusters\<close>

lemma cluster_lba_ok:
  assumes "volume v s" "is_cluster v c"
  defines "lba \<equiv> data_lba v + (c - 2) * sectors_per_cluster v"
  shows "cluster_lba v c = Ok lba" "lba + sectors_per_cluster v \<le> capacity s"
proof -
  have "(c - 2) * sectors_per_cluster v + sectors_per_cluster v \<le> total_clusters v * sectors_per_cluster v"
    by (rule block_span [of _ "total_clusters v"]) (use assms(2) in \<open>auto simp: is_cluster_def\<close>)
  then show le: "lba + sectors_per_cluster v \<le> capacity s" using assms(1) by (simp add: lba_def volume_def)
  have "capacity s \<le> 2 ^ 28" by (rule capacity_bound [OF volume_online [OF assms(1)]])
  then have "lba < 2 ^ 64" using le by simp
  then show "cluster_lba v c = Ok lba" using assms(2) by (simp add: cluster_lba_def lba_def is_cluster_def)
qed

lemma length_cluster_at: "volume v s \<Longrightarrow> length (cluster_at v s c) = cluster_bytes v"
proof -
  assume v: "volume v s"
  have "length (concat (map (sector_at s) [a..<a + n])) = n * SECTOR_SIZE" for a n
    using disk.content_length [OF volume_online [OF v]] by (induction n) simp_all
  then show ?thesis by (simp add: cluster_at_def cluster_bytes_def Let_def)
qed

lemma read_cluster_ok:
  assumes "volume v s" "is_cluster v c" "length b = cluster_bytes v"
  shows "\<exists>s'. read_cluster v c b s = (Ok (cluster_at v s c), s') \<and> same_disk s s'"
proof -
  note l = cluster_lba_ok [OF assms(1,2)]
  have "0 < sectors_per_cluster v" using assms(1) by (simp add: volume_def)
  then show ?thesis
    using dev_read_online [OF volume_online [OF assms(1)] _ _ l(2), of b] l(1) assms(3)
    by (auto simp: read_cluster_def cluster_at_def cluster_bytes_def Let_def)
qed

lemma concat_subslices:
  assumes "length b = n * w"
  shows "concat (map (\<lambda>l. subslice b ((l - a) * w) ((l - a) * w + w)) [a..<a + n]) = b"
proof -
  have "concat (map (\<lambda>l. subslice b ((l - a) * w) ((l - a) * w + w)) [a..<a + k]) = take (k * w) b" for k
  proof (induction k)
    case (Suc k)
    have "take (Suc k * w) b = take (k * w) b @ take w (drop (k * w) b)"
      by (simp only: take_add [symmetric]) (simp add: add.commute)
    then show ?case using Suc by (simp add: subslice_def)
  qed simp
  then show ?thesis using assms by simp
qed

definition only_cluster :: "fat32 \<Rightarrow> nat \<Rightarrow> bytes \<Rightarrow> blk \<Rightarrow> blk \<Rightarrow> bool" where
  "only_cluster v c b s s' \<longleftrightarrow> volume v s' \<and> capacity s' = capacity s \<and> (\<forall>l < data_lba v. sector_at s' l = sector_at s l) \<and>
     (\<forall>d. is_cluster v d \<longrightarrow> cluster_at v s' d = (if d = c then b else cluster_at v s d))"

lemma only_cluster_fat:
  assumes "only_cluster v c b s s'" "volume v s"
  shows "table_is v s' (fat_at v s)"
  using assms fat_lba_bounds(1) [OF assms(2)] by (simp add: only_cluster_def table_is_def fat_at_def)

lemma cluster_extent:
  assumes "is_cluster v c" "is_cluster v d" "c \<noteq> d" "j < sectors_per_cluster v"
  shows "(d - 2) * sectors_per_cluster v + j < (c - 2) * sectors_per_cluster v \<or>
    (c - 2) * sectors_per_cluster v + sectors_per_cluster v \<le> (d - 2) * sectors_per_cluster v + j"
proof (cases "d < c")
  case True
  then have "Suc (d - 2) * sectors_per_cluster v \<le> (c - 2) * sectors_per_cluster v"
    using assms by (intro mult_le_mono1) (auto simp: is_cluster_def)
  then show ?thesis using assms(4) by simp
next
  case False
  then have "Suc (c - 2) * sectors_per_cluster v \<le> (d - 2) * sectors_per_cluster v"
    using assms by (intro mult_le_mono1) (auto simp: is_cluster_def)
  then show ?thesis by simp
qed

lemma write_cluster_ok:
  assumes "volume v s" "is_cluster v c" "length b = cluster_bytes v"
  shows "\<exists>s'. write_cluster v c b s = (Ok (), s') \<and> only_cluster v c b s s'"
proof -
  note l = cluster_lba_ok [OF assms(1,2)]
  let ?lba = "data_lba v + (c - 2) * sectors_per_cluster v" and ?n = "sectors_per_cluster v"
  have "0 < ?n" using assms(1) by (simp add: volume_def)
  then obtain s' where s': "dev_write ?lba ?n b s = (Ok (), s')" "online s'" "capacity s' = capacity s"
    "sector_at s' = (\<lambda>l. if ?lba \<le> l \<and> l < ?lba + ?n
      then subslice b ((l - ?lba) * SECTOR_SIZE) ((l - ?lba) * SECTOR_SIZE + SECTOR_SIZE) else sector_at s l)"
    using dev_write_online [OF volume_online [OF assms(1)] _ _ l(2), of b] assms(3) by (auto simp: cluster_bytes_def)
  have "cluster_at v s' d = (if d = c then b else cluster_at v s d)" if d: "is_cluster v d" for d
  proof (cases "d = c")
    case True
    have "map (sector_at s') [?lba..<?lba + ?n] =
        map (\<lambda>l. subslice b ((l - ?lba) * SECTOR_SIZE) ((l - ?lba) * SECTOR_SIZE + SECTOR_SIZE)) [?lba..<?lba + ?n]"
      by (simp add: s'(4))
    then show ?thesis
      using True concat_subslices [of b ?n SECTOR_SIZE ?lba] assms(3) [unfolded cluster_bytes_def]
      by (simp only: cluster_at_def Let_def if_True simp_thms)
  next
    case False
    have "sector_at s' l = sector_at s l"
      if l: "data_lba v + (d - 2) * ?n \<le> l" "l < data_lba v + (d - 2) * ?n + ?n" for l
    proof -
      obtain j where "l = data_lba v + (d - 2) * ?n + j" "j < ?n"
        using l by (metis le_Suc_ex nat_add_left_cancel_less)
      then show ?thesis using cluster_extent [OF assms(2) d _ \<open>j < ?n\<close>] False by (auto simp: s'(4))
    qed
    then have "map (sector_at s') [data_lba v + (d - 2) * ?n..<data_lba v + (d - 2) * ?n + ?n] =
        map (sector_at s) [data_lba v + (d - 2) * ?n..<data_lba v + (d - 2) * ?n + ?n]" by simp
    then show ?thesis using False by (simp only: cluster_at_def Let_def if_False simp_thms)
  qed
  then have "only_cluster v c b s s'"
    using s'(2,3) assms(1) by (simp add: only_cluster_def volume_def s'(4))
  then show ?thesis using s'(1) l(1) by (auto simp: write_cluster_def)
qed

section \<open>Chains\<close>

fun linked_chain :: "(nat \<Rightarrow> nat) \<Rightarrow> nat list \<Rightarrow> bool" where
  "linked_chain T [] \<longleftrightarrow> False"
| "linked_chain T [c] \<longleftrightarrow> 0x0FFFFFF8 \<le> T c mod 2 ^ 28"
| "linked_chain T (c # d # cs) \<longleftrightarrow> T c mod 2 ^ 28 = d \<and> linked_chain T (d # cs)"

definition chain_of :: "fat32 \<Rightarrow> blk \<Rightarrow> nat list \<Rightarrow> bool" where
  "chain_of v s cs \<longleftrightarrow> linked_chain (fat_at v s 0) cs \<and> list_all (is_cluster v) cs"

lemma linked_chain_det:
  assumes "linked_chain T (c # xs)" "linked_chain T (c # ys)" "\<forall>x \<in> set xs \<union> set ys. x < 0x0FFFFFF8"
  shows "xs = ys"
  using assms
proof (induction xs arbitrary: c ys)
  case Nil
  then show ?case by (cases ys) auto
next
  case (Cons x xs)
  then show ?case by (cases ys) auto
qed

lemma linked_chain_suffix: "linked_chain T (as @ c # cs) \<Longrightarrow> linked_chain T (c # cs)"
proof (induction as)
  case (Cons a as)
  then show ?case by (cases as) auto
qed simp

lemma linked_chain_distinct:
  assumes "linked_chain T cs" "\<forall>c \<in> set cs. c < 0x0FFFFFF8"
  shows "distinct cs"
  using assms
proof (induction cs)
  case (Cons c cs)
  have "c \<notin> set cs"
  proof
    assume "c \<in> set cs"
    then obtain as bs where cs: "cs = as @ c # bs" by (meson split_list)
    have "linked_chain T (c # bs)" using Cons.prems(1) linked_chain_suffix [of T "c # as"] cs by simp
    then have "cs = bs" using linked_chain_det [OF Cons.prems(1)] Cons.prems(2) cs by auto
    then have "length cs = length bs" by simp
    then show False using cs by simp
  qed
  moreover have "distinct cs"
  proof (cases cs)
    case (Cons d ds)
    then show ?thesis using Cons.IH Cons.prems by simp
  qed simp
  ultimately show ?case by simp
qed simp

lemma chain_of_facts:
  assumes "volume v s" "chain_of v s cs"
  shows "cs \<noteq> []" "distinct cs" "length cs \<le> total_clusters v" "c \<in> set cs \<Longrightarrow> is_cluster v c"
proof -
  have ic: "c \<in> set cs \<Longrightarrow> is_cluster v c" for c using assms(2) by (auto simp: chain_of_def list_all_iff)
  show "cs \<noteq> []" using assms(2) by (auto simp: chain_of_def)
  have "\<forall>c \<in> set cs. c < 0x0FFFFFF8"
  proof
    fix c assume "c \<in> set cs"
    then show "c < 0x0FFFFFF8" using ic [of c] volume_small [OF assms(1)] unfolding is_cluster_def by linarith
  qed
  then show d: "distinct cs" using assms(2) linked_chain_distinct by (auto simp: chain_of_def)
  have "card (set cs) \<le> card {2..<2 + total_clusters v}"
    using ic by (intro card_mono) (auto simp: is_cluster_def)
  then show "length cs \<le> total_clusters v" using distinct_card [OF d] by simp
  show "c \<in> set cs \<Longrightarrow> is_cluster v c" by (rule ic)
qed

lemma walk_loop_ok:
  assumes "volume v s" "chain_of v s cs" "length cs \<le> Suc k"
  shows "\<exists>s'. walk_loop v k (hd cs) s = (Ok cs, s') \<and> same_disk s s'"
  using assms
proof (induction k arbitrary: s cs)
  case 0
  then obtain c where "cs = [c]" by (cases cs) (auto simp: chain_of_def)
  then show ?case using 0 by (simp add: volume_def)
next
  case (Suc k)
  obtain c ds where cs: "cs = c # ds" using Suc.prems(2) by (cases cs) (auto simp: chain_of_def)
  have c: "c < 2 + total_clusters v" using Suc.prems(2) cs by (simp add: chain_of_def is_cluster_def)
  obtain s1 where s1: "fat_entry v c s = (Ok (fat_at v s 0 c), s1)" "same_disk s s1"
    using fat_entry_ok [OF Suc.prems(1) c] by blast
  show ?case
  proof (cases ds)
    case Nil
    then have "next_cluster v c s = (Ok None, s1)"
      using Suc.prems(2) cs s1(1) by (simp add: next_cluster_def chain_of_def Let_def)
    then show ?thesis using cs Nil s1(2) by auto
  next
    case (Cons d es)
    have d: "is_cluster v d" "fat_at v s 0 c mod 2 ^ 28 = d" "chain_of v s ds"
      using Suc.prems(2) cs Cons by (simp_all add: chain_of_def)
    have "d < 0x0FFFFFF8" using d(1) volume_small [OF Suc.prems(1)] unfolding is_cluster_def by linarith
    then have n: "next_cluster v c s = (Ok (Some d), s1)"
      using d(1,2) s1(1) by (simp add: next_cluster_def is_cluster_def Let_def)
    have v1: "volume v s1" "chain_of v s1 ds"
      using same_disk_views [OF s1(2)] Suc.prems(1) d(3) by (simp_all add: chain_of_def)
    obtain s2 where "walk_loop v k d s1 = (Ok ds, s2)" "same_disk s1 s2"
      using Suc.IH [OF v1] Suc.prems(3) cs Cons by auto
    then show ?thesis using cs n same_disk_trans [OF s1(2)] by auto
  qed
qed

lemma walk_chain_ok:
  assumes "volume v s" "chain_of v s cs"
  shows "\<exists>s'. walk_chain v (hd cs) (total_clusters v) s = (Ok cs, s') \<and> same_disk s s'"
  using walk_loop_ok [OF assms, of "total_clusters v - 1"] chain_of_facts(3) [OF assms] by (simp add: walk_chain_def)

lemma linked_chain_nth:
  "linked_chain T cs \<longleftrightarrow> cs \<noteq> [] \<and> (\<forall>i. Suc i < length cs \<longrightarrow> T (cs ! i) mod 2 ^ 28 = cs ! Suc i) \<and>
    0x0FFFFFF8 \<le> T (last cs) mod 2 ^ 28"
proof (induction T cs rule: linked_chain.induct)
  case (3 T c d cs)
  have "(\<forall>i. Suc i < length (c # d # cs) \<longrightarrow> T ((c # d # cs) ! i) mod 2 ^ 28 = (c # d # cs) ! Suc i) \<longleftrightarrow>
      T c mod 2 ^ 28 = d \<and> (\<forall>i. Suc i < length (d # cs) \<longrightarrow> T ((d # cs) ! i) mod 2 ^ 28 = (d # cs) ! Suc i)"
    by (auto simp: less_Suc_eq_0_disj nth_Cons split: nat.splits)
  then show ?case using 3 by simp
qed simp_all

lemma linked_chain_cong: "linked_chain T cs \<Longrightarrow> (\<And>c. c \<in> set cs \<Longrightarrow> T' c = T c) \<Longrightarrow> linked_chain T' cs"
  by (induction T cs rule: linked_chain.induct) auto

lemma linked_chain_nonzero: "linked_chain T cs \<Longrightarrow> \<forall>c \<in> set cs. 2 \<le> c \<Longrightarrow> c \<in> set cs \<Longrightarrow> T c \<noteq> 0"
  by (induction T cs rule: linked_chain.induct) auto

lemma chain_of_cong:
  assumes "chain_of v s cs" "\<And>c. c \<in> set cs \<Longrightarrow> fat_at v s' 0 c = fat_at v s 0 c"
  shows "chain_of v s' cs"
  using assms linked_chain_cong by (fastforce simp: chain_of_def)

lemma chain_of_take:
  assumes "chain_of v s cs" "0 < k" "k \<le> length cs"
    and "\<And>i. i < k - 1 \<Longrightarrow> fat_at v s' 0 (cs ! i) = fat_at v s 0 (cs ! i)" "fat_at v s' 0 (cs ! (k - 1)) = EOC"
  shows "chain_of v s' (take k cs)"
proof -
  have l: "linked_chain (fat_at v s 0) cs" "list_all (is_cluster v) cs" using assms(1) by (simp_all add: chain_of_def)
  have "last (take k cs) = cs ! (k - 1)" using assms(2,3) by (subst last_conv_nth) (auto simp: min_def)
  then have "linked_chain (fat_at v s' 0) (take k cs)"
    unfolding linked_chain_nth using l(1) assms(2-5) by (auto simp: linked_chain_nth EOC_def)
  moreover have "list_all (is_cluster v) (take k cs)" using l(2) by (auto simp: list_all_iff dest: in_set_takeD)
  ultimately show ?thesis by (simp add: chain_of_def)
qed

lemma clear_entries:
  assumes "volume v s" "\<forall>c \<in> set cs. c < 2 + total_clusters v"
  shows "\<exists>s'. forP (\<lambda>c. set_fat_entry v c 0) cs s = (Ok (), s') \<and> only_table v s s' \<and>
    table_is v s' (\<lambda>f d. if d \<in> set cs then 0 else fat_at v s f d)"
  using assms
proof (induction cs arbitrary: s)
  case Nil
  then show ?case using only_table_refl [of v s s] table_self [of v s] by (simp add: volume_def)
next
  case (Cons c cs)
  obtain s1 where s1: "set_fat_entry v c 0 s = (Ok (), s1)" "only_table v s s1"
    "table_is v s1 (set_entry c 0 (fat_at v s))"
    using set_fat_entry_ok [OF Cons.prems(1), of c 0] Cons.prems(2) by auto
  obtain s2 where s2: "forP (\<lambda>c. set_fat_entry v c 0) cs s1 = (Ok (), s2)" "only_table v s1 s2"
    "table_is v s2 (\<lambda>f d. if d \<in> set cs then 0 else fat_at v s1 f d)"
    using Cons.IH [OF only_table_volume [OF s1(2)]] Cons.prems(2) by auto
  have "table_is v s2 (\<lambda>f d. if d \<in> set (c # cs) then 0 else fat_at v s f d)"
    using s2(3) s1(3) by (simp add: table_is_def set_entry_def)
  then show ?case using s1(1) s2(1) only_table_trans [OF s1(2) s2(2)] by auto
qed

text \<open>The table after a chain was cut after \<open>keep\<close> clusters.\<close>

definition cut_chain :: "nat list \<Rightarrow> nat \<Rightarrow> (nat \<Rightarrow> nat \<Rightarrow> nat) \<Rightarrow> nat \<Rightarrow> nat \<Rightarrow> nat" where
  "cut_chain cs keep T f d =
     (if 0 < keep \<and> d = cs ! (keep - 1) then EOC else if d \<in> set (drop keep cs) then 0 else T f d)"

lemma free_from_ok:
  assumes "volume v s" "chain_of v s cs" "keep \<le> length cs"
  shows "\<exists>s'. free_from v (hd cs) keep s = (Ok (), s') \<and> only_table v s s' \<and> table_is v s' (cut_chain cs keep (fat_at v s))"
proof -
  note cf = chain_of_facts [OF assms(1,2)]
  have lt: "c < 2 + total_clusters v" if "c \<in> set cs" for c using cf(4) [OF that] by (simp add: is_cluster_def)
  obtain s1 where s1: "walk_chain v (hd cs) (total_clusters v) s = (Ok cs, s1)" "same_disk s s1"
    using walk_chain_ok [OF assms(1,2)] by blast
  note w = same_disk_views [OF s1(2)]
  have dr: "\<forall>c \<in> set (drop keep cs). c < 2 + total_clusters v" using lt by (blast dest: in_set_dropD)
  obtain s2 where s2: "forP (\<lambda>c. set_fat_entry v c 0) (drop keep cs) s1 = (Ok (), s2)" "only_table v s1 s2"
    "table_is v s2 (\<lambda>f d. if d \<in> set (drop keep cs) then 0 else fat_at v s f d)"
    using clear_entries [OF w(3) [OF assms(1)] dr] unfolding w(1) by blast
  have o2: "only_table v s s2" by (rule only_table_trans [OF only_table_refl [OF assms(1) s1(2)] s2(2)])
  show ?thesis
  proof (cases "keep = 0")
    case True
    then show ?thesis using s1(1) s2(1,3) o2 by (auto simp: free_from_def cut_chain_def table_is_def)
  next
    case False
    then have k: "keep - 1 < length cs" using assms(3) by simp
    obtain s3 where s3: "set_fat_entry v (cs ! (keep - 1)) EOC s2 = (Ok (), s3)" "only_table v s2 s3"
      "table_is v s3 (set_entry (cs ! (keep - 1)) EOC (fat_at v s2))"
      using set_fat_entry_ok [OF only_table_volume [OF o2] lt [OF nth_mem [OF k]], of EOC] by (auto simp: EOC_def)
    have "table_is v s3 (cut_chain cs keep (fat_at v s))"
      using table_set_entry [OF s3(3) s2(3)] False by (simp add: table_is_def set_entry_def cut_chain_def)
    then show ?thesis
      using False k s1(1) s2(1) s3(1) only_table_trans [OF o2 s3(2)] by (auto simp: free_from_def)
  qed
qed

lemma chain_append:
  assumes "volume v s" "chain_of v s cs" "is_cluster v c" "fat_at v s 0 c = 0" "volume v s'"
    and "table_is v s' (link (Some (last cs)) c (fat_at v s))"
  shows "chain_of v s' (cs @ [c])"
proof -
  note cf = chain_of_facts [OF assms(1,2)]
  have l: "linked_chain (fat_at v s 0) cs" "list_all (is_cluster v) cs" using assms(2) by (simp_all add: chain_of_def)
  have nc: "c \<notin> set cs" using linked_chain_nonzero [OF l(1), of c] l(2) assms(4) by (auto simp: list_all_iff is_cluster_def)
  have T: "fat_at v s' 0 d = ((fat_at v s 0)(c := EOC, last cs := c)) d" if "d < 2 + total_clusters v" for d
    using table_isD [OF assms(6,5) that] by (simp add: link_def set_entry_def)
  have Tc: "fat_at v s' 0 c = EOC" using T [of c] assms(3) nc last_in_set [OF cf(1)] by (auto simp: is_cluster_def)
  have Tl: "fat_at v s' 0 (last cs) = c"
    using T [of "last cs"] cf(4) [OF last_in_set [OF cf(1)]] by (auto simp: is_cluster_def)
  have Ti: "fat_at v s' 0 (cs ! i) = fat_at v s 0 (cs ! i)" if i: "Suc i < length cs" for i
  proof -
    have "cs ! i \<noteq> last cs" using cf(1,2) i by (simp add: last_conv_nth nth_eq_iff_index_eq)
    moreover have "cs ! i \<in> set cs" using i by simp
    ultimately show ?thesis using T [of "cs ! i"] nc cf(4) [of "cs ! i"] by (auto simp: is_cluster_def)
  qed
  have "c mod 2 ^ 28 = c"
    using assms(3) volume_small [OF assms(1)] by (simp add: is_cluster_def)
  have "fat_at v s' 0 ((cs @ [c]) ! i) mod 2 ^ 28 = (cs @ [c]) ! Suc i" if i: "Suc i < length (cs @ [c])" for i
  proof (cases "Suc i < length cs")
    case True
    then show ?thesis using l(1) Ti [OF True] by (simp add: linked_chain_nth nth_append)
  next
    case False
    then have "Suc i = length cs" using i by simp
    then have "(cs @ [c]) ! i = last cs" "(cs @ [c]) ! Suc i = c"
      using last_conv_nth [OF cf(1)] by (simp_all add: nth_append flip: \<open>Suc i = length cs\<close>)
    then show ?thesis using Tl \<open>c mod 2 ^ 28 = c\<close> by simp
  qed
  then have "linked_chain (fat_at v s' 0) (cs @ [c])"
    using Tc by (simp add: linked_chain_nth EOC_def)
  then show ?thesis using l(2) assms(3) by (simp add: chain_of_def)
qed

section \<open>Chains on arbitrary media\<close>

lemma fat_entry_total:
  assumes "coherent s" "part_start v + reserved v \<le> 2 ^ 63" "c < 2 ^ 32"
  shows "\<exists>r s'. fat_entry v c s = (r, s') \<and> r \<noteq> Panic \<and> unchanged s s'"
proof -
  define k where "k = c div 128"
  have "k \<le> c" by (simp add: k_def)
  then have l: "fat_lba v 0 c + 1 + READ_AHEAD \<le> 2 ^ 64" "fat_lba v 0 c < 2 ^ 64"
    using assms(2,3) unfolding fat_lba_def entry_in_sector READ_AHEAD_def k_def [symmetric] by simp_all
  obtain r s' where r: "read_sectors (fat_lba v 0 c) 1 (replicate SECTOR_SIZE 0) s = (r, s')" "unchanged s s'" "r \<noteq> Panic"
    using read_sectors_spec [OF assms(1) _ _ l(1)] by (metis length_replicate mult_1 zero_less_one)
  then show ?thesis
    using l(2) by (cases r) (simp_all add: fat_entry_def dev_read_def map_errP_def Let_def)
qed

lemma walk_loop_total:
  assumes "coherent s" "part_start v + reserved v \<le> 2 ^ 63" "c < 2 ^ 32"
  shows "\<exists>r s'. walk_loop v k c s = (r, s') \<and> r \<noteq> Panic \<and> unchanged s s' \<and>
    (\<forall>cs. r = Ok cs \<longrightarrow> cs \<noteq> [] \<and> hd cs = c \<and> length cs \<le> Suc k)"
  using assms
proof (induction k arbitrary: s c)
  case 0
  then show ?case by simp
next
  case (Suc k)
  obtain r s1 where r: "fat_entry v c s = (r, s1)" "r \<noteq> Panic" "unchanged s s1"
    using fat_entry_total [OF Suc.prems] by blast
  have co: "coherent s1" using r(3) by (simp add: unchanged_def)
  show ?case
  proof (cases r)
    case (Ok x)
    let ?e = "x mod 2 ^ 28"
    show ?thesis
    proof (cases "2 \<le> ?e \<and> ?e < 0x0FFFFFF8")
      case True
      then have n: "next_cluster v c s = (Ok (Some ?e), s1)" using Ok r(1) by (simp add: next_cluster_def Let_def)
      have "?e < 2 ^ 32" by (rule less_le_trans [of _ "2 ^ 28"]) simp_all
      then obtain q s2 where q: "walk_loop v k ?e s1 = (q, s2)" "q \<noteq> Panic" "unchanged s1 s2"
        "\<forall>cs. q = Ok cs \<longrightarrow> cs \<noteq> [] \<and> hd cs = ?e \<and> length cs \<le> Suc k"
        using Suc.IH [OF co Suc.prems(2)] by blast
      then show ?thesis using n unchanged_trans [OF r(3) q(3)] by (cases q) auto
    next
      case False
      then have "next_cluster v c s = (Ok None, s1) \<or> next_cluster v c s = (Err BadFs, s1)"
        using Ok r(1) by (auto simp: next_cluster_def Let_def)
      then show ?thesis using r(3) by auto
    qed
  next
    case (Err e)
    then show ?thesis using r by (simp add: next_cluster_def)
  qed (use r(2) in simp)
qed

section \<open>Properties\<close>

text \<open>A small volume: two table copies, ninety clusters, and the chain from cluster 2 to cluster 5.\<close>

definition sample_vol :: fat32 where
  "sample_vol = \<lparr>part_start = 0, sectors_per_cluster = 1, reserved = 1, num_fats = 2, fat_sectors = 1,
     root_cluster = 2, total_clusters = 90\<rparr>"

definition sample_table :: "u16 list" where
  "sample_table = [0xFFF8, 0x0FFF, 0xFFFF, 0x0FFF, 5, 0, 0, 0, 0, 0, 0xFFFF, 0x0FFF] @ replicate 244 0"

definition sample_fat :: blk where
  "sample_fat = sample_blk\<lparr>dev := sample_drive\<lparr>medium := (\<lambda>l. if l \<in> {1, 2} then sample_table else replicate 256 0)\<rparr>\<rparr>"

lemma sample_fat_online: "online sample_fat"
proof -
  have "small_disk (dev sample_fat)"
    using sample_drive_ok(2) by (simp add: sample_fat_def small_disk_def sample_drive_def sample_table_def)
  moreover have "ready (dev sample_fat)"
    using sample_drive_ok(1) by (simp add: sample_fat_def ready_def sample_drive_def)
  ultimately show ?thesis
    using cache_wf_new by (simp add: online_def coherent_def sample_fat_def sample_blk_def)
qed

lemma sample_volume: "volume sample_vol sample_fat"
  using sample_fat_online
  by (simp add: volume_def sample_vol_def data_lba_def SECTOR_SIZE_def capacity_def sample_fat_def sample_drive_def)

lemma sample_entries:
  "fat_at sample_vol sample_fat 0 2 = 5" "fat_at sample_vol sample_fat 0 3 = 0" "fat_at sample_vol sample_fat 0 5 = EOC"
  by (simp_all add: fat_at_def fat_lba_def sample_vol_def sample_fat_def sector_at_def sample_table_def SECTOR_SIZE_def
    sector_bytes_def word_bytes_def subslice_def EOC_def)

lemma sample_chain: "chain_of sample_vol sample_fat [2, 5]"
  using sample_entries by (simp add: chain_of_def EOC_def is_cluster_def sample_vol_def)

text \<open>
  C36. Table updates are mirrored: writing a table entry succeeds on an online volume, gives the entry
  its new value in every copy of the table, changes no other entry, and touches no sector outside
  the tables.
\<close>

theorem set_fat_entry_mirrors:
  assumes "volume v s" "c < 2 + total_clusters v" "val < 2 ^ 32"
  shows "\<exists>s'. set_fat_entry v c val s = (Ok (), s') \<and> volume v s' \<and>
    (\<forall>f < num_fats v. \<forall>d < 2 + total_clusters v. fat_at v s' f d = (if d = c then val else fat_at v s f d)) \<and>
    (\<forall>l. l < part_start v + reserved v \<or> data_lba v \<le> l \<longrightarrow> sector_at s' l = sector_at s l)"
  using set_fat_entry_ok [OF assms] by (auto simp: only_table_def table_is_def set_entry_def)

theorem set_fat_entry_mirrors_witness:
  "\<exists>s'. set_fat_entry sample_vol 7 9 sample_fat = (Ok (), s') \<and> volume sample_vol s' \<and>
    fat_at sample_vol s' 0 7 = 9 \<and> fat_at sample_vol s' 1 7 = 9 \<and> fat_at sample_vol s' 0 2 = 5 \<and>
    sector_at s' 40 = sector_at sample_fat 40"
  using set_fat_entry_mirrors [OF sample_volume, of 7 9] sample_entries
  by (auto simp: sample_vol_def data_lba_def)

text \<open>
  Allocation extends a chain by the lowest free cluster: it is put at the end of the given chain,
  chains that share no cluster with it are untouched, and so is the content of every cluster. When
  no cluster is free the answer is \<open>NoSpace\<close> and nothing changes.
\<close>

theorem alloc_extends_chain:
  assumes "volume v s" "chain_of v s cs"
  shows "\<exists>r s'. alloc_cluster v (Some (last cs)) s = (r, s') \<and> volume v s' \<and> cluster_at v s' = cluster_at v s \<and>
    (case r of
       Ok c \<Rightarrow> is_cluster v c \<and> fat_at v s 0 c = 0 \<and> (\<forall>d. is_cluster v d \<and> fat_at v s 0 d = 0 \<longrightarrow> c \<le> d) \<and>
         chain_of v s' (cs @ [c]) \<and> (\<forall>ds. chain_of v s ds \<and> set ds \<inter> set cs = {} \<longrightarrow> chain_of v s' ds)
     | Err e \<Rightarrow> e = NoSpace \<and> (\<forall>d. is_cluster v d \<longrightarrow> fat_at v s 0 d \<noteq> 0) \<and> same_disk s s'
     | Panic \<Rightarrow> False)"
proof -
  note cf = chain_of_facts [OF assms]
  have lc: "last cs \<in> set cs" "last cs < 2 + total_clusters v"
    using cf(4) last_in_set [OF cf(1)] by (auto simp: is_cluster_def)
  have mem: "c \<in> set (free_clusters v s) \<longleftrightarrow> is_cluster v c \<and> fat_at v s 0 c = 0" for c
    by (auto simp: free_clusters_def is_cluster_def)
  show ?thesis
  proof (cases "free_clusters v s")
    case Nil
    then obtain s' where "alloc_cluster v (Some (last cs)) s = (Err NoSpace, s')" "same_disk s s'"
      using alloc_cluster_ok [OF assms(1), of "Some (last cs)"] lc by auto
    then show ?thesis using mem Nil same_disk_views [of s s' v] assms(1) by auto
  next
    case (Cons c fs)
    then obtain s' where s': "alloc_cluster v (Some (last cs)) s = (Ok c, s')" "only_table v s s'"
      "table_is v s' (link (Some (last cs)) c (fat_at v s))"
      using alloc_cluster_ok [OF assms(1), of "Some (last cs)"] lc by auto
    have c: "is_cluster v c" "fat_at v s 0 c = 0" using mem [of c] Cons by auto
    have "sorted (free_clusters v s)" by (simp add: free_clusters_def sorted_wrt_filter del: upt_Suc)
    then have "c \<le> d" if "d \<in> set (free_clusters v s)" for d using that Cons by auto
    then have "\<forall>d. is_cluster v d \<and> fat_at v s 0 d = 0 \<longrightarrow> c \<le> d" using mem by blast
    moreover have "chain_of v s' ds" if ds: "chain_of v s ds" "set ds \<inter> set cs = {}" for ds
    proof (rule chain_of_cong [OF ds(1)])
      fix d assume d: "d \<in> set ds"
      have "fat_at v s 0 d \<noteq> 0"
        using linked_chain_nonzero [of "fat_at v s 0" ds d] ds(1) d by (auto simp: chain_of_def list_all_iff is_cluster_def)
      moreover have "d < 2 + total_clusters v" using chain_of_facts(4) [OF assms(1) ds(1) d] by (simp add: is_cluster_def)
      ultimately show "fat_at v s' 0 d = fat_at v s 0 d"
        using table_isD [OF s'(3) only_table_volume [OF s'(2)]] c(2) d ds(2) lc(1) by (auto simp: link_def set_entry_def)
    qed
    ultimately show ?thesis
      using s'(1) only_table_volume [OF s'(2)] only_table_cluster [OF s'(2)] c
        chain_append [OF assms c only_table_volume [OF s'(2)] s'(3)] by auto
  qed
qed

theorem alloc_extends_chain_witness:
  "\<exists>s'. alloc_cluster sample_vol (Some 5) sample_fat = (Ok 3, s') \<and> chain_of sample_vol s' [2, 5, 3]"
proof -
  obtain r s' where r: "alloc_cluster sample_vol (Some 5) sample_fat = (r, s')"
    "case r of
       Ok c \<Rightarrow> is_cluster sample_vol c \<and> fat_at sample_vol sample_fat 0 c = 0 \<and>
         (\<forall>d. is_cluster sample_vol d \<and> fat_at sample_vol sample_fat 0 d = 0 \<longrightarrow> c \<le> d) \<and>
         chain_of sample_vol s' ([2, 5] @ [c])
     | Err e \<Rightarrow> (\<forall>d. is_cluster sample_vol d \<longrightarrow> fat_at sample_vol sample_fat 0 d \<noteq> 0)
     | Panic \<Rightarrow> False"
    using alloc_extends_chain [OF sample_volume sample_chain] by (fastforce split: res.splits)
  have 3: "is_cluster sample_vol 3" by (simp add: is_cluster_def sample_vol_def)
  with r(2) sample_entries obtain c where c: "r = Ok c" "is_cluster sample_vol c"
    "fat_at sample_vol sample_fat 0 c = 0" "c \<le> 3" "chain_of sample_vol s' [2, 5, c]"
    by (cases r) auto
  have "c \<noteq> 2" using c(3) sample_entries by auto
  then have "c = 3" using c(2,4) by (simp add: is_cluster_def)
  then show ?thesis using r(1) c(1,5) by auto
qed

lemma free_from_chain:
  assumes "volume v s" "chain_of v s cs" "keep \<le> length cs"
  shows "\<exists>s'. free_from v (hd cs) keep s = (Ok (), s') \<and> volume v s' \<and> cluster_at v s' = cluster_at v s \<and>
    (0 < keep \<longrightarrow> chain_of v s' (take keep cs)) \<and> (\<forall>c \<in> set (drop keep cs). fat_at v s' 0 c = 0) \<and>
    (\<forall>ds. chain_of v s ds \<and> set ds \<inter> set cs = {} \<longrightarrow> chain_of v s' ds)"
proof -
  note cf = chain_of_facts [OF assms(1,2)]
  obtain s' where s': "free_from v (hd cs) keep s = (Ok (), s')" "only_table v s s'"
    "table_is v s' (cut_chain cs keep (fat_at v s))"
    using free_from_ok [OF assms] by blast
  have T: "fat_at v s' 0 c = cut_chain cs keep (fat_at v s) 0 c" if "is_cluster v c" for c
    using table_isD [OF s'(3) only_table_volume [OF s'(2)]] that by (simp add: is_cluster_def)
  have at: "i < length cs \<Longrightarrow> fat_at v s' 0 (cs ! i) =
      (if 0 < keep \<and> i = keep - 1 then EOC else if keep \<le> i then 0 else fat_at v s 0 (cs ! i))" for i
  proof -
    assume i: "i < length cs"
    have "cs ! i \<in> set (drop keep cs) \<longleftrightarrow> keep \<le> i"
    proof -
      have "cs ! i \<in> set (drop keep cs) \<longleftrightarrow> (\<exists>j. keep + j < length cs \<and> cs ! (keep + j) = cs ! i)"
        by (auto simp: in_set_conv_nth less_diff_conv add.commute)
      also have "\<dots> \<longleftrightarrow> (\<exists>j. keep + j = i)" using i cf(2) by (auto simp: nth_eq_iff_index_eq)
      finally show ?thesis by (auto simp: le_iff_add)
    qed
    then show ?thesis using T [of "cs ! i"] cf(4) i cf(2) assms(3) by (auto simp: cut_chain_def nth_eq_iff_index_eq)
  qed
  have "chain_of v s' (take keep cs)" if "0 < keep"
    by (rule chain_of_take [OF assms(2) that assms(3)]) (use at that assms(3) in auto)
  moreover have "fat_at v s' 0 c = 0" if "c \<in> set (drop keep cs)" for c
  proof -
    obtain j where "c = cs ! (keep + j)" "keep + j < length cs" using \<open>c \<in> set (drop keep cs)\<close> by (auto simp: in_set_conv_nth)
    then show ?thesis using at [of "keep + j"] by auto
  qed
  moreover have "chain_of v s' ds" if ds: "chain_of v s ds" "set ds \<inter> set cs = {}" for ds
  proof (rule chain_of_cong [OF ds(1)])
    fix d assume d: "d \<in> set ds"
    then have "d \<notin> set cs" using ds(2) by auto
    moreover have "0 < keep \<Longrightarrow> cs ! (keep - 1) \<in> set cs" using assms(3) by simp
    ultimately show "fat_at v s' 0 d = fat_at v s 0 d"
      using T [OF chain_of_facts(4) [OF assms(1) ds(1) d]] by (auto simp: cut_chain_def dest: in_set_dropD)
  qed
  ultimately show ?thesis
    using s'(1) only_table_volume [OF s'(2)] only_table_cluster [OF s'(2)] by blast
qed

text \<open>
  Freeing the tail of a chain: the first \<open>keep\<close> clusters stay a chain, the entries of the others
  become free, chains that share no cluster with it are untouched, and so is the content of every
  cluster.
\<close>

theorem free_from_truncates:
  assumes "volume v s" "chain_of v s cs" "keep \<le> length cs"
  shows "\<exists>s'. free_from v (hd cs) keep s = (Ok (), s') \<and> volume v s' \<and> cluster_at v s' = cluster_at v s \<and>
    (0 < keep \<longrightarrow> chain_of v s' (take keep cs)) \<and> (\<forall>c \<in> set (drop keep cs). fat_at v s' 0 c = 0) \<and>
    (\<forall>ds. chain_of v s ds \<and> set ds \<inter> set cs = {} \<longrightarrow> chain_of v s' ds)"
  by (rule free_from_chain [OF assms])

theorem free_from_truncates_witness:
  "\<exists>s'. free_from sample_vol 2 1 sample_fat = (Ok (), s') \<and> chain_of sample_vol s' [2] \<and> fat_at sample_vol s' 0 5 = 0"
  using free_from_truncates [OF sample_volume sample_chain, of 1] by auto

text \<open>
  C37. Walking a chain ends on every medium: whatever the table holds (cycles, entries out of range, a
  device that fails), the walk returns after at most \<open>max\<close> clusters, starts with the given cluster,
  never panics and changes nothing.
\<close>

theorem walk_chain_terminates:
  assumes "coherent s" "part_start v + reserved v \<le> 2 ^ 63" "first < 2 ^ 32"
  shows "\<exists>r s'. walk_chain v first mx s = (r, s') \<and> r \<noteq> Panic \<and> coherent s' \<and>
    medium (dev s') = medium (dev s) \<and>
    (\<forall>cs. r = Ok cs \<longrightarrow> cs \<noteq> [] \<and> hd cs = first \<and> length cs \<le> max 1 mx)"
proof -
  obtain r s' where r: "walk_loop v (mx - 1) first s = (r, s')" "r \<noteq> Panic" "unchanged s s'"
    "\<forall>cs. r = Ok cs \<longrightarrow> cs \<noteq> [] \<and> hd cs = first \<and> length cs \<le> Suc (mx - 1)"
    using walk_loop_total [OF assms] by blast
  have "Suc (mx - 1) = max 1 mx" by simp
  then show ?thesis using r by (auto simp: walk_chain_def unchanged_def)
qed

theorem walk_chain_terminates_witness:
  "\<exists>r s'. walk_chain sample_vol 2 3 sample_blk = (r, s') \<and> r \<noteq> Panic \<and> coherent s'"
  using walk_chain_terminates [OF sample_blk_coherent, of sample_vol 2 3] by (auto simp: sample_vol_def)

definition boot_sector :: "nat \<Rightarrow> nat \<Rightarrow> nat \<Rightarrow> bytes" where
  "boot_sector fats fsz total32 =
     replicate 11 0 @ to_le 2 512 @ [1] @ to_le 2 32 @ [of_nat fats] @ replicate 15 0 @ to_le 4 total32 @
     to_le 4 fsz @ replicate 4 0 @ to_le 4 2 @ replicate 464 0"

text \<open>
  The checks of \<open>mount\<close> are incomplete: a boot sector with plausible fields makes it panic on an
  arithmetic overflow, and another one is accepted although its table is too short, so that the
  table entry of the last cluster lies in the data area.
\<close>

theorem mount_checks_incomplete:
  "parse_bpb start (boot_sector 2 0x80000000 100000) = Panic \<and>
   (\<exists>v. parse_bpb start (boot_sector 2 1 100000) = Ok v \<and> data_lba v \<le> fat_lba v 1 (1 + total_clusters v))"
proof -
  have four: "(4 :: nat) = Suc (Suc (Suc (Suc 0)))" by simp
  have le: "to_le 2 x = [of_nat x, of_nat (x div 256)]"
    "to_le 4 x = [of_nat x, of_nat (x div 256), of_nat (x div 256 div 256), of_nat (x div 256 div 256 div 256)]" for x
    unfolding numeral_2_eq_2 four by simp_all
  have z: "le_nat (replicate n 0) = 0" for n by (induction n) simp_all
  show ?thesis
    by (simp add: z parse_bpb_def boot_sector_def le subslice_def SECTOR_SIZE_def mul_u32_def add_u32_def
      nth_append data_lba_def fat_lba_def)
qed

end
