(* ===== verification/Fat_Files.thy ===== *)
theory Fat_Files
  imports Fat_Volume Fat_Lfn
begin

text \<open>
  FAT32 directories and files: the path operations of \<open>kernel/src/fat.rs\<close> that the virtual file system
  calls. The clock value \<open>now\<close> is what \<open>now_unix()\<close> returns during the operation (interrupts are off
  in a system call, so the tick count does not move).
\<close>

unbundle bit_operations_syntax

section \<open>Directories\<close>

datatype resolution = Root | Entry raw_entry

definition zero_cluster :: "fat32 \<Rightarrow> bytes" where
  "zero_cluster v = replicate (cluster_bytes v) 0"

primrec scan_clusters :: "fat32 \<Rightarrow> nat \<Rightarrow> nat \<Rightarrow> nat list \<Rightarrow> lfn_run \<Rightarrow> raw_entry list fsp" where
  "scan_clusters v dir ix [] run = retP []"
| "scan_clusters v dir ix (c # cs) run =
     bindP (read_cluster v c (zero_cluster v)) (\<lambda>buf.
     bindP (liftP (scan_slots dir ix (chunks_exact 32 buf) run)) (\<lambda>(es, run', fin).
     if fin then retP es
     else bindP (scan_clusters v dir (ix + cluster_bytes v div 32) cs run') (\<lambda>es'. retP (es @ es'))))"

definition scan_dir :: "fat32 \<Rightarrow> nat \<Rightarrow> raw_entry list fsp" where
  "scan_dir v dir =
     bindP (walk_chain v dir (total_clusters v)) (\<lambda>cs. scan_clusters v dir 0 cs no_run)"

definition entry_matches :: "string \<Rightarrow> raw_entry \<Rightarrow> bool" where
  "entry_matches name e \<longleftrightarrow> eq_ignore_ascii_case (re_name e) name \<or> eq_ignore_ascii_case (re_short e) name"

definition find_in :: "fat32 \<Rightarrow> nat \<Rightarrow> string \<Rightarrow> raw_entry option fsp" where
  "find_in v dir name = bindP (scan_dir v dir) (\<lambda>es. retP (find (entry_matches name) es))"

primrec walk_parents :: "fat32 \<Rightarrow> nat \<Rightarrow> string list \<Rightarrow> nat fsp" where
  "walk_parents v dir [] = retP dir"
| "walk_parents v dir (name # names) =
     bindP (find_in v dir name) (\<lambda>r.
       case r of
         None \<Rightarrow> errP NotFound
       | Some e \<Rightarrow>
           if \<not> re_is_dir e \<or> re_first_cluster e < 2 then errP BadFs
           else walk_parents v (re_first_cluster e) names)"

definition resolve :: "fat32 \<Rightarrow> string \<Rightarrow> resolution option fsp" where
  "resolve v path =
     (case split_path path of
        None \<Rightarrow> errP NotSupported
      | Some [] \<Rightarrow> retP (Some Root)
      | Some parts \<Rightarrow>
          bindP (walk_parents v (root_cluster v) (butlast parts)) (\<lambda>dir.
          bindP (find_in v dir (last parts)) (\<lambda>r. retP (map_option Entry r))))"

definition resolve_parent :: "fat32 \<Rightarrow> string \<Rightarrow> (nat \<times> string) fsp" where
  "resolve_parent v path =
     (case split_path path of
        None \<Rightarrow> errP NotSupported
      | Some [] \<Rightarrow> errP NotSupported
      | Some parts \<Rightarrow>
          bindP (walk_parents v (root_cluster v) (butlast parts)) (\<lambda>dir. retP (dir, last parts)))"

definition list_dir :: "fat32 \<Rightarrow> nat \<Rightarrow> dir_entry list fsp" where
  "list_dir v dir =
     bindP (scan_dir v dir) (\<lambda>es.
       retP (map (\<lambda>e. \<lparr>de_name = re_name e, de_size = re_size e, de_is_dir = re_is_dir e\<rparr>)
         (filter (\<lambda>e. re_name e \<noteq> ''.'' \<and> re_name e \<noteq> ''..'') es)))"

definition fat_list :: "fat32 \<Rightarrow> string \<Rightarrow> dir_entry list fsp" where
  "fat_list v path =
     bindP (resolve v path) (\<lambda>r.
       case r of
         Some Root \<Rightarrow> list_dir v (root_cluster v)
       | Some (Entry e) \<Rightarrow>
           if re_is_dir e \<and> 2 \<le> re_first_cluster e then list_dir v (re_first_cluster e) else errP NotSupported
       | None \<Rightarrow> errP NotFound)"

definition fat_open :: "fat32 \<Rightarrow> string \<Rightarrow> unit fsp" where
  "fat_open v path =
     bindP (resolve v path) (\<lambda>r. case r of Some _ \<Rightarrow> retP () | None \<Rightarrow> errP NotFound)"

section \<open>Reading\<close>

text \<open>
  The read loop over the chain from the cluster of the offset on: cluster number \<open>idx\<close>, file position
  \<open>pos\<close>, and \<open>out\<close> bytes delivered so far.
\<close>

primrec file_read_loop :: "fat32 \<Rightarrow> nat \<Rightarrow> nat list \<Rightarrow> nat \<Rightarrow> nat \<Rightarrow> nat \<Rightarrow> bytes \<Rightarrow> (nat \<times> bytes) fsp" where
  "file_read_loop v sz [] idx pos out buf = retP (out, buf)"
| "file_read_loop v sz (c # cs) idx pos out buf =
     bindP (read_cluster v c (zero_cluster v)) (\<lambda>cbuf.
     bindP (guardP (idx * cluster_bytes v \<le> pos \<and> pos - idx * cluster_bytes v \<le> cluster_bytes v \<and>
       out \<le> length buf \<and> pos \<le> sz)) (\<lambda>_.
     let in_off = pos - idx * cluster_bytes v;
         n = min (min (cluster_bytes v - in_off) (length buf - out)) (sz - pos);
         buf' = put buf out (subslice cbuf in_off (in_off + n)) in
     if out + n = length buf \<or> sz \<le> pos + n then retP (out + n, buf')
     else file_read_loop v sz cs (idx + 1) (pos + n) (out + n) buf'))"

definition read_entry :: "fat32 \<Rightarrow> raw_entry \<Rightarrow> nat \<Rightarrow> bytes \<Rightarrow> (nat \<times> bytes) fsp" where
  "read_entry v e off buf =
     (if re_first_cluster e = 0 \<or> re_size e \<le> off then retP (0, buf)
      else
        bindP (walk_chain v (re_first_cluster e) (total_clusters v)) (\<lambda>cs.
          let start = off div cluster_bytes v in
          if length cs \<le> start then retP (0, buf)
          else file_read_loop v (re_size e) (drop start cs) start off 0 buf))"

definition fat_read_at :: "fat32 \<Rightarrow> string \<Rightarrow> nat \<Rightarrow> bytes \<Rightarrow> (nat \<times> bytes) fsp" where
  "fat_read_at v path off buf =
     bindP (resolve v path) (\<lambda>r.
       case r of
         Some (Entry e) \<Rightarrow> if \<not> re_is_dir e then read_entry v e off buf else errP NotSupported
       | Some Root \<Rightarrow> errP NotSupported
       | None \<Rightarrow> errP NotFound)"

section \<open>Creating entries\<close>

definition derive_name :: "fat32 \<Rightarrow> nat \<Rightarrow> string \<Rightarrow> string option \<Rightarrow> (bytes \<times> bytes list) fsp" where
  "derive_name v dir name except_short =
     (if needs_lfn name then
        bindP (scan_dir v dir) (\<lambda>es.
          let taken = filter (\<lambda>t. \<not> (case except_short of None \<Rightarrow> False | Some x \<Rightarrow> eq_ignore_ascii_case t x))
                (map re_short es) in
          bindP (liftP (make_unique_short name (\<lambda>cand. list_ex (\<lambda>t. eq_ignore_ascii_case t cand) taken))) (\<lambda>sh.
          retP (sh, lfn_slots name sh)))
      else bindP (liftP (make_short_name name)) (\<lambda>sh. retP (sh, [])))"

definition slot_free :: "bytes \<Rightarrow> nat \<Rightarrow> bool" where
  "slot_free buf i \<longleftrightarrow> buf ! (i * 32) = 0 \<or> buf ! (i * 32) = 0xE5"

text \<open>The first slot of a cluster from which \<open>need\<close> consecutive slots are free.\<close>

definition find_run :: "nat \<Rightarrow> nat \<Rightarrow> bytes \<Rightarrow> nat option" where
  "find_run per need buf =
     find (\<lambda>si. si + need \<le> per \<and> (\<forall>k \<in> set [0..<need]. slot_free buf (si + k))) [0..<per]"

primrec run_in_chain :: "fat32 \<Rightarrow> nat \<Rightarrow> nat \<Rightarrow> nat list \<Rightarrow> (nat \<times> nat) option fsp" where
  "run_in_chain v need ci [] = retP None"
| "run_in_chain v need ci (c # cs) =
     bindP (read_cluster v c (zero_cluster v)) (\<lambda>buf.
       case find_run (cluster_bytes v div 32) need buf of
         Some si \<Rightarrow> retP (Some (ci, si))
       | None \<Rightarrow> run_in_chain v need (ci + 1) cs)"

definition alloc_run :: "fat32 \<Rightarrow> nat \<Rightarrow> nat \<Rightarrow> (nat list \<times> nat \<times> nat) fsp" where
  "alloc_run v dir need =
     bindP (walk_chain v dir (total_clusters v)) (\<lambda>cs.
     bindP (run_in_chain v need 0 cs) (\<lambda>target.
       case target of
         Some (ci, si) \<Rightarrow> retP (cs, ci, si)
       | None \<Rightarrow>
           bindP (alloc_cluster v (if cs = [] then None else Some (last cs))) (\<lambda>c.
           retP (cs @ [c], length cs, 0))))"

text \<open>Copying the slots into the cluster; a run that leaves the buffer is an index panic.\<close>

definition write_run :: "fat32 \<Rightarrow> nat list \<Rightarrow> nat \<Rightarrow> nat \<Rightarrow> bytes list \<Rightarrow> bytes \<Rightarrow> unit fsp" where
  "write_run v cs ci si lfns slot =
     bindP (guardP (ci < length cs)) (\<lambda>_.
     bindP (read_cluster v (cs ! ci) (zero_cluster v)) (\<lambda>buf.
     bindP (guardP (si * 32 + length lfns * 32 + 32 \<le> length buf)) (\<lambda>_.
     write_cluster v (cs ! ci) (put (put buf (si * 32) (concat lfns)) (si * 32 + length lfns * 32) slot))))"

text \<open>The 32 bytes of a short entry; the times are left zero when there is no clock.\<close>

definition put_cluster :: "nat \<Rightarrow> bytes \<Rightarrow> bytes" where
  "put_cluster c slot = put (put slot 20 (to_le 2 (c div 65536))) 26 (to_le 2 (c mod 65536))"

definition new_slot :: "bytes \<Rightarrow> bool \<Rightarrow> nat \<Rightarrow> int \<Rightarrow> bytes" where
  "new_slot short is_dir first now =
     (let slot = put_cluster first
            ((put (replicate 32 0) 0 short)[11 := (if is_dir then ATTR_DIR else ATTR_ARCHIVE)]);
          (ct, cd) = unix_to_fat_time_date now;
          w = (\<lambda>x. to_le 2 (unat x)) in
      if now \<noteq> 0 then put (put (put (put (put slot 14 (w ct)) 16 (w cd)) 18 (w cd)) 22 (w ct)) 24 (w cd)
      else slot)"

definition create_entry :: "fat32 \<Rightarrow> int \<Rightarrow> nat \<Rightarrow> string \<Rightarrow> nat \<Rightarrow> bool \<Rightarrow> raw_entry fsp" where
  "create_entry v now dir name first is_dir =
     (if CHR ''/'' \<in> set name \<or> CHR 0x5C \<in> set name then errP NotSupported
      else
        bindP (walk_chain v dir (total_clusters v)) (\<lambda>_.
        bindP (derive_name v dir name None) (\<lambda>(short, lfns).
        bindP (alloc_run v dir (length lfns + 1)) (\<lambda>(cs, ci, si).
        let dir_index = ci * (cluster_bytes v div 32) + si + length lfns in
        bindP (guardP (dir_index < 2 ^ 32)) (\<lambda>_.
        bindP (write_run v cs ci si lfns (new_slot short is_dir first now)) (\<lambda>_.
        let t = nat (now mod 2 ^ 32) in
        retP \<lparr>re_name = name, re_short = trim (map (\<lambda>b. char_of (unat b)) short), re_first_cluster = first,
          re_size = 0, re_atime = t, re_mtime = t, re_ctime = t, re_is_dir = is_dir,
          re_dir_index = dir_index, re_dir_cluster = dir\<rparr>))))))"

section \<open>Updating entries\<close>

text \<open>Reading the cluster of an entry's slot, changing it, and writing it back.\<close>

definition update_slot :: "fat32 \<Rightarrow> raw_entry \<Rightarrow> (nat \<Rightarrow> bytes \<Rightarrow> bytes) \<Rightarrow> unit fsp" where
  "update_slot v e f =
     bindP (walk_chain v (re_dir_cluster e) (total_clusters v)) (\<lambda>cs.
     let per = cluster_bytes v div 32; ci = re_dir_index e div per; si = re_dir_index e mod per in
     if length cs \<le> ci then errP BadFs
     else
       bindP (read_cluster v (cs ! ci) (zero_cluster v)) (\<lambda>buf.
       write_cluster v (cs ! ci) (f si buf)))"

definition dirent_bytes :: "int \<Rightarrow> raw_entry \<Rightarrow> bytes \<Rightarrow> bytes" where
  "dirent_bytes now e slot =
     (let s1 = put (put_cluster (re_first_cluster e) slot) 28 (to_le 4 (re_size e));
          (wt, wd) = unix_to_fat_time_date now;
          w = (\<lambda>x. to_le 2 (unat x)) in
      if now \<noteq> 0 then put (put (put s1 22 (w wt)) 24 (w wd)) 18 (w wd) else s1)"

definition write_dirent :: "fat32 \<Rightarrow> int \<Rightarrow> raw_entry \<Rightarrow> unit fsp" where
  "write_dirent v now e =
     update_slot v e (\<lambda>si buf. put buf (si * 32) (dirent_bytes now e (subslice buf (si * 32) (si * 32 + 32))))"

primrec mark_lfn :: "nat \<Rightarrow> bytes \<Rightarrow> bytes" where
  "mark_lfn 0 buf = buf"
| "mark_lfn (Suc back) buf =
     (if buf ! (back * 32 + 11) = ATTR_LFN then mark_lfn back (buf[back * 32 := 0xE5]) else buf)"

definition remove_dir_slots :: "fat32 \<Rightarrow> raw_entry \<Rightarrow> unit fsp" where
  "remove_dir_slots v e = update_slot v e (\<lambda>si buf. mark_lfn si (buf[si * 32 := 0xE5]))"

definition delete_entry :: "fat32 \<Rightarrow> raw_entry \<Rightarrow> unit fsp" where
  "delete_entry v e =
     bindP (remove_dir_slots v e) (\<lambda>_.
     if re_first_cluster e \<noteq> 0 then free_from v (re_first_cluster e) 0 else retP ())"

section \<open>Writing\<close>

text \<open>Growing the chain to the needed length; the first allocation also sets the first cluster.\<close>

primrec grow :: "fat32 \<Rightarrow> nat \<Rightarrow> nat \<Rightarrow> nat list \<Rightarrow> (nat \<times> nat list) fsp" where
  "grow v 0 first cs = retP (first, cs)"
| "grow v (Suc n) first cs =
     bindP (alloc_cluster v (if cs = [] then None else Some (last cs))) (\<lambda>c.
     grow v n (if cs = [] then c else first) (cs @ [c]))"

text \<open>The write loop; running out of clusters with bytes left is an index panic.\<close>

primrec file_write_loop :: "fat32 \<Rightarrow> nat list \<Rightarrow> nat \<Rightarrow> nat \<Rightarrow> nat \<Rightarrow> bytes \<Rightarrow> unit fsp" where
  "file_write_loop v [] idx pos written buf = (if written < length buf then panicP else retP ())"
| "file_write_loop v (c # cs) idx pos written buf =
     (if written < length buf then
        bindP (guardP (idx * cluster_bytes v \<le> pos \<and> pos - idx * cluster_bytes v \<le> cluster_bytes v)) (\<lambda>_.
        let in_off = pos - idx * cluster_bytes v;
            n = min (cluster_bytes v - in_off) (length buf - written);
            chunk = subslice buf written (written + n) in
        bindP (if n = cluster_bytes v then retP chunk
               else bindP (read_cluster v c (zero_cluster v)) (\<lambda>cbuf. retP (put cbuf in_off chunk))) (\<lambda>data.
        bindP (write_cluster v c data) (\<lambda>_.
        file_write_loop v cs (idx + 1) (pos + n) (written + n) buf)))
      else retP ())"

definition write_entry :: "fat32 \<Rightarrow> int \<Rightarrow> raw_entry \<Rightarrow> nat \<Rightarrow> bytes \<Rightarrow> nat fsp" where
  "write_entry v now e off buf =
     bindP (guardP (off + length buf < 2 ^ 64)) (\<lambda>_.
     let new_end = off + length buf; need = div_ceil new_end (cluster_bytes v) in
     if 2 ^ 32 - 1 < new_end then errP NotSupported
     else
       bindP (if re_first_cluster e = 0 then retP []
              else walk_chain v (re_first_cluster e) (total_clusters v)) (\<lambda>cs0.
       bindP (grow v (need - length cs0) (re_first_cluster e) cs0) (\<lambda>(first, cs1).
       bindP (if need < length cs1 then free_from v first need else retP ()) (\<lambda>_.
       let cs = take need cs1; start = off div cluster_bytes v in
       bindP (file_write_loop v (drop start cs) start off 0 buf) (\<lambda>_.
       bindP (write_dirent v now
         (e\<lparr>re_first_cluster := first, re_size := (if re_size e < new_end then new_end else re_size e)\<rparr>)) (\<lambda>_.
       retP (length buf)))))))"

definition fat_write_at :: "fat32 \<Rightarrow> int \<Rightarrow> string \<Rightarrow> nat \<Rightarrow> bytes \<Rightarrow> nat fsp" where
  "fat_write_at v now path off buf =
     bindP (resolve v path) (\<lambda>r.
       case r of
         Some (Entry e) \<Rightarrow> if \<not> re_is_dir e then write_entry v now e off buf else errP NotSupported
       | Some Root \<Rightarrow> errP NotSupported
       | None \<Rightarrow>
           bindP (resolve_parent v path) (\<lambda>(dir, name).
           bindP (create_entry v now dir name 0 False) (\<lambda>e. write_entry v now e off buf)))"

section \<open>The other path operations\<close>

definition dot_slot :: "string \<Rightarrow> nat \<Rightarrow> bytes" where
  "dot_slot name c = put_cluster c ((put (replicate 32 0) 0 (map byte name))[11 := ATTR_DIR])"

definition fat_mkdir :: "fat32 \<Rightarrow> int \<Rightarrow> string \<Rightarrow> unit fsp" where
  "fat_mkdir v now path =
     bindP (resolve v path) (\<lambda>r.
     if r \<noteq> None then errP Exists
     else
       bindP (resolve_parent v path) (\<lambda>(parent, name).
       bindP (alloc_cluster v None) (\<lambda>c.
       let up = (if parent = root_cluster v then 0 else parent) in
       bindP (write_cluster v c (put (put (zero_cluster v) 0 (dot_slot ''.          '' c)) 32
         (dot_slot ''..         '' up))) (\<lambda>_.
       bindP (create_entry v now parent name c True) (\<lambda>_. retP ())))))"

definition fat_stat :: "fat32 \<Rightarrow> string \<Rightarrow> file_stat fsp" where
  "fat_stat v path =
     bindP (resolve v path) (\<lambda>r.
       case r of
         Some Root \<Rightarrow> retP \<lparr>st_size = 0, st_is_dir = True, st_atime = 0, st_mtime = 0, st_ctime = 0\<rparr>
       | Some (Entry e) \<Rightarrow> retP \<lparr>st_size = re_size e, st_is_dir = re_is_dir e, st_atime = re_atime e,
           st_mtime = re_mtime e, st_ctime = re_ctime e\<rparr>
       | None \<Rightarrow> errP NotFound)"

definition flush_cache :: "unit fsp" where
  "flush_cache s = (Ok (), s\<lparr>cache := flush (cache s)\<rparr>)"

definition fat_fsync :: "fat32 \<Rightarrow> int \<Rightarrow> string \<Rightarrow> unit fsp" where
  "fat_fsync v now path =
     bindP (resolve v path) (\<lambda>r.
       case r of
         Some (Entry e) \<Rightarrow> bindP (write_dirent v now e) (\<lambda>_. flush_cache)
       | Some Root \<Rightarrow> flush_cache
       | None \<Rightarrow> errP NotFound)"

definition fat_unlink :: "fat32 \<Rightarrow> string \<Rightarrow> unit fsp" where
  "fat_unlink v path =
     bindP (resolve v path) (\<lambda>r.
       case r of
         Some (Entry e) \<Rightarrow> if re_is_dir e then errP IsDir else delete_entry v e
       | Some Root \<Rightarrow> errP NotSupported
       | None \<Rightarrow> errP NotFound)"

definition renamed_slot :: "bytes \<Rightarrow> raw_entry \<Rightarrow> bytes" where
  "renamed_slot short e =
     (let slot = put (put_cluster (re_first_cluster e)
            ((put (replicate 32 0) 0 short)[11 := (if re_is_dir e then ATTR_DIR else ATTR_ARCHIVE)]))
            28 (to_le 4 (re_size e));
          (ct, cd) = unix_to_fat_time_date (int (re_ctime e));
          ad = snd (unix_to_fat_time_date (int (re_atime e)));
          (wt, wd) = unix_to_fat_time_date (int (re_mtime e));
          w = (\<lambda>x. to_le 2 (unat x)) in
      if re_ctime e \<noteq> 0
      then put (put (put (put (put slot 14 (w ct)) 16 (w cd)) 18 (w ad)) 22 (w wt)) 24 (w wd)
      else slot)"

definition move_entry :: "fat32 \<Rightarrow> raw_entry \<Rightarrow> string \<Rightarrow> unit fsp" where
  "move_entry v e to_name =
     bindP (derive_name v (re_dir_cluster e) to_name (Some (re_short e))) (\<lambda>(short, lfns).
     bindP (alloc_run v (re_dir_cluster e) (length lfns + 1)) (\<lambda>(cs, ci, si).
     bindP (write_run v cs ci si lfns (renamed_slot short e)) (\<lambda>_.
     remove_dir_slots v e)))"

definition fat_rename :: "fat32 \<Rightarrow> string \<Rightarrow> string \<Rightarrow> unit fsp" where
  "fat_rename v from_path to_path =
     bindP (resolve v from_path) (\<lambda>r.
       case r of
         None \<Rightarrow> errP NotFound
       | Some Root \<Rightarrow> errP NotSupported
       | Some (Entry e) \<Rightarrow>
           bindP (resolve v to_path) (\<lambda>q.
             case q of
               Some (Entry dst) \<Rightarrow>
                 if re_dir_cluster dst = re_dir_cluster e \<and> re_dir_index dst = re_dir_index e then retP ()
                 else errP Exists
             | Some Root \<Rightarrow> errP Exists
             | None \<Rightarrow>
                 bindP (resolve_parent v to_path) (\<lambda>(to_parent, _).
                 if to_parent \<noteq> re_dir_cluster e then errP NotSupported
                 else
                   case split_path to_path of
                     Some (p # ps) \<Rightarrow> move_entry v e (last (p # ps))
                   | _ \<Rightarrow> errP NotSupported)))"

text \<open>The mounted driver behind the \<open>FileSystem\<close> trait.\<close>

definition fat_filesystem :: "fat32 \<Rightarrow> int \<Rightarrow> filesystem" where
  "fat_filesystem v now = \<lparr>fs_list = fat_list v, fs_open = fat_open v, fs_read_at = fat_read_at v,
     fs_write_at = fat_write_at v now, fs_mkdir = fat_mkdir v now, fs_stat = fat_stat v, fs_fsync = fat_fsync v now,
     fs_unlink = fat_unlink v, fs_rename = fat_rename v\<rparr>"

section \<open>File contents\<close>

definition content :: "fat32 \<Rightarrow> blk \<Rightarrow> nat list \<Rightarrow> bytes" where
  "content v s cs = concat (map (cluster_at v s) cs)"

lemma content_simps [simp]:
  "content v s [] = []" "content v s (c # cs) = cluster_at v s c @ content v s cs"
  "content v s (cs @ ds) = content v s cs @ content v s ds"
  by (simp_all add: content_def)

lemma length_content: "volume v s \<Longrightarrow> length (content v s cs) = length cs * cluster_bytes v"
  by (induction cs) (simp_all add: length_cluster_at)

lemma content_cong: "(\<And>c. c \<in> set cs \<Longrightarrow> cluster_at v s' c = cluster_at v s c) \<Longrightarrow> content v s' cs = content v s cs"
  by (simp add: content_def cong: map_cong)

lemma cluster_bytes_pos: "volume v s \<Longrightarrow> 0 < cluster_bytes v"
  by (simp add: volume_def cluster_bytes_def SECTOR_SIZE_def)

lemma length_zero_cluster [simp]: "length (zero_cluster v) = cluster_bytes v"
  by (simp add: zero_cluster_def)

lemma subslice_append_right:
  "length xs = a \<Longrightarrow> subslice (xs @ ys) a (a + n) = subslice ys 0 n"
  by (simp add: subslice_def)

lemma file_read_loop_ok:
  assumes "volume v s" "\<forall>c \<in> set cs. is_cluster v c" "idx * cluster_bytes v \<le> pos"
    and "pos < idx * cluster_bytes v + cluster_bytes v \<or> cs = []"
    and "pos \<le> sz" "sz \<le> (idx + length cs) * cluster_bytes v" "out \<le> length buf"
  shows "\<exists>s'. file_read_loop v sz cs idx pos out buf s =
      (Ok (out + min (length buf - out) (sz - pos),
         put buf out (subslice (content v s cs) (pos - idx * cluster_bytes v)
           (pos - idx * cluster_bytes v + min (length buf - out) (sz - pos)))), s') \<and> same_disk s s'"
  using assms
proof (induction cs arbitrary: s idx pos out buf)
  case Nil
  then have "sz = pos" by simp
  then show ?case using Nil.prems(1) by (simp add: subslice_def volume_def)
next
  case (Cons c cs)
  let ?cb = "cluster_bytes v" and ?o = "pos - idx * cluster_bytes v"
  define n where "n = min (min (?cb - ?o) (length buf - out)) (sz - pos)"
  obtain s1 where s1: "read_cluster v c (zero_cluster v) s = (Ok (cluster_at v s c), s1)" "same_disk s s1"
    using read_cluster_ok [OF Cons.prems(1), of c "zero_cluster v"] Cons.prems(2) by auto
  note w = same_disk_views [OF s1(2)]
  have lc: "length (cluster_at v s c) = ?cb" by (rule length_cluster_at [OF Cons.prems(1)])
  have o: "?o < ?cb" using Cons.prems(3,4) by auto
  have on: "?o + n \<le> ?cb" "out + n \<le> length buf" "pos + n \<le> sz"
  proof -
    have "n \<le> ?cb - ?o" "n \<le> length buf - out" "n \<le> sz - pos" by (simp_all add: n_def)
    then show "?o + n \<le> ?cb" "out + n \<le> length buf" "pos + n \<le> sz" using o Cons.prems(5,7) by linarith+
  qed
  have lA: "length (subslice (cluster_at v s c) ?o (?o + n)) = n" using on(1) lc by simp
  let ?buf = "put buf out (subslice (cluster_at v s c) ?o (?o + n))"
  have lb: "length ?buf = length buf" using lA on(2) by simp
  have step: "file_read_loop v sz (c # cs) idx pos out buf s =
      (if out + n = length buf \<or> sz \<le> pos + n then (Ok (out + n, ?buf), s1)
       else file_read_loop v sz cs (idx + 1) (pos + n) (out + n) ?buf s1)"
    using s1(1) o Cons.prems(3,5,7) by (simp add: n_def Let_def)
  show ?case
  proof (cases "out + n = length buf \<or> sz \<le> pos + n")
    case True
    then have "min (length buf - out) (sz - pos) = n" using on by (auto simp: min_def)
    then show ?thesis using step True s1(2) on(1) lc by auto
  next
    case False
    then have n: "n = ?cb - ?o" using Cons.prems(7) by (auto simp: n_def min_def split: if_splits)
    then have pn: "pos + n = (idx + 1) * ?cb" "pos + n - (idx + 1) * ?cb = 0" using o Cons.prems(3) by simp_all
    obtain s2 where s2: "file_read_loop v sz cs (idx + 1) (pos + n) (out + n) ?buf s1 =
        (Ok (out + n + min (length buf - (out + n)) (sz - (pos + n)),
          put ?buf (out + n) (subslice (content v s1 cs) 0 (min (length buf - (out + n)) (sz - (pos + n))))), s2)"
      "same_disk s1 s2"
    proof -
      have p: "\<forall>c \<in> set cs. is_cluster v c" "(idx + 1) * ?cb \<le> pos + n"
        "pos + n < (idx + 1) * ?cb + ?cb \<or> cs = []" "pos + n \<le> sz"
        "sz \<le> (idx + 1 + length cs) * ?cb" "out + n \<le> length ?buf"
        using Cons.prems(2,6) pn on lb cluster_bytes_pos [OF Cons.prems(1)] by (auto simp: algebra_simps)
      show thesis using Cons.IH [OF w(3) [OF Cons.prems(1)] p] pn(2) lb that by auto
    qed
    let ?m = "min (length buf - (out + n)) (sz - (pos + n))"
    have m: "min (length buf - out) (sz - pos) = n + ?m" using on by (auto simp: min_def)
    have cs: "content v s1 cs = content v s cs" using w(2) by (simp add: content_def)
    have "?m \<le> length (content v s cs)"
      using length_content [OF Cons.prems(1), of cs] Cons.prems(6) pn(1) by (simp add: algebra_simps)
    then have "put ?buf (out + n) (subslice (content v s cs) 0 ?m) =
        put buf out (subslice (cluster_at v s c) ?o (?o + n) @ subslice (content v s cs) 0 ?m)"
      using put_append [of out "subslice (cluster_at v s c) ?o (?o + n)" "subslice (content v s cs) 0 ?m" buf] lA on(2) by simp
    also have "subslice (cluster_at v s c) ?o (?o + n) @ subslice (content v s cs) 0 ?m =
        subslice (content v s (c # cs)) ?o (?o + n + ?m)"
    proof -
      have "?o + n = ?cb" using n o by simp
      then show ?thesis
        using subslice_split [of ?o "?o + n" "?o + n + ?m" "content v s (c # cs)"] lc
          subslice_append_right [of "cluster_at v s c" ?cb "content v s cs" ?m] by simp
    qed
    finally have "file_read_loop v sz (c # cs) idx pos out buf s =
        (Ok (out + (n + ?m), put buf out (subslice (content v s (c # cs)) ?o (?o + (n + ?m)))), s2)"
      using False by (simp only: step if_False s2(1) cs add.assoc)
    then show ?thesis unfolding m using same_disk_trans [OF s1(2) s2(2)] by blast
  qed
qed

lemma read_entry_ok:
  assumes "volume v s" "chain_of v s cs" "re_first_cluster e = hd cs" "re_size e \<le> length cs * cluster_bytes v"
  shows "\<exists>s'. read_entry v e off buf s =
      (Ok (min (length buf) (re_size e - off),
        put buf 0 (subslice (content v s cs) off (off + min (length buf) (re_size e - off)))), s') \<and> same_disk s s'"
proof (cases "re_size e \<le> off")
  case True
  then show ?thesis using assms(1) by (simp add: read_entry_def subslice_def volume_def)
next
  case False
  let ?cb = "cluster_bytes v" and ?st = "off div cluster_bytes v"
  note cf = chain_of_facts [OF assms(1,2)]
  have cb: "0 < ?cb" by (rule cluster_bytes_pos [OF assms(1)])
  have "hd cs \<noteq> 0" using cf(4) [OF list.set_sel(1) [OF cf(1)]] by (simp add: is_cluster_def)
  obtain s1 where s1: "walk_chain v (hd cs) (total_clusters v) s = (Ok cs, s1)" "same_disk s s1"
    using walk_chain_ok [OF assms(1,2)] by blast
  note w = same_disk_views [OF s1(2)]
  have "off < length cs * ?cb" using False assms(4) by simp
  then have st: "?st < length cs" using cb by (simp add: div_less_iff_less_mult)
  have le: "?st * ?cb \<le> off" "off < ?st * ?cb + ?cb" using cb dividend_less_div_times [of ?cb off] by simp_all
  obtain s2 where s2: "file_read_loop v (re_size e) (drop ?st cs) ?st off 0 buf s1 =
      (Ok (min (length buf) (re_size e - off), put buf 0 (subslice (content v s1 (drop ?st cs)) (off - ?st * ?cb)
         (off - ?st * ?cb + min (length buf) (re_size e - off)))), s2)" "same_disk s1 s2"
    using file_read_loop_ok [OF w(3) [OF assms(1)], of "drop ?st cs" ?st off "re_size e" 0 buf]
      cf(4) le False assms(4) st by (auto dest: in_set_dropD)
  have c: "content v s1 (drop ?st cs) = content v s (drop ?st cs)" using w(2) by (simp add: content_def)
  have "content v s cs = content v s (take ?st cs) @ content v s (drop ?st cs)"
    by (metis append_take_drop_id content_simps(3))
  moreover have "length (content v s (take ?st cs)) = ?st * ?cb" using length_content [OF assms(1)] st by simp
  ultimately have "subslice (content v s (drop ?st cs)) (off - ?st * ?cb) (off - ?st * ?cb + k) =
      subslice (content v s cs) off (off + k)" for k
    using le(1) by (simp add: subslice_def)
  then show ?thesis
    using s1(1) s2 same_disk_trans [OF s1(2) s2(2)] st False \<open>hd cs \<noteq> 0\<close> assms(3) c
    by (auto simp: read_entry_def Let_def)
qed

end
