(* ===== verification/Fat_Write.thy ===== *)
theory Fat_Write
  imports Fat_Files
begin

text \<open>
  Writing FAT32 files (\<open>kernel/src/fat.rs\<close>): what \<open>write_at\<close> does to the chain, to the contents and
  to the directory entry of a file, and that a read gives the written bytes back.
\<close>

section \<open>Changes of data clusters\<close>

text \<open>Only the contents of the clusters in \<open>D\<close> may differ.\<close>

definition data_only :: "fat32 \<Rightarrow> nat set \<Rightarrow> blk \<Rightarrow> blk \<Rightarrow> bool" where
  "data_only v D s s' \<longleftrightarrow> volume v s' \<and> capacity s' = capacity s \<and> (\<forall>l < data_lba v. sector_at s' l = sector_at s l) \<and>
     (\<forall>d. is_cluster v d \<and> d \<notin> D \<longrightarrow> cluster_at v s' d = cluster_at v s d)"

lemma data_only_refl: "volume v s \<Longrightarrow> same_disk s s' \<Longrightarrow> data_only v D s s'"
  using same_disk_views [of s s' v] by (simp add: data_only_def same_disk_def)

lemma data_only_trans: "data_only v D s t \<Longrightarrow> data_only v E t u \<Longrightarrow> D \<subseteq> F \<Longrightarrow> E \<subseteq> F \<Longrightarrow> data_only v F s u"
  by (simp add: data_only_def) (metis subsetD)

lemma data_only_volume: "data_only v D s s' \<Longrightarrow> volume v s'"
  by (simp add: data_only_def)

lemma data_only_cluster: "only_cluster v c b s s' \<Longrightarrow> data_only v {c} s s'"
  by (simp add: data_only_def only_cluster_def)

lemma data_only_fat: "data_only v D s s' \<Longrightarrow> volume v s \<Longrightarrow> d < 2 + total_clusters v \<Longrightarrow> fat_at v s' 0 d = fat_at v s 0 d"
  using fat_lba_bounds(1) [of v s d 0] by (simp add: data_only_def fat_at_def volume_def)

lemma data_only_chain:
  assumes "data_only v D s s'" "volume v s" "chain_of v s cs"
  shows "chain_of v s' cs"
  using chain_of_cong [OF assms(3)] data_only_fat [OF assms(1,2)] chain_of_facts(4) [OF assms(2,3)]
  by (simp add: is_cluster_def)

lemma data_only_content:
  assumes "data_only v D s s'" "\<forall>c \<in> set cs. is_cluster v c" "set cs \<inter> D = {}"
  shows "content v s' cs = content v s cs"
  by (rule content_cong) (use assms in \<open>auto simp: data_only_def\<close>)

section \<open>The write loop\<close>

lemma put_split:
  assumes "length xs = a" "off \<le> a" "off + length ys \<le> a + length zs"
  defines "n \<equiv> min (a - off) (length ys)"
  shows "put (xs @ zs) off ys = put xs off (take n ys) @ put zs 0 (drop n ys)"
proof (rule nth_equalityI)
  have n: "n \<le> length ys" "off + n \<le> a" "length ys \<le> a - off \<Longrightarrow> n = length ys" "a - off \<le> length ys \<Longrightarrow> off + n = a"
    using assms(2) by (auto simp: n_def)
  have z: "length ys - n \<le> length zs" using assms(3) n by (cases "length ys \<le> a - off") auto
  show "length (put (xs @ zs) off ys) = length (put xs off (take n ys) @ put zs 0 (drop n ys))"
    using assms(1,3) n z by simp
  fix i assume i: "i < length (put (xs @ zs) off ys)"
  then have "i < a + length zs" using assms(1,3) by simp
  then show "put (xs @ zs) off ys ! i = (put xs off (take n ys) @ put zs 0 (drop n ys)) ! i"
    using assms(1-3) n z by (cases "length ys \<le> a - off") (auto simp: nth_put nth_append intro!: arg_cong [of _ _ "(!) ys"])
qed

lemma file_write_loop_ok:
  assumes "volume v s" "\<forall>c \<in> set cs. is_cluster v c" "distinct cs" "written \<le> length buf"
    and "written < length buf \<Longrightarrow> idx * cluster_bytes v \<le> pos \<and> pos < idx * cluster_bytes v + cluster_bytes v \<and>
      pos + (length buf - written) \<le> (idx + length cs) * cluster_bytes v"
  shows "\<exists>s'. file_write_loop v cs idx pos written buf s = (Ok (), s') \<and> data_only v (set cs) s s' \<and>
    content v s' cs = put (content v s cs) (pos - idx * cluster_bytes v) (drop written buf)"
  using assms
proof (induction cs arbitrary: s idx pos written)
  case Nil
  then have "\<not> written < length buf" by fastforce
  then show ?case using Nil.prems(1) data_only_refl [OF Nil.prems(1), of s "{}"] by (simp add: volume_def)
next
  case (Cons c cs)
  let ?cb = "cluster_bytes v" and ?o = "pos - idx * cluster_bytes v"
  show ?case
  proof (cases "written < length buf")
    case False
    then show ?thesis using Cons.prems(1) data_only_refl [OF Cons.prems(1), of s "set (c # cs)"] by (simp add: volume_def)
  next
    case True
    have pre: "idx * ?cb \<le> pos" "?o < ?cb" "pos + (length buf - written) \<le> (idx + length (c # cs)) * ?cb"
      using Cons.prems(5) [OF True] by auto
    define n where "n = min (?cb - ?o) (length (drop written buf))"
    define data where "data = put (cluster_at v s c) ?o (take n (drop written buf))"
    have n: "?o + n \<le> ?cb" "written + n \<le> length buf" using pre(2) Cons.prems(4) by (auto simp: n_def)
    have lc: "length (cluster_at v s c) = ?cb" by (rule length_cluster_at [OF Cons.prems(1)])
    have ld: "length data = ?cb" using lc n by (simp add: data_def)
    have c: "is_cluster v c" using Cons.prems(2) by simp
    define prep where "prep = (if n = ?cb then retP (take n (drop written buf))
        else bindP (read_cluster v c (zero_cluster v)) (\<lambda>cbuf. retP (put cbuf ?o (take n (drop written buf)))))"
    obtain s1 where s1: "prep s = (Ok data, s1)" "same_disk s s1"
    proof (cases "n = ?cb")
      case True
      then have "?o = 0" using n(1) by simp
      then have "data = take n (drop written buf)" using lc n True by (simp add: data_def put_whole)
      then show thesis using that [of s] True Cons.prems(1) by (simp add: volume_def prep_def)
    next
      case False
      obtain s1 where "read_cluster v c (zero_cluster v) s = (Ok (cluster_at v s c), s1)" "same_disk s s1"
        using read_cluster_ok [OF Cons.prems(1) c, of "zero_cluster v"] by auto
      then show thesis using that [of s1] False by (simp add: data_def prep_def)
    qed
    note w = same_disk_views [OF s1(2)]
    obtain s2 where s2: "write_cluster v c data s1 = (Ok (), s2)" "only_cluster v c data s1 s2"
      using write_cluster_ok [OF w(3) [OF Cons.prems(1)] c ld] by blast
    have d2: "data_only v {c} s s2"
      by (rule data_only_trans [OF data_only_refl [OF Cons.prems(1) s1(2), of "{}"] data_only_cluster [OF s2(2)]]) auto
    have cs: "content v s2 cs = content v s cs"
      by (rule data_only_content [OF d2]) (use Cons.prems(2,3) in auto)
    have next_pos: "pos + n = (idx + 1) * ?cb" if "written + n < length buf"
      using that pre by (auto simp: n_def min_def split: if_splits)
    have "\<exists>s3. file_write_loop v cs (idx + 1) (pos + n) (written + n) buf s2 = (Ok (), s3) \<and>
      data_only v (set cs) s2 s3 \<and>
      content v s3 cs = put (content v s2 cs) (pos + n - (idx + 1) * ?cb) (drop (written + n) buf)"
      by (rule Cons.IH [OF data_only_volume [OF d2]])
        (use Cons.prems(2,3) n(2) pre next_pos cluster_bytes_pos [OF Cons.prems(1)] in \<open>auto simp: algebra_simps\<close>)
    then obtain s3 where s3: "file_write_loop v cs (idx + 1) (pos + n) (written + n) buf s2 = (Ok (), s3)"
      "data_only v (set cs) s2 s3"
      "content v s3 cs = put (content v s cs) (pos + n - (idx + 1) * ?cb) (drop (written + n) buf)"
      using cs by auto
    have "content v s3 cs = put (content v s cs) 0 (drop n (drop written buf))"
      using s3(3) next_pos n(2) by (cases "written + n < length buf") (simp_all add: add.commute)
    moreover have "cluster_at v s3 c = data"
      using s2(2) s3(2) c Cons.prems(3) by (simp add: data_only_def only_cluster_def)
    ultimately have "content v s3 (c # cs) = put (content v s (c # cs)) ?o (drop written buf)"
      using put_split [OF lc, of ?o "drop written buf" "content v s cs"] pre
        length_content [OF Cons.prems(1), of cs]
      by (simp add: data_def n_def algebra_simps)
    moreover have "data_only v (set (c # cs)) s s3" by (rule data_only_trans [OF d2 s3(2)]) auto
    moreover have "file_write_loop v (c # cs) idx pos written buf s = (Ok (), s3)"
    proof -
      have eq: "min (?cb - ?o) (length buf - written) = n" "subslice buf written (written + n) = take n (drop written buf)"
        by (simp_all add: n_def subslice_def)
      show ?thesis
        unfolding file_write_loop.simps Let_def eq prep_def [symmetric]
        using True pre(1,2) s1(1) s2(1) s3(1) by simp
    qed
    ultimately show ?thesis by blast
  qed
qed

section \<open>Growing a chain\<close>

lemma chain_nonfree: "\<lbrakk>volume v s; chain_of v s ds; d \<in> set ds\<rbrakk> \<Longrightarrow> fat_at v s 0 d \<noteq> 0"
  using linked_chain_nonzero [of "fat_at v s 0" ds d] by (auto simp: chain_of_def list_all_iff is_cluster_def)

lemma mem_free_clusters: "c \<in> set (free_clusters v s) \<longleftrightarrow> is_cluster v c \<and> fat_at v s 0 c = 0"
  by (auto simp: free_clusters_def is_cluster_def)

lemma alloc_step:
  assumes "volume v s" "cs = [] \<or> chain_of v s cs" "free_clusters v s = c # fs"
  shows "\<exists>s'. alloc_cluster v (if cs = [] then None else Some (last cs)) s = (Ok c, s') \<and> only_table v s s' \<and>
    chain_of v s' (cs @ [c]) \<and> free_clusters v s' = fs \<and>
    (\<forall>ds. chain_of v s ds \<and> set ds \<inter> set cs = {} \<longrightarrow> chain_of v s' ds)"
proof -
  let ?prev = "if cs = [] then None else Some (last cs)"
  have c: "is_cluster v c" "fat_at v s 0 c = 0" using mem_free_clusters [of c v s] assms(3) by auto
  have lc: "last cs \<in> set cs" "is_cluster v (last cs)" "fat_at v s 0 (last cs) \<noteq> 0" if "cs \<noteq> []"
    using that assms(2) chain_of_facts(4) [OF assms(1)] chain_nonfree [OF assms(1)] last_in_set by auto
  then have p: "\<forall>p. ?prev = Some p \<longrightarrow> p < 2 + total_clusters v" by (auto simp: is_cluster_def)
  obtain s' where s': "alloc_cluster v ?prev s = (Ok c, s')" "only_table v s s'" "table_is v s' (link ?prev c (fat_at v s))"
    using alloc_cluster_ok [OF assms(1) p] assms(3) by auto
  have T: "fat_at v s' 0 d = (if cs \<noteq> [] \<and> d = last cs then c else if d = c then EOC else fat_at v s 0 d)"
    if "d < 2 + total_clusters v" for d
    using table_isD [OF s'(3) only_table_volume [OF s'(2)] that] by (auto simp: link_def set_entry_def)
  have "chain_of v s' (cs @ [c])"
  proof (cases "cs = []")
    case True
    then show ?thesis using T [of c] c(1) by (simp add: chain_of_def EOC_def is_cluster_def)
  next
    case False
    then show ?thesis
      using chain_append [OF assms(1) _ c only_table_volume [OF s'(2)], of cs] assms(2) s'(3) by simp
  qed
  moreover have "free_clusters v s' = fs"
  proof -
    have "fat_at v s' 0 d = 0 \<longleftrightarrow> fat_at v s 0 d = 0 \<and> d \<noteq> c" if "d \<in> set [2..<2 + total_clusters v]" for d
    proof -
      have "d < 2 + total_clusters v" using that by (simp only: set_upt atLeastLessThan_iff)
      then show ?thesis using T [of d] lc(3) c by (auto simp: EOC_def is_cluster_def split: if_splits)
    qed
    then have "free_clusters v s' = filter (\<lambda>d. fat_at v s 0 d = 0 \<and> d \<noteq> c) [2..<2 + total_clusters v]"
      unfolding free_clusters_def by (intro filter_cong) blast+
    also have "\<dots> = filter (\<lambda>d. d \<noteq> c) (free_clusters v s)" by (simp add: free_clusters_def conj_commute del: upt_Suc)
    also have "\<dots> = fs"
    proof -
      have "distinct (c # fs)" unfolding assms(3) [symmetric] by (simp add: free_clusters_def del: upt_Suc)
      then show ?thesis using assms(3) by (auto simp: filter_id_conv)
    qed
    finally show ?thesis .
  qed
  moreover have "chain_of v s' ds" if ds: "chain_of v s ds" "set ds \<inter> set cs = {}" for ds
  proof (rule chain_of_cong [OF ds(1)])
    fix d assume d: "d \<in> set ds"
    then have "d \<noteq> c" using chain_nonfree [OF assms(1) ds(1) d] c(2) by auto
    then show "fat_at v s' 0 d = fat_at v s 0 d"
      using T [of d] chain_of_facts(4) [OF assms(1) ds(1) d] d ds(2) lc(1) by (auto simp: is_cluster_def)
  qed
  ultimately show ?thesis using s'(1,2) by blast
qed

lemma grow_ok:
  assumes "volume v s" "cs = [] \<or> chain_of v s cs" "n \<le> length (free_clusters v s)"
  shows "\<exists>s'. grow v n first cs s =
      (Ok (if cs = [] \<and> 0 < n then hd (free_clusters v s) else first, cs @ take n (free_clusters v s)), s') \<and>
    only_table v s s' \<and>
    (cs @ take n (free_clusters v s) \<noteq> [] \<longrightarrow> chain_of v s' (cs @ take n (free_clusters v s))) \<and>
    (\<forall>ds. chain_of v s ds \<and> set ds \<inter> set cs = {} \<longrightarrow> chain_of v s' ds)"
  using assms
proof (induction n arbitrary: s first cs)
  case 0
  then show ?case using only_table_refl [OF 0(1), of s] by (auto simp: volume_def)
next
  case (Suc n)
  obtain c fs where f: "free_clusters v s = c # fs" using Suc.prems(3) by (cases "free_clusters v s") auto
  obtain s1 where s1: "alloc_cluster v (if cs = [] then None else Some (last cs)) s = (Ok c, s1)" "only_table v s s1"
    "chain_of v s1 (cs @ [c])" "free_clusters v s1 = fs"
    "\<And>ds. chain_of v s ds \<Longrightarrow> set ds \<inter> set cs = {} \<Longrightarrow> chain_of v s1 ds"
    using alloc_step [OF Suc.prems(1,2) f] by blast
  obtain s2 where s2: "grow v n (if cs = [] then c else first) (cs @ [c]) s1 =
      (Ok (if cs = [] then c else first, (cs @ [c]) @ take n fs), s2)" "only_table v s1 s2"
    "chain_of v s2 ((cs @ [c]) @ take n fs)"
    "\<And>ds. chain_of v s1 ds \<Longrightarrow> set ds \<inter> set (cs @ [c]) = {} \<Longrightarrow> chain_of v s2 ds"
    using Suc.IH [OF only_table_volume [OF s1(2)], of "cs @ [c]" "if cs = [] then c else first"] s1(3,4) Suc.prems(3) f
    by auto
  have "fat_at v s 0 c = 0" using mem_free_clusters [of c v s] f by auto
  then have "chain_of v s2 ds" if ds: "chain_of v s ds" "set ds \<inter> set cs = {}" for ds
  proof -
    have "c \<notin> set ds" using chain_nonfree [OF Suc.prems(1) ds(1), of c] \<open>fat_at v s 0 c = 0\<close> by auto
    then show ?thesis using s2(4) [OF s1(5) [OF ds]] ds(2) by auto
  qed
  then show ?case using s1(1) s2(1,3) only_table_trans [OF s1(2) s2(2)] f by auto
qed

section \<open>Updating a slot\<close>

lemma update_slot_ok:
  assumes "volume v s" "chain_of v s ds" "hd ds = re_dir_cluster e"
    and "re_dir_index e < length ds * (cluster_bytes v div 32)"
    and "\<And>si b. length b = cluster_bytes v \<Longrightarrow> si < cluster_bytes v div 32 \<Longrightarrow> length (f si b) = cluster_bytes v"
  defines "c \<equiv> ds ! (re_dir_index e div (cluster_bytes v div 32))"
  shows "\<exists>s'. update_slot v e f s = (Ok (), s') \<and> data_only v {c} s s' \<and>
    cluster_at v s' c = f (re_dir_index e mod (cluster_bytes v div 32)) (cluster_at v s c)"
proof -
  let ?per = "cluster_bytes v div 32"
  have per: "0 < ?per" using assms(4) by (cases ?per) auto
  have ci: "re_dir_index e div ?per < length ds" using assms(4) per by (simp add: div_less_iff_less_mult)
  have c: "is_cluster v c" using chain_of_facts(4) [OF assms(1,2)] ci by (simp add: c_def)
  obtain s1 where s1: "walk_chain v (re_dir_cluster e) (total_clusters v) s = (Ok ds, s1)" "same_disk s s1"
    using walk_chain_ok [OF assms(1,2)] assms(3) by auto
  note w1 = same_disk_views [OF s1(2)]
  obtain s2 where s2: "read_cluster v c (zero_cluster v) s1 = (Ok (cluster_at v s c), s2)" "same_disk s1 s2"
    using read_cluster_ok [OF w1(3) [OF assms(1)] c, of "zero_cluster v"] w1(2) by auto
  note s12 = same_disk_trans [OF s1(2) s2(2)]
  have len: "length (f (re_dir_index e mod ?per) (cluster_at v s c)) = cluster_bytes v"
    using assms(5) length_cluster_at [OF assms(1)] per by simp
  obtain s3 where s3: "write_cluster v c (f (re_dir_index e mod ?per) (cluster_at v s c)) s2 = (Ok (), s3)"
    "only_cluster v c (f (re_dir_index e mod ?per) (cluster_at v s c)) s2 s3"
    using write_cluster_ok [OF same_disk_views(3) [OF s12 assms(1)] c len] by blast
  have "update_slot v e f s = (Ok (), s3)"
    using s1(1) s2(1) s3(1) ci by (simp add: update_slot_def c_def Let_def)
  moreover have "data_only v {c} s s3"
    by (rule data_only_trans [OF data_only_refl [OF assms(1) s12, of "{}"] data_only_cluster [OF s3(2)]]) auto
  ultimately show ?thesis using s3(2) c by (auto simp: only_cluster_def)
qed

lemma length_dirent_bytes: "length slot = 32 \<Longrightarrow> length (dirent_bytes now e slot) = 32"
  by (simp add: dirent_bytes_def put_cluster_def Let_def split: prod.splits)

lemma write_dirent_ok:
  assumes "volume v s" "chain_of v s ds" "hd ds = re_dir_cluster e"
    and "re_dir_index e < length ds * (cluster_bytes v div 32)"
  defines "c \<equiv> ds ! (re_dir_index e div (cluster_bytes v div 32))"
    and "p \<equiv> re_dir_index e mod (cluster_bytes v div 32) * 32"
  shows "\<exists>s'. write_dirent v now e s = (Ok (), s') \<and> data_only v {c} s s' \<and>
    cluster_at v s' c = put (cluster_at v s c) p (dirent_bytes now e (subslice (cluster_at v s c) p (p + 32)))"
proof -
  have "si * 32 + 32 \<le> cluster_bytes v" if "si < cluster_bytes v div 32" for si
    using that block_span [of si "cluster_bytes v div 32" 32 "cluster_bytes v"] by simp
  then show ?thesis
    unfolding write_dirent_def c_def p_def
    using update_slot_ok [OF assms(1-4), of "\<lambda>si buf. put buf (si * 32) (dirent_bytes now e (subslice buf (si * 32) (si * 32 + 32)))"]
    by (auto simp: length_dirent_bytes)
qed

section \<open>Writing to a file\<close>

text \<open>The clusters of a file whose entry has the given first cluster, zero for an empty file.\<close>

definition file_chain :: "fat32 \<Rightarrow> blk \<Rightarrow> nat \<Rightarrow> nat list \<Rightarrow> bool" where
  "file_chain v s first cs \<longleftrightarrow> first = 0 \<and> cs = [] \<or> chain_of v s cs \<and> hd cs = first"

text \<open>The chain of \<open>n\<close> clusters made of a chain: it is cut, or extended from the free list.\<close>

definition resized :: "fat32 \<Rightarrow> blk \<Rightarrow> nat \<Rightarrow> nat list \<Rightarrow> nat list" where
  "resized v s n cs = take n (cs @ take (n - length cs) (free_clusters v s))"

lemma file_chain_cases: "file_chain v s first cs \<Longrightarrow> cs = [] \<or> chain_of v s cs"
  by (auto simp: file_chain_def)

lemma file_chain_first:
  assumes "volume v s" "file_chain v s first cs"
  shows "first = 0 \<longleftrightarrow> cs = []" "cs \<noteq> [] \<Longrightarrow> hd cs = first"
proof -
  have "chain_of v s cs \<Longrightarrow> cs \<noteq> []" "chain_of v s cs \<Longrightarrow> is_cluster v (hd cs)"
    using chain_of_facts(1,4) [OF assms(1)] by (auto intro: list.set_sel(1))
  then show "first = 0 \<longleftrightarrow> cs = []" "cs \<noteq> [] \<Longrightarrow> hd cs = first"
    using assms(2) by (auto simp: file_chain_def is_cluster_def)
qed

lemma file_walk:
  assumes "volume v s" "file_chain v s first cs"
  shows "\<exists>s'. (if first = 0 then retP [] else walk_chain v first (total_clusters v)) s = (Ok cs, s') \<and> same_disk s s'"
proof (cases "cs = []")
  case True
  then show ?thesis using file_chain_first(1) [OF assms] assms(1) by (auto simp: volume_def)
next
  case False
  then show ?thesis
    using file_chain_first [OF assms] file_chain_cases [OF assms(2)] walk_chain_ok [OF assms(1)] by auto
qed

lemma length_resized: "n - length cs \<le> length (free_clusters v s) \<Longrightarrow> length (resized v s n cs) = n"
  by (auto simp: resized_def)

lemma set_resized: "set (resized v s n cs) \<subseteq> set cs \<union> set (free_clusters v s)"
  unfolding resized_def using set_take_subset [of n "cs @ take (n - length cs) (free_clusters v s)"]
    set_take_subset [of "n - length cs" "free_clusters v s"] by auto

lemma free_clusters_same: "same_disk s s' \<Longrightarrow> free_clusters v s' = free_clusters v s"
  using same_disk_views(1) [of s s' v] by (simp add: free_clusters_def)

text \<open>The table work of a write: the chain is brought to the needed length.\<close>

lemma resize_ok:
  assumes "volume v s" "file_chain v s first cs" "n - length cs \<le> length (free_clusters v s)"
  shows "\<exists>s1 s2 first'. grow v (n - length cs) first cs s = (Ok (first', cs @ take (n - length cs) (free_clusters v s)), s1) \<and>
    (if n < length (cs @ take (n - length cs) (free_clusters v s)) then free_from v first' n else retP ()) s1 = (Ok (), s2) \<and>
    volume v s2 \<and> cluster_at v s2 = cluster_at v s \<and> (0 < n \<longrightarrow> file_chain v s2 first' (resized v s n cs)) \<and>
    (n = 0 \<longrightarrow> first' = first) \<and>
    (\<forall>ds. chain_of v s ds \<and> set ds \<inter> set cs = {} \<longrightarrow> chain_of v s2 ds)"
proof -
  let ?fr = "free_clusters v s"
  let ?n = "n - length cs"
  let ?cs = "cs @ take ?n ?fr"
  let ?f = "if cs = [] \<and> 0 < ?n then hd ?fr else first"
  note ff = file_chain_first [OF assms(1,2)]
  obtain s1 where s1: "grow v ?n first cs s = (Ok (?f, ?cs), s1)" "only_table v s s1" "?cs \<noteq> [] \<longrightarrow> chain_of v s1 ?cs"
    "\<And>ds. chain_of v s ds \<Longrightarrow> set ds \<inter> set cs = {} \<Longrightarrow> chain_of v s1 ds"
    using grow_ok [OF assms(1) file_chain_cases [OF assms(2)] assms(3), of first] by blast
  have hd: "?cs \<noteq> [] \<Longrightarrow> hd ?cs = ?f"
    using ff assms(3) by (cases cs; cases ?fr) (auto simp: take_Cons')
  show ?thesis
  proof (cases "n < length ?cs")
    case True
    then have n: "?n = 0" "?cs = cs" "n \<le> length cs" "cs \<noteq> []" by (auto split: if_splits)
    have c1: "chain_of v s1 cs" using s1(3) n by simp
    obtain s2 where s2: "free_from v (hd cs) n s1 = (Ok (), s2)" "volume v s2" "cluster_at v s2 = cluster_at v s1"
      "0 < n \<longrightarrow> chain_of v s2 (take n cs)" "\<And>ds. chain_of v s1 ds \<Longrightarrow> set ds \<inter> set cs = {} \<Longrightarrow> chain_of v s2 ds"
      using free_from_chain [OF only_table_volume [OF s1(2)] c1 n(3)] by blast
    have r: "resized v s n cs = take n cs" using n by (simp add: resized_def)
    have h: "hd cs = ?f" using hd n(2,4) by simp
    have "(if n < length ?cs then free_from v ?f n else retP ()) s1 = (Ok (), s2)"
      using s2(1) h by (subst if_P [OF True]) simp
    moreover have "cluster_at v s2 = cluster_at v s" using s2(3) only_table_cluster [OF s1(2)] by simp
    moreover have "0 < n \<longrightarrow> file_chain v s2 ?f (resized v s n cs)"
      using s2(4) h unfolding r file_chain_def by simp
    moreover have "n = 0 \<longrightarrow> ?f = first" using n by simp
    ultimately show ?thesis using s1(1,4) s2(2,5) by blast
  next
    case False
    then have n: "length ?cs = n" using assms(3) by auto
    then have r: "resized v s n cs = ?cs" by (simp add: resized_def)
    have "(if n < length ?cs then free_from v ?f n else retP ()) s1 = (Ok (), s1)"
      by (subst if_not_P [OF False]) simp
    moreover have "0 < n \<longrightarrow> file_chain v s1 ?f (resized v s n cs)"
      using s1(3) hd n unfolding r file_chain_def by (metis length_greater_0_conv)
    moreover have "n = 0 \<longrightarrow> ?f = first" by simp
    ultimately show ?thesis
      using s1(1,4) only_table_volume [OF s1(2)] only_table_cluster [OF s1(2)] by blast
  qed
qed

lemma slot_in_chain: "i < n * (per :: nat) \<Longrightarrow> i div per < n"
  by (cases "per = 0") (simp_all add: div_less_iff_less_mult)

lemma put_append_right: "length xs \<le> p \<Longrightarrow> put (xs @ ys) p b = xs @ put ys (p - length xs) b"
  by (simp add: put_def)

lemma write_data_ok:
  assumes "volume v s" "0 < need \<longrightarrow> chain_of v s cs" "length cs = need" "need = div_ceil (off + length buf) (cluster_bytes v)"
  shows "\<exists>s'. file_write_loop v (drop (off div cluster_bytes v) cs) (off div cluster_bytes v) off 0 buf s = (Ok (), s') \<and>
    data_only v (set cs) s s' \<and> content v s' cs = put (content v s cs) off buf"
proof -
  let ?cb = "cluster_bytes v" and ?st = "off div cluster_bytes v"
  have cb: "0 < ?cb" by (rule cluster_bytes_pos [OF assms(1)])
  have cl: "\<forall>c \<in> set cs. is_cluster v c" "distinct cs"
    using assms(2,3) chain_of_facts(2,4) [OF assms(1)] by (cases cs, auto)
  have le: "?st * ?cb \<le> off" "off < ?st * ?cb + ?cb" using cb dividend_less_div_times [of ?cb off] by simp_all
  have ge: "off + length buf \<le> need * ?cb" using div_ceil_mult_ge [OF cb] assms(4) by simp
  have st: "?st \<le> need"
  proof -
    have "off \<le> need * ?cb" using ge by simp
    then show ?thesis using cb by (metis div_le_mono div_mult_self_is_m mult.commute)
  qed
  have len: "(?st + length (drop ?st cs)) * ?cb = need * ?cb" using st assms(3) by simp
  have sub: "set (drop ?st cs) \<subseteq> set cs" by (rule set_drop_subset)
  obtain s' where s': "file_write_loop v (drop ?st cs) ?st off 0 buf s = (Ok (), s')" "data_only v (set (drop ?st cs)) s s'"
    "content v s' (drop ?st cs) = put (content v s (drop ?st cs)) (off - ?st * ?cb) buf"
    using file_write_loop_ok [OF assms(1), of "drop ?st cs" 0 buf ?st off] cl sub le ge len by auto
  have split: "content v t cs = content v t (take ?st cs) @ content v t (drop ?st cs)" for t
    by (metis append_take_drop_id content_simps(3))
  have "content v s' (take ?st cs) = content v s (take ?st cs)"
    by (rule data_only_content [OF s'(2)]) (use cl set_take_subset [of ?st cs] in \<open>auto simp: set_take_disj_set_drop_if_distinct\<close>)
  moreover have "length (content v s (take ?st cs)) = ?st * ?cb" using length_content [OF assms(1)] st assms(3) by simp
  ultimately have "content v s' cs = put (content v s cs) off buf"
    unfolding split [of s'] split [of s] s'(3) using le(1) by (simp add: put_append_right)
  moreover have "data_only v (set cs) s s'"
    by (rule data_only_trans [OF s'(2) data_only_refl [OF data_only_volume [OF s'(2)]]])
      (use sub data_only_volume [OF s'(2)] in \<open>auto simp: volume_def\<close>)
  ultimately show ?thesis using s'(1) by blast
qed

lemma chain_same: "same_disk s s' \<Longrightarrow> chain_of v s' cs = chain_of v s cs"
  using same_disk_views(1) [of s s' v] by (simp add: chain_of_def)

lemma write_entry_ok:
  assumes "volume v s" "file_chain v s (re_first_cluster e) cs"
    and ds: "chain_of v s ds" "hd ds = re_dir_cluster e" "re_dir_index e < length ds * (cluster_bytes v div 32)"
    and "set ds \<inter> set cs = {}" "off + length buf < 2 ^ 32"
    and "need - length cs \<le> length (free_clusters v s)"
    and need: "need = div_ceil (off + length buf) (cluster_bytes v)"
  defines "c \<equiv> ds ! (re_dir_index e div (cluster_bytes v div 32))"
    and "p \<equiv> re_dir_index e mod (cluster_bytes v div 32) * 32"
    and "cs' \<equiv> resized v s need cs"
  shows "\<exists>s' first'. let e' = e\<lparr>re_first_cluster := first', re_size := max (re_size e) (off + length buf)\<rparr> in
    write_entry v now e off buf s = (Ok (length buf), s') \<and> volume v s' \<and> (0 < need \<longrightarrow> file_chain v s' first' cs') \<and>
    content v s' cs' = put (content v s cs') off buf \<and>
    (\<forall>fs. chain_of v s fs \<and> set fs \<inter> set cs = {} \<longrightarrow> chain_of v s' fs) \<and>
    (\<forall>d. is_cluster v d \<and> d \<notin> set cs' \<and> d \<noteq> c \<longrightarrow> cluster_at v s' d = cluster_at v s d) \<and>
    cluster_at v s' c = put (cluster_at v s c) p (dirent_bytes now e' (subslice (cluster_at v s c) p (p + 32)))"
proof -
  obtain s0 where s0: "(if re_first_cluster e = 0 then retP [] else walk_chain v (re_first_cluster e) (total_clusters v)) s = (Ok cs, s0)"
    "same_disk s s0" using file_walk [OF assms(1,2)] by blast
  note v0 = same_disk_views [OF s0(2)] and fr = free_clusters_same [OF s0(2)] and ch = chain_same [OF s0(2)]
  have fc: "file_chain v s0 (re_first_cluster e) cs" using assms(2) ch by (simp add: file_chain_def)
  let ?cs1 = "cs @ take (need - length cs) (free_clusters v s)"
  have re: "resized v s0 need cs = cs'" unfolding cs'_def resized_def fr ..
  obtain s1 s2 first' where g: "grow v (need - length cs) (re_first_cluster e) cs s0 = (Ok (first', ?cs1), s1)"
    "(if need < length ?cs1 then free_from v first' need else retP ()) s1 = (Ok (), s2)" "volume v s2"
    "cluster_at v s2 = cluster_at v s0" "0 < need \<longrightarrow> file_chain v s2 first' cs'"
    "\<And>fs. chain_of v s0 fs \<Longrightarrow> set fs \<inter> set cs = {} \<Longrightarrow> chain_of v s2 fs"
    using resize_ok [OF v0(3) [OF assms(1)] fc, of need] assms(8) unfolding fr re by blast
  have len: "length cs' = need" unfolding cs'_def by (rule length_resized [OF assms(8)])
  have ch2: "0 < need \<longrightarrow> chain_of v s2 cs'" using g(5) len by (auto simp: file_chain_def)
  obtain s3 where s3: "file_write_loop v (drop (off div cluster_bytes v) cs') (off div cluster_bytes v) off 0 buf s2 = (Ok (), s3)"
    "data_only v (set cs') s2 s3" "content v s3 cs' = put (content v s2 cs') off buf"
    using write_data_ok [OF g(3) ch2 len need] by blast
  define e' where "e' = e\<lparr>re_first_cluster := first', re_size := max (re_size e) (off + length buf)\<rparr>"
  have d3: "chain_of v s3 fs" if "chain_of v s fs" "set fs \<inter> set cs = {}" for fs
    using data_only_chain [OF s3(2) g(3) g(6)] that ch by simp
  obtain s4 where s4: "write_dirent v now e' s3 = (Ok (), s4)" "data_only v {c} s3 s4"
    "cluster_at v s4 c = put (cluster_at v s3 c) p (dirent_bytes now e' (subslice (cluster_at v s3 c) p (p + 32)))"
    using write_dirent_ok [OF data_only_volume [OF s3(2)] d3 [OF ds(1) assms(6)], of e' now] ds(2,3)
    unfolding c_def p_def e'_def by auto
  have cin: "c \<in> set ds" unfolding c_def by (intro nth_mem slot_in_chain ds(3))
  have cnot: "c \<notin> set cs'"
    using set_resized [of v s need cs] cin assms(6) chain_nonfree [OF assms(1) ds(1) cin] mem_free_clusters [of c v s]
    unfolding cs'_def by auto
  have cc: "is_cluster v c" by (rule chain_of_facts(4) [OF assms(1) ds(1) cin])
  have c3: "cluster_at v s3 d = cluster_at v s d" if "is_cluster v d" "d \<notin> set cs'" for d
    using s3(2) g(4) v0(2) that by (simp add: data_only_def)
  have same: "content v s2 cs' = content v s cs'" using g(4) v0(2) by (simp add: content_def)
  have "max (re_size e) (off + length buf) = (if re_size e < off + length buf then off + length buf else re_size e)" by simp
  then have ee: "e\<lparr>re_first_cluster := first', re_size := (if re_size e < off + length buf then off + length buf else re_size e)\<rparr> = e'"
    by (simp only: e'_def)
  have le: "\<not> 2 ^ 32 - 1 < off + length buf" "off + length buf < 2 ^ 64" using assms(7) by simp_all
  have cs': "take need ?cs1 = cs'" by (simp only: cs'_def resized_def)
  have b0: "bindP (if re_first_cluster e = 0 then retP [] else walk_chain v (re_first_cluster e) (total_clusters v)) f s = f cs s0"
    for f :: "nat list \<Rightarrow> nat fsp" by (rule bindP_step(1), rule s0(1))
  have b2: "bindP (if need < length ?cs1 then free_from v first' need else retP ()) f s1 = f () s2"
    for f :: "unit \<Rightarrow> nat fsp" by (rule bindP_step(1), rule g(2))
  have "write_entry v now e off buf s = (Ok (length buf), s4)"
    unfolding write_entry_def Let_def need [symmetric]
    by (simp only: le if_False guardP_True [OF TrueI] b0 b2 bindP_step(1) g(1) s3(1) s4(1) prod.case cs' ee retP_app)
  moreover have "content v s4 cs' = put (content v s cs') off buf"
    using data_only_content [OF s4(2), of cs'] cnot ch2 chain_of_facts(4) [OF g(3)] len s3(3) same
    by (cases cs') auto
  moreover have "chain_of v s4 fs" if "chain_of v s fs" "set fs \<inter> set cs = {}" for fs
    using data_only_chain [OF s4(2) data_only_volume [OF s3(2)] d3 [OF that]] .
  moreover have "cluster_at v s4 d = cluster_at v s d" if "is_cluster v d" "d \<notin> set cs'" "d \<noteq> c" for d
    using s4(2) c3 that by (simp add: data_only_def)
  moreover have "0 < need \<longrightarrow> file_chain v s4 first' cs'"
    using g(5) data_only_chain [OF s4(2) data_only_volume [OF s3(2)] data_only_chain [OF s3(2) g(3)]] len
    by (auto simp: file_chain_def)
  ultimately show ?thesis
    using s4(3) c3 [OF cc cnot] data_only_volume [OF s4(2)] unfolding Let_def e'_def by (metis (no_types))
qed

end
