(* ===== verification/Fat_Paths.thy ===== *)
theory Fat_Paths
  imports Fat_Write
begin

text \<open>
  FAT32 paths (\<open>kernel/src/fat.rs\<close>): a directory as the list of the entries its slots describe, the
  files a path names, and what the path operations of the driver do to them.
\<close>

unbundle bit_operations_syntax

section \<open>The slots of a directory\<close>

definition dir_slots :: "fat32 \<Rightarrow> blk \<Rightarrow> nat list \<Rightarrow> bytes list" where
  "dir_slots v s ds = chunks_exact 32 (content v s ds)"

lemma bindR_Ok [simp]: "bindR m Ok = m"
  by (cases m) simp_all

lemma bindR_assoc: "bindR (bindR m f) g = bindR m (\<lambda>x. bindR (f x) g)"
  by (cases m) simp_all

lemma scan_slots_append:
  "scan_slots d ix (xs @ ys) run =
     bindR (scan_slots d ix xs run) (\<lambda>(es, r, fin).
       if fin then Ok (es, r, fin)
       else bindR (scan_slots d (ix + length xs) ys r) (\<lambda>(es', r', fin'). Ok (es @ es', r', fin')))"
proof (induction d ix xs run rule: scan_slots.induct)
  case (1 d ix run)
  then show ?case by simp
next
  case (2 d ix slot slots run)
  then show ?case
    by (cases "scan_slots d (ix + 1) slots no_run"; cases "scan_slots d (ix + 1) slots (push_lfn slot run)")
      (auto simp: split_beta bindR_assoc intro!: arg_cong [of _ _ "bindR _"])
qed

lemma chunks_exact_append:
  assumes "length xs mod n = 0" "0 < n"
  shows "chunks_exact n (xs @ ys) = chunks_exact n xs @ chunks_exact n ys"
proof -
  let ?a = "length xs div n" and ?b = "length ys div n"
  have len: "length xs = ?a * n" using assms(1) by (metis add_0_right div_mult_mod_eq)
  have "length (xs @ ys) div n = ?a + ?b" using assms by (simp add: div_add1_eq)
  moreover have "map f [0..<?a + ?b] = map f [0..<?a] @ map (\<lambda>i. f (?a + i)) [0..<?b]" for f :: "nat \<Rightarrow> bytes"
    by (rule nth_equalityI) (auto simp: nth_append)
  moreover have "subslice (xs @ ys) (i * n) (i * n + n) = subslice xs (i * n) (i * n + n)" if "i < ?a" for i
  proof -
    have "i * n + n \<le> ?a * n" using that by (metis Suc_leI mult_Suc mult_le_mono1 add.commute)
    then show ?thesis using len by simp
  qed
  moreover have "subslice (xs @ ys) ((?a + i) * n) ((?a + i) * n + n) = subslice ys (i * n) (i * n + n)" for i
    using len by (simp add: subslice_def add_mult_distrib)
  ultimately show ?thesis by (simp add: chunks_exact_def cong: map_cong)
qed

lemma length_chunks_exact [simp]: "length (chunks_exact n xs) = length xs div n"
  by (simp add: chunks_exact_def)

lemma cluster_slots: "volume v s \<Longrightarrow> cluster_bytes v = 32 * (cluster_bytes v div 32)"
  by (simp add: cluster_bytes_def SECTOR_SIZE_def)

lemma scan_clusters_ok:
  assumes "volume v s" "\<forall>c \<in> set cs. is_cluster v c"
  shows "\<exists>s'. scan_clusters v d ix cs run s =
      (bindR (scan_slots d ix (dir_slots v s cs) run) (\<lambda>(es, _). Ok es), s') \<and> same_disk s s'"
  using assms
proof (induction cs arbitrary: s ix run)
  case Nil
  then show ?case by (simp add: dir_slots_def chunks_exact_def volume_def)
next
  case (Cons c cs)
  let ?buf = "cluster_at v s c"
  obtain s1 where s1: "read_cluster v c (zero_cluster v) s = (Ok ?buf, s1)" "same_disk s s1"
    using read_cluster_ok [OF Cons.prems(1), of c "zero_cluster v"] Cons.prems(2) by auto
  note w = same_disk_views [OF s1(2)]
  have len: "length ?buf = cluster_bytes v" by (rule length_cluster_at [OF Cons.prems(1)])
  have sl: "dir_slots v s (c # cs) = chunks_exact 32 ?buf @ dir_slots v s cs"
    using chunks_exact_append [of ?buf 32 "content v s cs"] len cluster_slots [OF Cons.prems(1)]
    by (simp add: dir_slots_def) (metis mod_mult_self1_is_0)
  have ds: "dir_slots v s1 cs = dir_slots v s cs" using w(2) by (simp add: dir_slots_def content_def)
  show ?case
  proof (cases "scan_slots d ix (chunks_exact 32 ?buf) run")
    case (Ok x)
    obtain es r fin where x: "x = (es, r, fin)" by (cases x)
    show ?thesis
    proof (cases fin)
      case True
      then show ?thesis using s1 Ok x sl by (simp add: scan_slots_append)
    next
      case False
      obtain s2 where s2: "scan_clusters v d (ix + cluster_bytes v div 32) cs r s1 =
          (bindR (scan_slots d (ix + cluster_bytes v div 32) (dir_slots v s cs) r) (\<lambda>(es, _). Ok es), s2)" "same_disk s1 s2"
        using Cons.IH [OF w(3) [OF Cons.prems(1)], of "ix + cluster_bytes v div 32" r] Cons.prems(2) ds by auto
      then show ?thesis
        using s1 Ok x sl False len same_disk_trans [OF s1(2) s2(2)]
        by (cases "scan_slots d (ix + cluster_bytes v div 32) (dir_slots v s cs) r")
          (auto simp: scan_slots_append bindP_def)
    qed
  qed (use s1 sl in \<open>auto simp: scan_slots_append bindP_def\<close>)
qed

lemma scan_dir_ok:
  assumes "volume v s" "chain_of v s ds"
  shows "\<exists>s'. scan_dir v (hd ds) s =
      (bindR (scan_slots (hd ds) 0 (dir_slots v s ds) no_run) (\<lambda>(es, _). Ok es), s') \<and> same_disk s s'"
proof -
  obtain s1 where s1: "walk_chain v (hd ds) (total_clusters v) s = (Ok ds, s1)" "same_disk s s1"
    using walk_chain_ok [OF assms] by blast
  note w = same_disk_views [OF s1(2)]
  have "dir_slots v s1 ds = dir_slots v s ds" using w(2) by (simp add: dir_slots_def content_def)
  then obtain s2 where "scan_clusters v (hd ds) 0 ds no_run s1 =
      (bindR (scan_slots (hd ds) 0 (dir_slots v s ds) no_run) (\<lambda>(es, _). Ok es), s2)" "same_disk s1 s2"
    using scan_clusters_ok [OF w(3) [OF assms(1)], of ds "hd ds" 0 no_run] chain_of_facts(4) [OF assms] by auto
  then show ?thesis using s1 same_disk_trans [OF s1(2)] by (auto simp: scan_dir_def)
qed

section \<open>Rewriting an entry\<close>

text \<open>An entry with the cluster, the size and the times of another slot of the same name.\<close>

definition restamp :: "bytes \<Rightarrow> raw_entry \<Rightarrow> raw_entry" where
  "restamp slot e =
     (let x = slot_entry no_run 0 0 slot in
      e\<lparr>re_first_cluster := re_first_cluster x, re_size := re_size x, re_atime := re_atime x,
        re_mtime := re_mtime x, re_ctime := re_ctime x\<rparr>)"

lemma restamp_fields [simp]:
  "re_name (restamp slot e) = re_name e" "re_short (restamp slot e) = re_short e"
  "re_is_dir (restamp slot e) = re_is_dir e" "re_dir_index (restamp slot e) = re_dir_index e"
  "re_dir_cluster (restamp slot e) = re_dir_cluster e"
  "re_first_cluster (restamp slot e) = le_nat (subslice slot 20 22) * 65536 + le_nat (subslice slot 26 28)"
  "re_size (restamp slot e) = le_nat (subslice slot 28 32)"
  by (simp_all add: restamp_def slot_entry_def Let_def)

lemma entry_matches_restamp [simp]: "entry_matches name (restamp slot e) = entry_matches name e"
  by (simp add: entry_matches_def)

lemma same_head:
  assumes "take 13 slot' = take 13 slot" "length slot = 32" "length slot' = 32"
  shows "slot' ! 0 = slot ! 0" "slot' ! 11 = slot ! 11" "short_name slot' = short_name slot" "take 11 slot' = take 11 slot"
proof -
  have n: "slot' ! i = slot ! i" if "i < 13" for i using assms(1) that by (metis nth_take)
  then show "slot' ! 0 = slot ! 0" "slot' ! 11 = slot ! 11" by simp_all
  show "take 11 slot' = take 11 slot" using arg_cong [OF assms(1), of "take 11"] by simp
  have "subslice slot' a b = subslice slot a b" if "b \<le> 13" for a b
    by (rule nth_equalityI) (use assms that n in \<open>auto simp: nth_subslice\<close>)
  then show "short_name slot' = short_name slot" using n [of 12] by (simp add: short_name_def)
qed

lemma slot_entry_restamp:
  assumes "take 13 slot' = take 13 slot" "length slot = 32" "length slot' = 32"
  shows "slot_entry run d ix slot' = restamp slot' (slot_entry run d ix slot)"
  using same_head [OF assms] by (simp add: slot_entry_def restamp_def Let_def)

lemma scan_slots_index:
  assumes "scan_slots d ix slots run = Ok (es, r, fin)" "e \<in> set es"
  shows "re_dir_cluster e = d" "ix \<le> re_dir_index e" "re_dir_index e < ix + length slots"
proof -
  have "re_dir_cluster e = d \<and> ix \<le> re_dir_index e \<and> re_dir_index e < ix + length slots"
    using assms
  proof (induction d ix slots run arbitrary: es rule: scan_slots.induct)
    case (2 d ix slot slots run)
    show ?case
    proof (cases "slot ! 0 = 0 \<or> slot ! 0 = 0xE5 \<or> slot ! 11 = ATTR_LFN \<or> slot ! 11 AND ATTR_VOLUME \<noteq> 0 \<or> 2 ^ 32 \<le> ix")
      case True
      then show ?thesis using 2 by (auto split: if_splits)
    next
      case False
      then obtain es' where es: "scan_slots d (ix + 1) slots no_run = Ok (es', r, fin)" "es = slot_entry run d ix slot # es'"
        using 2(5) by (cases "scan_slots d (ix + 1) slots no_run") auto
      then show ?thesis using 2(4) [of es'] False 2(6) by (auto simp: slot_entry_def Let_def)
    qed
  qed simp
  then show "re_dir_cluster e = d" "ix \<le> re_dir_index e" "re_dir_index e < ix + length slots" by auto
qed

lemma scan_slots_update:
  assumes "scan_slots d ix slots run = Ok (es, r, fin)" "e \<in> set es" "re_dir_index e = ix + i"
    and "take 13 slot' = take 13 (slots ! i)" "length slot' = 32" "\<forall>x \<in> set slots. length x = 32"
  shows "scan_slots d ix (slots[i := slot']) run =
    Ok (map (\<lambda>x. if re_dir_index x = ix + i then restamp slot' x else x) es, r, fin)"
  using assms
proof (induction d ix slots run arbitrary: es i rule: scan_slots.induct)
  case (2 d ix slot slots run)
  let ?P = "slot ! 0 = 0 \<or> slot ! 0 = 0xE5 \<or> slot ! 11 = ATTR_LFN \<or> slot ! 11 AND ATTR_VOLUME \<noteq> 0 \<or> 2 ^ 32 \<le> ix"
  have later: "ix + 1 \<le> re_dir_index x" if "scan_slots d (ix + 1) slots q = Ok (xs, r, fin)" "x \<in> set xs" for x xs q
    using scan_slots_index(2) [OF that] .
  show ?case
  proof (cases i)
    case 0
    have np: "\<not> ?P"
      using 2(5-7) later [of _ es e] 0 by (auto split: if_splits)
    then obtain es' where es: "scan_slots d (ix + 1) slots no_run = Ok (es', r, fin)" "es = slot_entry run d ix slot # es'"
      using 2(5) by (cases "scan_slots d (ix + 1) slots no_run") auto
    have h: "take 13 slot' = take 13 slot" "length slot = 32" using 2(8,10) 0 by simp_all
    have "map (\<lambda>x. if re_dir_index x = ix + i then restamp slot' x else x) es' = es'"
      using later [OF es(1)] 0 by (intro map_idI) fastforce
    moreover have "re_dir_index (slot_entry run d ix slot) = ix" by (simp add: slot_entry_def Let_def)
    ultimately show ?thesis
      using 0 es np same_head [OF h 2(9)] slot_entry_restamp [OF h 2(9)] by simp
  next
    case (Suc j)
    show ?thesis
    proof (cases ?P)
      case True
      then show ?thesis using 2 Suc by (auto split: if_splits)
    next
      case False
      then obtain es' where es: "scan_slots d (ix + 1) slots no_run = Ok (es', r, fin)" "es = slot_entry run d ix slot # es'"
        using 2(5) by (cases "scan_slots d (ix + 1) slots no_run") auto
      have i: "re_dir_index (slot_entry run d ix slot) = ix" by (simp add: slot_entry_def Let_def)
      then have "e \<in> set es'" using 2(6,7) es(2) Suc by auto
      then have "scan_slots d (ix + 1) (slots[j := slot']) no_run =
          Ok (map (\<lambda>x. if re_dir_index x = ix + 1 + j then restamp slot' x else x) es', r, fin)"
        using 2(4) [of es' j] False es(1) 2(7-10) Suc by auto
      then show ?thesis using False es(2) Suc i by simp
    qed
  qed
qed simp

lemma chunk_span: "j < length xs div n \<Longrightarrow> j * n + n \<le> length xs"
  by (metis Suc_leI add.commute mult_Suc mult_le_mono1 div_times_less_eq_dividend le_trans)

lemma chunks_exact_put:
  assumes "i < length xs div n" "length y = n"
  shows "chunks_exact n (put xs (i * n) y) = (chunks_exact n xs)[i := y]"
proof -
  note span = chunk_span
  have other: "subslice (put xs (i * n) y) (j * n) (j * n + n) = subslice xs (j * n) (j * n + n)"
    if "j < length xs div n" "j \<noteq> i" for j
  proof -
    have "j * n + n \<le> i * n \<or> i * n + n \<le> j * n"
      using that(2) by (metis Suc_leI add.commute linorder_neqE_nat mult_Suc mult_le_mono1)
    then show ?thesis using span [OF assms(1)] span [OF that(1)] assms(2) by (intro subslice_put_disjoint) auto
  qed
  have same: "subslice (put xs (i * n) y) (i * n) (i * n + n) = y"
    using span [OF assms(1)] subslice_put_same [of "i * n" y xs] assms(2) by simp
  show ?thesis
    by (rule nth_equalityI) (use assms span [OF assms(1)] other same in \<open>auto simp: chunks_exact_def nth_list_update\<close>)
qed

lemma chunk_lengths: "\<forall>x \<in> set (chunks_exact n xs). length x = n"
  by (auto simp: chunks_exact_def chunk_span)

lemma content_put:
  assumes "volume v s" "distinct ds" "i < length ds" "cluster_at v s' (ds ! i) = put (cluster_at v s (ds ! i)) p y"
    and "\<And>d. d \<in> set ds \<Longrightarrow> d \<noteq> ds ! i \<Longrightarrow> cluster_at v s' d = cluster_at v s d" "p + length y \<le> cluster_bytes v"
  shows "content v s' ds = put (content v s ds) (i * cluster_bytes v + p) y"
proof -
  let ?A = "take i ds" and ?B = "drop (Suc i) ds"
  have ds: "ds = ?A @ ds ! i # ?B" by (rule id_take_nth_drop [OF assms(3)])
  have d: "distinct (?A @ ds ! i # ?B)" using assms(2) ds by simp
  have A: "content v s' ?A = content v s ?A"
    by (rule content_cong) (use d in \<open>auto intro!: assms(5) dest: in_set_takeD\<close>)
  have B: "content v s' ?B = content v s ?B"
    by (rule content_cong) (use d in \<open>auto intro!: assms(5) dest: in_set_dropD\<close>)
  have l: "length (content v s ?A) = i * cluster_bytes v" "length (cluster_at v s (ds ! i)) = cluster_bytes v"
    using length_content [OF assms(1)] length_cluster_at [OF assms(1)] assms(3) by simp_all
  have c: "content v t ds = content v t ?A @ cluster_at v t (ds ! i) @ content v t ?B" for t
    by (metis ds content_simps(2,3))
  show ?thesis unfolding c [of s'] c [of s] A B assms(4) using l assms(6) by (simp add: put_def)
qed

lemma dirent_bytes_fields:
  assumes "length slot = 32" "re_first_cluster e < 2 ^ 32" "re_size e < 2 ^ 32"
    and b_def: "b = dirent_bytes now e slot"
  shows "take 13 b = take 13 slot"
    and "le_nat (subslice b 20 22) * 65536 + le_nat (subslice b 26 28) = re_first_cluster e"
    and "le_nat (subslice b 28 32) = re_size e"
proof -
  have t: "take 13 (put xs k y) = take 13 xs" if "13 \<le> k" "k \<le> length xs" for xs y and k
    using that by (simp add: put_def)
  show "take 13 b = take 13 slot"
    using assms(1) by (simp add: b_def dirent_bytes_def put_cluster_def Let_def t split: prod.splits)
  have f: "subslice b 20 22 = to_le 2 (re_first_cluster e div 65536)" "subslice b 26 28 = to_le 2 (re_first_cluster e mod 65536)"
    "subslice b 28 32 = to_le 4 (re_size e)"
    using assms(1) by (simp_all add: b_def dirent_bytes_def put_cluster_def Let_def subslice_put_disjoint split: prod.split)
  show "le_nat (subslice b 20 22) * 65536 + le_nat (subslice b 26 28) = re_first_cluster e"
    using assms(2) div_less_iff_less_mult [of 65536 "re_first_cluster e" 65536] div_mult_mod_eq [of "re_first_cluster e" 65536]
    unfolding f by simp
  show "le_nat (subslice b 28 32) = re_size e" using assms(3) unfolding f by simp
qed

lemma content_slice:
  assumes "volume v s" "i < length ds" "p + n \<le> cluster_bytes v"
  shows "subslice (content v s ds) (i * cluster_bytes v + p) (i * cluster_bytes v + p + n) = subslice (cluster_at v s (ds ! i)) p (p + n)"
proof -
  have "content v s ds = content v s (take i ds) @ cluster_at v s (ds ! i) @ content v s (drop (Suc i) ds)"
    by (metis id_take_nth_drop [OF assms(2)] content_simps(2,3))
  moreover have "length (content v s (take i ds)) = i * cluster_bytes v" "length (cluster_at v s (ds ! i)) = cluster_bytes v"
    using length_content [OF assms(1)] length_cluster_at [OF assms(1)] assms(2) by simp_all
  ultimately show ?thesis using assms(3) by (simp add: subslice_def)
qed

lemma split_index: "i div k * (32 * k) + i mod k * 32 = i * (32 :: nat)"
  using div_mult_mod_eq [of i k] by (metis add_mult_distrib mult.assoc mult.commute)

section \<open>Names in a directory\<close>

text \<open>The entry that a lookup of \<open>name\<close> in the directory with chain \<open>ds\<close> finds.\<close>

definition in_dir :: "fat32 \<Rightarrow> blk \<Rightarrow> nat list \<Rightarrow> string \<Rightarrow> raw_entry \<Rightarrow> bool" where
  "in_dir v s ds name e \<longleftrightarrow> chain_of v s ds \<and>
     (\<exists>es r. scan_slots (hd ds) 0 (dir_slots v s ds) no_run = Ok (es, r) \<and> find (entry_matches name) es = Some e)"

lemma find_in_ok:
  assumes "volume v s" "in_dir v s ds name e"
  shows "\<exists>s'. find_in v (hd ds) name s = (Ok (Some e), s') \<and> same_disk s s'"
  using scan_dir_ok [OF assms(1), of ds] assms(2) by (auto simp: in_dir_def find_in_def)

lemma find_SomeD: "find P xs = Some x \<Longrightarrow> x \<in> set xs \<and> P x"
  by (induction xs) (auto split: if_splits)

lemma length_dir_slots:
  assumes "volume v s"
  shows "length (content v s ds) div 32 = length ds * (cluster_bytes v div 32)"
proof -
  define k where "k = cluster_bytes v div 32"
  have "length (content v s ds) = length ds * k * 32"
    using length_content [OF assms, of ds] cluster_slots [OF assms] by (simp add: k_def)
  then show ?thesis unfolding k_def [symmetric] by simp
qed

lemma in_dir_facts:
  assumes "volume v s" "in_dir v s ds name e"
  shows "chain_of v s ds" "re_dir_cluster e = hd ds" "re_dir_index e < length ds * (cluster_bytes v div 32)"
proof -
  obtain es r where es: "scan_slots (hd ds) 0 (dir_slots v s ds) no_run = Ok (es, r)" "e \<in> set es"
    using assms(2) find_SomeD by (fastforce simp: in_dir_def)
  have l: "length (dir_slots v s ds) = length ds * (cluster_bytes v div 32)"
    using length_dir_slots [OF assms(1)] by (simp add: dir_slots_def)
  show "chain_of v s ds" using assms(2) by (simp add: in_dir_def)
  show "re_dir_cluster e = hd ds" "re_dir_index e < length ds * (cluster_bytes v div 32)"
    using scan_slots_index [of "hd ds" 0 "dir_slots v s ds" no_run es "fst r" "snd r" e] es l by simp_all
qed

lemma in_dir_cong:
  assumes "in_dir v s ds name e" "chain_of v s' ds" "\<And>c. c \<in> set ds \<Longrightarrow> cluster_at v s' c = cluster_at v s c"
  shows "in_dir v s' ds name e"
  using assms content_cong [of ds v s' s] by (simp add: in_dir_def dir_slots_def)

text \<open>After the slot of an entry is rewritten, the lookup finds the entry with the new fields.\<close>

lemma in_dir_update:
  assumes "volume v s" "in_dir v s ds name e" "chain_of v s' ds"
  defines "c \<equiv> ds ! (re_dir_index e div (cluster_bytes v div 32))"
    and "p \<equiv> re_dir_index e mod (cluster_bytes v div 32) * 32"
  assumes "cluster_at v s' c = put (cluster_at v s c) p (dirent_bytes now e' (subslice (cluster_at v s c) p (p + 32)))"
    and "\<forall>d \<in> set ds. d \<noteq> c \<longrightarrow> cluster_at v s' d = cluster_at v s d"
    and "re_first_cluster e' < 2 ^ 32" "re_size e' < 2 ^ 32"
  shows "\<exists>t. in_dir v s' ds name t \<and> re_first_cluster t = re_first_cluster e' \<and> re_size t = re_size e' \<and>
    re_is_dir t = re_is_dir e \<and> re_dir_index t = re_dir_index e"
proof -
  let ?per = "cluster_bytes v div 32" and ?i = "re_dir_index e"
  let ?slot = "subslice (cluster_at v s c) p (p + 32)"
  let ?b = "dirent_bytes now e' ?slot"
  note f = in_dir_facts [OF assms(1,2)]
  have per: "0 < ?per" using f(3) by (cases ?per) auto
  have ci: "?i div ?per < length ds" by (rule slot_in_chain [OF f(3)])
  have p: "p + 32 \<le> cluster_bytes v"
    using block_span [of "?i mod ?per" ?per 32 "cluster_bytes v"] per by (simp add: p_def)
  have lc: "length (cluster_at v s c) = cluster_bytes v" by (rule length_cluster_at [OF assms(1)])
  have slot: "length ?slot = 32" using p lc by simp
  have "?i div ?per * (32 * ?per) + p = ?i * 32" unfolding p_def by (rule split_index)
  then have pos: "?i div ?per * cluster_bytes v + p = ?i * 32" using cluster_slots [OF assms(1)] by argo
  have ct: "content v s' ds = put (content v s ds) (?i * 32) ?b"
    using content_put [OF assms(1) chain_of_facts(2) [OF assms(1) f(1)] ci, of s' p ?b] assms(6,7) p
      length_dirent_bytes [OF slot] unfolding c_def pos by auto
  have i: "?i < length (content v s ds) div 32" using f(3) length_dir_slots [OF assms(1)] by simp
  have sl: "dir_slots v s' ds = (dir_slots v s ds)[?i := ?b]"
    unfolding dir_slots_def ct by (rule chunks_exact_put [OF i length_dirent_bytes [OF slot]])
  have at: "dir_slots v s ds ! ?i = ?slot"
    using i content_slice [OF assms(1) ci p] unfolding c_def pos by (simp add: dir_slots_def chunks_exact_def)
  obtain es r fin where es: "scan_slots (hd ds) 0 (dir_slots v s ds) no_run = Ok (es, r, fin)"
    "find (entry_matches name) es = Some e" using assms(2) by (auto simp: in_dir_def)
  have all: "\<forall>x \<in> set (dir_slots v s ds). length x = 32"
    using chunk_lengths by (simp add: dir_slots_def)
  note b = dirent_bytes_fields [OF slot assms(8,9) refl, of now]
  let ?u = "\<lambda>x. if re_dir_index x = ?i then restamp ?b x else x"
  have "scan_slots (hd ds) 0 (dir_slots v s' ds) no_run = Ok (map ?u es, r, fin)"
    unfolding sl using scan_slots_update [OF es(1), of e ?i ?b] find_SomeD [OF es(2)] b(1) at length_dirent_bytes [OF slot] all
    by simp
  moreover have "find (entry_matches name) (map ?u es) = Some (?u e)"
    using es(2) by (induction es) (auto split: if_splits)
  ultimately show ?thesis
    using assms(3) b(2,3) by (intro exI [of _ "restamp ?b e"]) (auto simp: in_dir_def)
qed

lemma in_dir_same:
  assumes "same_disk s t"
  shows "in_dir v t ds name e = in_dir v s ds name e"
  using chain_same [OF assms] same_disk_views(2) [OF assms] by (simp add: in_dir_def dir_slots_def content_def)

lemma in_dir_size:
  assumes "in_dir v s ds name e"
  shows "re_size e < 2 ^ 32"
proof -
  have "\<forall>x \<in> set es. re_size x < 2 ^ 32" if "scan_slots d ix slots run = Ok (es, r)" for d ix slots run es r
    using that
  proof (induction d ix slots run arbitrary: es r rule: scan_slots.induct)
    case (2 d ix slot slots run)
    have "le_nat (subslice slot 28 32) < 2 ^ 32"
      using less_le_trans [OF le_nat_lt power_increasing [of "length (subslice slot 28 32)" 4 256]]
      by (simp add: subslice_def)
    then show ?case using 2
      by (cases "scan_slots d (ix + 1) slots no_run") (auto simp: slot_entry_def Let_def split: if_splits)
  qed simp
  then show ?thesis using assms find_SomeD by (fastforce simp: in_dir_def)
qed

section \<open>Paths\<close>

text \<open>
  The walk along the parents of a path from directory \<open>d\<close> to directory \<open>d'\<close>; \<open>D\<close> holds the clusters of
  the directories it reads.
\<close>

inductive walked :: "fat32 \<Rightarrow> blk \<Rightarrow> nat set \<Rightarrow> nat \<Rightarrow> string list \<Rightarrow> nat \<Rightarrow> bool" for v s where
  walked_nil: "walked v s {} d [] d"
| walked_dir: "\<lbrakk>in_dir v s ds name e; hd ds = d; re_is_dir e; 2 \<le> re_first_cluster e;
    walked v s D (re_first_cluster e) names d'\<rbrakk> \<Longrightarrow> walked v s (set ds \<union> D) d (name # names) d'"

lemma walk_parents_ok:
  assumes "walked v s D d names d'" "volume v s" "same_disk s t"
  shows "\<exists>t'. walk_parents v d names t = (Ok d', t') \<and> same_disk s t'"
  using assms
proof (induction arbitrary: t rule: walked.induct)
  case (walked_dir ds name e d D names d')
  have "in_dir v t ds name e" using in_dir_same [OF walked_dir.prems(2)] walked_dir.hyps(1) by simp
  then obtain t1 where t1: "find_in v (hd ds) name t = (Ok (Some e), t1)" "same_disk t t1"
    using find_in_ok [OF same_disk_views(3) [OF walked_dir.prems(2,1)]] by blast
  obtain t2 where "walk_parents v (re_first_cluster e) names t1 = (Ok d', t2)" "same_disk s t2"
    using walked_dir.IH [OF walked_dir.prems(1) same_disk_trans [OF walked_dir.prems(2) t1(2)]] by blast
  then show ?case using t1(1) walked_dir.hyps by simp
qed simp

lemma walked_chains: "walked v s D d names d' \<Longrightarrow> c \<in> D \<Longrightarrow> \<exists>ds. chain_of v s ds \<and> c \<in> set ds"
  by (induction rule: walked.induct) (auto simp: in_dir_def)

lemma walked_frame:
  assumes "walked v s D d names d'"
    and "\<And>ds. chain_of v s ds \<Longrightarrow> set ds \<subseteq> D \<Longrightarrow> chain_of v s' ds \<and> (\<forall>c \<in> set ds. cluster_at v s' c = cluster_at v s c)"
  shows "walked v s' D d names d'"
  using assms
proof (induction rule: walked.induct)
  case (walked_dir ds name e d D names d')
  have "in_dir v s' ds name e"
    using in_dir_cong [OF walked_dir.hyps(1)] walked_dir.prems [of ds] walked_dir.hyps(1) by (simp add: in_dir_def)
  moreover have "walked v s' D (re_first_cluster e) names d'" by (rule walked_dir.IH) (use walked_dir.prems in auto)
  ultimately show ?case using walked_dir.hyps(2-4) by (blast intro: walked.walked_dir)
qed (rule walked_nil)

text \<open>
  The regular file that a path names: its entry \<open>e\<close> in the directory with chain \<open>ds\<close>, and its own
  chain \<open>cs\<close>. The file's clusters are none of the directories', and the cluster of its slot belongs to
  none of the parents.
\<close>

definition file_at :: "fat32 \<Rightarrow> blk \<Rightarrow> string \<Rightarrow> nat set \<Rightarrow> nat list \<Rightarrow> raw_entry \<Rightarrow> nat list \<Rightarrow> bool" where
  "file_at v s path D ds e cs \<longleftrightarrow>
     (\<exists>names name. split_path path = Some (names @ [name]) \<and> walked v s D (root_cluster v) names (hd ds) \<and>
       in_dir v s ds name e) \<and>
     \<not> re_is_dir e \<and> file_chain v s (re_first_cluster e) cs \<and> (D \<union> set ds) \<inter> set cs = {} \<and>
     ds ! (re_dir_index e div (cluster_bytes v div 32)) \<notin> D"

lemma resolve_ok:
  assumes "volume v s" "file_at v s path D ds e cs"
  shows "\<exists>s'. resolve v path s = (Ok (Some (Entry e)), s') \<and> same_disk s s'"
proof -
  obtain names name where n: "split_path path = Some (names @ [name])" "walked v s D (root_cluster v) names (hd ds)"
    "in_dir v s ds name e" using assms(2) by (auto simp: file_at_def)
  obtain s1 where s1: "walk_parents v (root_cluster v) names s = (Ok (hd ds), s1)" "same_disk s s1"
    using walk_parents_ok [OF n(2) assms(1), of s] assms(1) by (auto simp: volume_def)
  obtain s2 where s2: "find_in v (hd ds) name s1 = (Ok (Some e), s2)" "same_disk s1 s2"
    using find_in_ok [OF same_disk_views(3) [OF s1(2) assms(1)]] n(3) in_dir_same [OF s1(2)] by blast
  obtain p ps where "names @ [name] = p # ps" by (cases "names @ [name]") auto
  then have "butlast (p # ps) = names" "last (p # ps) = name" by (metis butlast_snoc, metis last_snoc)
  then show ?thesis
    using n(1) s1(1) s2 same_disk_trans [OF s1(2) s2(2)] \<open>names @ [name] = p # ps\<close> by (simp add: resolve_def)
qed

lemma read_at_ok:
  assumes "volume v s" "file_at v s path D ds e cs" "re_size e \<le> length cs * cluster_bytes v"
    and n_def: "n = min (length buf) (re_size e - off)"
  shows "\<exists>s'. fat_read_at v path off buf s = (Ok (n, put buf 0 (subslice (content v s cs) off (off + n))), s') \<and> same_disk s s'"
proof -
  obtain s1 where s1: "resolve v path s = (Ok (Some (Entry e)), s1)" "same_disk s s1"
    using resolve_ok [OF assms(1,2)] by blast
  note w = same_disk_views [OF s1(2)]
  have fc: "file_chain v s (re_first_cluster e) cs" and nd: "\<not> re_is_dir e" using assms(2) by (simp_all add: file_at_def)
  have "\<exists>s'. read_entry v e off buf s1 = (Ok (n, put buf 0 (subslice (content v s cs) off (off + n))), s') \<and> same_disk s1 s'"
  proof (cases "cs = []")
    case True
    then show ?thesis using file_chain_first(1) [OF assms(1) fc] assms(3) w(3) [OF assms(1)]
      by (simp add: read_entry_def n_def subslice_def volume_def)
  next
    case False
    then have c: "chain_of v s1 cs" "re_first_cluster e = hd cs"
      using fc file_chain_first [OF assms(1) fc] chain_same [OF s1(2)] by (auto simp: file_chain_def)
    have "content v s1 cs = content v s cs" using w(2) by (simp add: content_def)
    then show ?thesis using read_entry_ok [OF w(3) [OF assms(1)] c assms(3), of off buf] by (simp add: n_def)
  qed
  then show ?thesis using s1 nd same_disk_trans [OF s1(2)] by (auto simp: fat_read_at_def)
qed

lemma is_cluster_u32: "volume v s \<Longrightarrow> is_cluster v c \<Longrightarrow> c < 2 ^ 32"
  using volume_small [of v s] by (simp add: is_cluster_def)

lemma write_at_ok:
  assumes "volume v s" "file_at v s path D ds e cs" "buf \<noteq> []" "off + length buf < 2 ^ 32"
    and "need = div_ceil (off + length buf) (cluster_bytes v)" "need - length cs \<le> length (free_clusters v s)"
  defines "cs' \<equiv> resized v s need cs"
  shows "\<exists>s' e'. fat_write_at v now path off buf s = (Ok (length buf), s') \<and> volume v s' \<and>
    file_at v s' path D ds e' cs' \<and> re_size e' = max (re_size e) (off + length buf) \<and>
    content v s' cs' = put (content v s cs') off buf \<and>
    (\<forall>fs. chain_of v s fs \<and> set fs \<inter> (set cs \<union> set ds) = {} \<longrightarrow> chain_of v s' fs \<and> content v s' fs = content v s fs)"
proof -
  let ?per = "cluster_bytes v div 32"
  let ?c = "ds ! (re_dir_index e div ?per)"
  obtain names name where n: "split_path path = Some (names @ [name])" "walked v s D (root_cluster v) names (hd ds)"
    "in_dir v s ds name e" and nd: "\<not> re_is_dir e" and fc: "file_chain v s (re_first_cluster e) cs"
    and dis: "(D \<union> set ds) \<inter> set cs = {}" and cD: "?c \<notin> D" using assms(2) by (auto simp: file_at_def)
  obtain s0 where s0: "resolve v path s = (Ok (Some (Entry e)), s0)" "same_disk s s0"
    using resolve_ok [OF assms(1,2)] by blast
  note w = same_disk_views [OF s0(2)] and ch = chain_same [OF s0(2)]
  note f = in_dir_facts [OF assms(1) n(3)]
  have re: "resized v s0 need cs = cs'" unfolding cs'_def resized_def free_clusters_same [OF s0(2)] ..
  have pre: "file_chain v s0 (re_first_cluster e) cs" "chain_of v s0 ds" "set ds \<inter> set cs = {}"
    "need - length cs \<le> length (free_clusters v s0)" "in_dir v s0 ds name e"
    using fc ch f(1) dis assms(6) free_clusters_same [OF s0(2)] n(3) in_dir_same [OF s0(2)] by (auto simp: file_chain_def)
  obtain s' first' where s': "write_entry v now e off buf s0 = (Ok (length buf), s')" "volume v s'"
    "0 < need \<longrightarrow> file_chain v s' first' cs'" "content v s' cs' = put (content v s0 cs') off buf"
    "\<And>fs. chain_of v s0 fs \<Longrightarrow> set fs \<inter> set cs = {} \<Longrightarrow> chain_of v s' fs"
    "\<And>d. is_cluster v d \<Longrightarrow> d \<notin> set cs' \<Longrightarrow> d \<noteq> ?c \<Longrightarrow> cluster_at v s' d = cluster_at v s0 d"
    "cluster_at v s' ?c = put (cluster_at v s0 ?c) (re_dir_index e mod ?per * 32) (dirent_bytes now
        (e\<lparr>re_first_cluster := first', re_size := max (re_size e) (off + length buf)\<rparr>)
        (subslice (cluster_at v s0 ?c) (re_dir_index e mod ?per * 32) (re_dir_index e mod ?per * 32 + 32)))"
    using write_entry_ok [OF w(3) [OF assms(1)] pre(1,2) f(2) [symmetric] f(3) pre(3) assms(4) pre(4) assms(5), of now]
    unfolding Let_def re by blast
  have outside: "chain_of v s' fs \<and> set fs \<inter> set cs' = {} \<and> (\<forall>d \<in> set fs. d \<noteq> ?c \<longrightarrow> cluster_at v s' d = cluster_at v s d)"
    if fs: "chain_of v s fs" "set fs \<inter> set cs = {}" for fs
  proof -
    have d: "set fs \<inter> set cs' = {}"
      using set_resized [of v s need cs] fs(2) chain_nonfree [OF assms(1) fs(1)] mem_free_clusters [of _ v s]
      unfolding cs'_def by fastforce
    have "cluster_at v s' x = cluster_at v s x" if x: "x \<in> set fs" "x \<noteq> ?c" for x
      using s'(6) [OF chain_of_facts(4) [OF assms(1) fs(1) x(1)] _ x(2)] d x(1) w(2) by auto
    then show ?thesis using s'(5) [of fs] ch fs d by simp
  qed
  have D: "D \<inter> set cs' = {}"
    using walked_chains [OF n(2)] chain_nonfree [OF assms(1)] set_resized [of v s need cs] mem_free_clusters [of _ v s] dis
    unfolding cs'_def by fastforce
  have "off + length buf \<le> need * cluster_bytes v" using div_ceil_mult_ge [OF cluster_bytes_pos [OF assms(1)]] assms(5) by simp
  then have "need \<noteq> 0" using assms(3) by (cases need) auto
  then have fc': "file_chain v s' first' cs'" using s'(3) by simp
  then have "first' < 2 ^ 32"
    using is_cluster_u32 [OF s'(2)] chain_of_facts(1,4) [OF s'(2)] by (auto simp: file_chain_def)
  define e' where "e' = e\<lparr>re_first_cluster := first', re_size := max (re_size e) (off + length buf)\<rparr>"
  have e': "re_first_cluster e' = first'" "re_size e' = max (re_size e) (off + length buf)" by (simp_all add: e'_def)
  have u32: "re_first_cluster e' < 2 ^ 32" "re_size e' < 2 ^ 32"
    unfolding e' using \<open>first' < 2 ^ 32\<close> in_dir_size [OF n(3)] assms(4) by simp_all
  have kept: "\<forall>d \<in> set ds. d \<noteq> ?c \<longrightarrow> cluster_at v s' d = cluster_at v s0 d"
    and ds': "chain_of v s' ds" "set ds \<inter> set cs' = {}" using outside [OF f(1) pre(3)] w(2) by simp_all
  obtain t where t: "in_dir v s' ds name t" "re_first_cluster t = re_first_cluster e'" "re_size t = re_size e'"
    "re_is_dir t = re_is_dir e" "re_dir_index t = re_dir_index e"
    using in_dir_update [OF w(3) [OF assms(1)] pre(5) ds'(1) s'(7) [folded e'_def] kept u32] by blast
  have "walked v s' D (root_cluster v) names (hd ds)"
  proof (rule walked_frame [OF n(2)])
    fix fs assume fs: "chain_of v s fs" "set fs \<subseteq> D"
    then have "set fs \<inter> set cs = {}" "?c \<notin> set fs" using dis cD by auto
    then show "chain_of v s' fs \<and> (\<forall>c \<in> set fs. cluster_at v s' c = cluster_at v s c)"
      using outside [OF fs(1)] by auto
  qed
  then have "file_at v s' path D ds t cs'"
    unfolding file_at_def using n(1) t(1,2,4,5) e'(1) nd fc' D ds'(2) cD by auto
  moreover have "content v s' cs' = put (content v s cs') off buf" using s'(4) w(2) by (simp add: content_def)
  moreover have "chain_of v s' fs \<and> content v s' fs = content v s fs"
    if "chain_of v s fs" "set fs \<inter> (set cs \<union> set ds) = {}" for fs
  proof -
    have "set fs \<inter> set cs = {}" "?c \<notin> set fs" using that(2) nth_mem [OF slot_in_chain [OF f(3)]] by auto
    then show ?thesis using outside [OF that(1)] by (auto intro: content_cong)
  qed
  moreover have "fat_write_at v now path off buf s = (Ok (length buf), s')"
    using s0(1) s'(1) nd by (simp add: fat_write_at_def)
  ultimately show ?thesis using s'(2) t(3) [unfolded e'(2)] by blast
qed

section \<open>A small volume\<close>

text \<open>The root directory in clusters 2 and 5 holds one file \<open>/A\<close> of 600 bytes in clusters 3 and 4.\<close>

definition sample_words :: "nat \<Rightarrow> u16 list" where
  "sample_words l =
     (if l \<in> {1, 2} then [0xFFF8, 0x0FFF, 0xFFFF, 0x0FFF, 5, 0, 4, 0, 0xFFFF, 0x0FFF, 0xFFFF, 0x0FFF, 0, 0] @ replicate 242 0
      else if l = 3 then [0x2041, 0x2020, 0x2020, 0x2020, 0x2020, 0x2020, 0, 0, 0, 0, 0, 0, 0, 3, 600, 0] @ replicate 240 0
      else replicate 256 0)"

definition sample_files :: blk where
  "sample_files = sample_blk\<lparr>dev := sample_drive\<lparr>medium := sample_words\<rparr>\<rparr>"

definition sample_slot :: bytes where
  "sample_slot = [0x41, 0x20, 0x20, 0x20, 0x20, 0x20, 0x20, 0x20, 0x20, 0x20, 0x20, 0x20,
     0, 0, 0, 0, 0, 0, 0, 0, 0, 0, 0, 0, 0, 0, 3, 0, 0x58, 2, 0, 0]"

definition sample_entry :: raw_entry where
  "sample_entry = slot_entry no_run 2 0 sample_slot"

lemma sample_files_volume: "volume sample_vol sample_files"
proof -
  have "small_disk (dev sample_files)"
    using sample_drive_ok(2) by (simp add: sample_files_def small_disk_def sample_drive_def sample_words_def)
  moreover have "ready (dev sample_files)"
    using sample_drive_ok(1) by (simp add: sample_files_def ready_def sample_drive_def)
  ultimately have "online sample_files"
    using cache_wf_new by (simp add: online_def coherent_def sample_files_def sample_blk_def)
  then show ?thesis
    by (simp add: volume_def sample_vol_def data_lba_def SECTOR_SIZE_def capacity_def sample_files_def sample_drive_def)
qed

lemma sample_files_table:
  "fat_at sample_vol sample_files 0 2 = 5" "fat_at sample_vol sample_files 0 3 = 4" "fat_at sample_vol sample_files 0 4 = EOC"
  "fat_at sample_vol sample_files 0 5 = EOC"
  by (simp_all add: fat_at_def fat_lba_def sample_vol_def sample_files_def sector_at_def sample_words_def SECTOR_SIZE_def
    sector_bytes_def word_bytes_def subslice_def EOC_def)

lemma sample_files_chains: "chain_of sample_vol sample_files [2, 5]" "chain_of sample_vol sample_files [3, 4]"
  using sample_files_table by (simp_all add: chain_of_def EOC_def is_cluster_def sample_vol_def)

lemma sample_entry_fields:
  "re_first_cluster sample_entry = 3" "re_size sample_entry = 600" "\<not> re_is_dir sample_entry" "re_dir_index sample_entry = 0"
  "re_short sample_entry = ''A''"
proof -
  show "re_first_cluster sample_entry = 3" "re_size sample_entry = 600" "\<not> re_is_dir sample_entry" "re_dir_index sample_entry = 0"
    by (simp_all add: sample_entry_def slot_entry_def Let_def sample_slot_def subslice_def ATTR_DIR_def)
  show "re_short sample_entry = ''A''"
    by (simp add: sample_entry_def slot_entry_def Let_def sample_slot_def short_name_def subslice_def decode_field_def utf8_def code_def char_of_def bit_0)
qed

lemma chunks_exact_Cons:
  assumes "length x = n" "0 < n"
  shows "chunks_exact n (x @ ys) = x # chunks_exact n ys"
  using chunks_exact_append [of x n ys] assms by (simp add: chunks_exact_def)

lemma sector_bytes_zeros: "sector_bytes (replicate n 0) = replicate (2 * n) 0"
  by (induction n) (simp_all add: word_bytes_def)

lemma sample_slots:
  "\<exists>rest. dir_slots sample_vol sample_files [2, 5] = sample_slot # replicate 32 0 # rest"
proof -
  have "sector_bytes (sample_words 3) = sample_slot @ sector_bytes (replicate 240 0)"
    by (simp add: sample_words_def sample_slot_def word_bytes_def)
  also have "sector_bytes (replicate 240 0) = replicate 32 0 @ replicate 448 0"
    unfolding sector_bytes_zeros replicate_add [symmetric] by simp
  finally have "content sample_vol sample_files [2, 5] = sample_slot @ replicate 32 0 @ replicate 448 0 @ cluster_at sample_vol sample_files 5"
    by (simp add: cluster_at_def sample_vol_def data_lba_def Let_def sector_at_def sample_files_def numeral_3_eq_3)
  moreover have "length sample_slot = 32" by (simp add: sample_slot_def)
  ultimately show ?thesis unfolding dir_slots_def by (simp add: chunks_exact_Cons)
qed

lemma sample_in_dir: "in_dir sample_vol sample_files [2, 5] ''A'' sample_entry"
proof -
  obtain rest where r: "dir_slots sample_vol sample_files [2, 5] = sample_slot # replicate 32 0 # rest"
    using sample_slots by blast
  have "scan_slots 2 0 (sample_slot # replicate 32 0 # rest) no_run = Ok ([sample_entry], no_run, True)"
    by (simp add: sample_slot_def ATTR_LFN_def ATTR_VOLUME_def sample_entry_def)
  moreover have "entry_matches ''A'' sample_entry"
    using sample_entry_fields(5) by (simp add: entry_matches_def eq_ignore_ascii_case_def)
  ultimately show ?thesis using sample_files_chains(1) r by (auto simp: in_dir_def simp del: scan_slots.simps)
qed

lemma sample_file: "file_at sample_vol sample_files ''/A'' {} [2, 5] sample_entry [3, 4]"
proof -
  have "split_path ''/A'' = Some ([] @ [''A''])" by (simp add: split_path_def)
  moreover have "walked sample_vol sample_files {} (root_cluster sample_vol) [] (hd [2, 5])"
    using walked_nil by (simp add: sample_vol_def)
  ultimately show ?thesis
    unfolding file_at_def using sample_in_dir sample_entry_fields sample_files_chains(2)
    by (auto simp: file_chain_def)
qed

lemma sample_content: "content sample_vol sample_files [3, 4] = replicate 1024 0" "cluster_bytes sample_vol = 512"
proof -
  have "sector_bytes (sample_words l) = replicate 512 0" if "3 < l" for l
    using that by (simp add: sample_words_def sector_bytes_zeros)
  moreover have "replicate 1024 (0 :: u8) = replicate 512 0 @ replicate 512 0" unfolding replicate_add [symmetric] by simp
  ultimately show "content sample_vol sample_files [3, 4] = replicate 1024 0"
    by (simp add: cluster_at_def sample_vol_def data_lba_def Let_def sector_at_def sample_files_def)
  show "cluster_bytes sample_vol = 512" by (simp add: cluster_bytes_def sample_vol_def SECTOR_SIZE_def)
qed

lemma sample_room: "Suc 0 \<le> length (free_clusters sample_vol sample_files)"
proof -
  have "6 \<in> set (free_clusters sample_vol sample_files)"
    by (simp add: mem_free_clusters is_cluster_def sample_vol_def fat_at_def fat_lba_def sample_files_def sector_at_def
      sample_words_def SECTOR_SIZE_def sector_bytes_def word_bytes_def subslice_def)
  then show ?thesis by (cases "free_clusters sample_vol sample_files") auto
qed

section \<open>Reading and writing through paths\<close>

text \<open>
  C8. Reading a file by path. A read returns the bytes of the file from the offset on, as many as the
  buffer holds and the recorded size allows, in the front of the buffer, and leaves the rest of the
  buffer and the disk as they were.
\<close>

theorem fat_read_exact:
  assumes "volume v s" "file_at v s path D ds e cs" "re_size e \<le> length cs * cluster_bytes v"
  shows "\<exists>s'. fat_read_at v path off buf s =
      (Ok (min (length buf) (re_size e - off),
        put buf 0 (subslice (content v s cs) off (off + min (length buf) (re_size e - off)))), s') \<and> same_disk s s'"
  by (rule read_at_ok [OF assms refl])

theorem fat_read_exact_witness:
  "\<exists>s'. fat_read_at sample_vol ''/A'' 1 [1, 2] sample_files = (Ok (2, [0, 0]), s')"
proof -
  have "subslice (replicate 1024 (0 :: u8)) 1 (1 + min 2 (600 - 1)) = [0, 0]" by (simp add: subslice_def numeral_2_eq_2)
  then show ?thesis
    using fat_read_exact [OF sample_files_volume sample_file, of 1 "[1, 2]"] sample_entry_fields(2) sample_content(2)
    unfolding sample_content(1) by (auto simp: put_whole)
qed

text \<open>
  C7. Writing a file by path. A write of at least one byte that fits the free space succeeds. The file
  then has as many clusters as the end of the write needs: its old ones, cut or extended by the first
  free clusters. Its contents are the old contents with the bytes at the offset replaced, the recorded
  size is the larger of the old size and the end of the write, and no other chain or its contents
  change.
\<close>

theorem fat_write_updates:
  assumes "volume v s" "file_at v s path D ds e cs" "buf \<noteq> []" "off + length buf < 2 ^ 32"
    and "div_ceil (off + length buf) (cluster_bytes v) - length cs \<le> length (free_clusters v s)"
  defines "cs' \<equiv> resized v s (div_ceil (off + length buf) (cluster_bytes v)) cs"
  shows "\<exists>s' e'. fat_write_at v now path off buf s = (Ok (length buf), s') \<and> volume v s' \<and>
    file_at v s' path D ds e' cs' \<and> re_size e' = max (re_size e) (off + length buf) \<and>
    content v s' cs' = put (content v s cs') off buf \<and>
    (\<forall>fs. chain_of v s fs \<and> set fs \<inter> (set cs \<union> set ds) = {} \<longrightarrow> chain_of v s' fs \<and> content v s' fs = content v s fs)"
  unfolding cs'_def by (rule write_at_ok [OF assms(1-4) refl assms(5)])

theorem fat_write_updates_witness:
  "\<exists>s' e'. fat_write_at sample_vol 0 ''/A'' 1022 [1, 2, 3] sample_files = (Ok 3, s') \<and> volume sample_vol s' \<and>
    file_at sample_vol s' ''/A'' {} [2, 5] e' (resized sample_vol sample_files 3 [3, 4]) \<and> re_size e' = 1025"
proof -
  have "div_ceil 1025 512 = 3" by (simp add: div_ceil_def)
  then show ?thesis
    using fat_write_updates [OF sample_files_volume sample_file, of "[1, 2, 3]" 1022 0] sample_entry_fields(2) sample_content(2)
      sample_room by (auto simp: numeral_3_eq_3)
qed

text \<open>
  C1. A write is read back. After a write that does not cut the file short, reading as many bytes at the
  same offset of the same path returns exactly the bytes written.
\<close>

theorem fat_write_read:
  assumes "volume v s" "file_at v s path D ds e cs" "buf \<noteq> []" "off + length buf < 2 ^ 32"
    and "div_ceil (off + length buf) (cluster_bytes v) - length cs \<le> length (free_clusters v s)"
    and "re_size e \<le> div_ceil (off + length buf) (cluster_bytes v) * cluster_bytes v" "length rbuf = length buf"
  shows "\<exists>s' s''. fat_write_at v now path off buf s = (Ok (length buf), s') \<and>
    fat_read_at v path off rbuf s' = (Ok (length buf, buf), s'')"
proof -
  let ?need = "div_ceil (off + length buf) (cluster_bytes v)"
  let ?cs = "resized v s ?need cs"
  obtain s' e' where w: "fat_write_at v now path off buf s = (Ok (length buf), s')" "volume v s'"
    "file_at v s' path D ds e' ?cs" "re_size e' = max (re_size e) (off + length buf)"
    "content v s' ?cs = put (content v s ?cs) off buf"
    using write_at_ok [OF assms(1-4) refl assms(5), of now] by blast
  have len: "length ?cs = ?need" by (rule length_resized [OF assms(5)])
  have fits: "off + length buf \<le> ?need * cluster_bytes v" by (rule div_ceil_mult_ge [OF cluster_bytes_pos [OF assms(1)]])
  then have "re_size e' \<le> length ?cs * cluster_bytes v" using w(4) assms(6) len by simp
  moreover have "length buf = min (length rbuf) (re_size e' - off)" using w(4) assms(7) by simp
  ultimately obtain s'' where "fat_read_at v path off rbuf s' =
      (Ok (length buf, put rbuf 0 (subslice (content v s' ?cs) off (off + length buf))), s'')"
    using read_at_ok [OF w(2,3)] by blast
  moreover have "subslice (content v s' ?cs) off (off + length buf) = buf"
    unfolding w(5) using fits length_content [OF assms(1), of ?cs] len by simp
  ultimately show ?thesis using w(1) assms(7) by (auto simp: put_whole)
qed

theorem fat_write_read_witness:
  "\<exists>s' s''. fat_write_at sample_vol 0 ''/A'' 1022 [1, 2, 3] sample_files = (Ok 3, s') \<and>
    fat_read_at sample_vol ''/A'' 1022 [0, 0, 0] s' = (Ok (3, [1, 2, 3]), s'')"
proof -
  have "div_ceil 1025 512 = 3" by (simp add: div_ceil_def)
  then show ?thesis
    using fat_write_read [OF sample_files_volume sample_file, of "[1, 2, 3]" 1022 "[0, 0, 0]" 0] sample_entry_fields(2) sample_content(2)
      sample_room by (auto simp: numeral_3_eq_3)
qed

text \<open>
  C14. A write inside a file loses its tail. When the write ends before the last cluster the file needs,
  the clusters past the end of the write are freed while the recorded size stays: the file then has too
  few clusters for its size, and reading past the kept clusters returns no bytes although the size says
  there are some.
\<close>

theorem inner_write_truncates:
  assumes "volume v s" "file_at v s path D ds e cs" "buf \<noteq> []" "off + length buf < 2 ^ 32"
    and "div_ceil (off + length buf) (cluster_bytes v) * cluster_bytes v < re_size e"
    and "re_size e \<le> length cs * cluster_bytes v"
  shows "\<exists>s' s'' e'. fat_write_at v now path off buf s = (Ok (length buf), s') \<and>
    file_at v s' path D ds e' (take (div_ceil (off + length buf) (cluster_bytes v)) cs) \<and> re_size e' = re_size e \<and>
    fat_read_at v path (div_ceil (off + length buf) (cluster_bytes v) * cluster_bytes v) rbuf s' = (Ok (0, rbuf), s'')"
proof -
  let ?need = "div_ceil (off + length buf) (cluster_bytes v)"
  have cb: "0 < cluster_bytes v" by (rule cluster_bytes_pos [OF assms(1)])
  have "?need * cluster_bytes v < length cs * cluster_bytes v" using assms(5,6) by linarith
  then have n: "?need < length cs" by simp
  then have r: "resized v s ?need cs = take ?need cs" by (simp add: resized_def)
  obtain s' e' where w: "fat_write_at v now path off buf s = (Ok (length buf), s')" "volume v s'"
    "file_at v s' path D ds e' (take ?need cs)" "re_size e' = max (re_size e) (off + length buf)"
    using write_at_ok [OF assms(1-4) refl, of now] n unfolding r by auto
  have "off + length buf \<le> ?need * cluster_bytes v" by (rule div_ceil_mult_ge [OF cb])
  then have sz: "re_size e' = re_size e" using w(4) assms(5) by simp
  obtain s1 where s1: "resolve v path s' = (Ok (Some (Entry e')), s1)" "same_disk s' s1"
    using resolve_ok [OF w(2,3)] by blast
  have fc: "file_chain v s' (re_first_cluster e') (take ?need cs)" "\<not> re_is_dir e'" using w(3) by (simp_all add: file_at_def)
  then have "file_chain v s1 (re_first_cluster e') (take ?need cs)" using chain_same [OF s1(2)] by (simp add: file_chain_def)
  then obtain s2 where "(if re_first_cluster e' = 0 then retP [] else walk_chain v (re_first_cluster e') (total_clusters v)) s1 =
      (Ok (take ?need cs), s2)"
    using file_walk [OF same_disk_views(3) [OF s1(2) w(2)]] by blast
  then have "\<exists>s2. read_entry v e' (?need * cluster_bytes v) rbuf s1 = (Ok (0, rbuf), s2)"
    using cb by (auto simp: read_entry_def Let_def split: if_splits)
  then show ?thesis using w(1,3) sz s1(1) fc(2) by (auto simp: fat_read_at_def)
qed

theorem inner_write_truncates_witness:
  "\<exists>s' s'' e'. fat_write_at sample_vol 0 ''/A'' 0 [1, 2, 3] sample_files = (Ok 3, s') \<and>
    file_at sample_vol s' ''/A'' {} [2, 5] e' [3] \<and> re_size e' = 600 \<and>
    fat_read_at sample_vol ''/A'' 512 [7, 8] s' = (Ok (0, [7, 8]), s'')"
proof -
  have "div_ceil 3 512 = 1" by (simp add: div_ceil_def)
  then show ?thesis
    using inner_write_truncates [OF sample_files_volume sample_file, of "[1, 2, 3]" 0 0 "[7, 8]"]
      sample_entry_fields(2) sample_content(2) by (auto simp: numeral_3_eq_3)
qed

end
