(* ===== verification/Scheduler.thy ===== *)
theory Scheduler
  imports Onyx_Prelude
begin

text \<open>
  The task scheduler (\<open>kernel/src/scheduler.rs\<close>): the global task table, the per-CPU current and pending
  contexts, the life cycle of a task, and the decision of \<open>plan_switch\<close>. Every operation here is one
  section under \<open>SCHED_LOCK\<close>, so the operations of all CPUs interleave as whole steps. A task is named
  by its index in the table, which never shrinks; \<open>None\<close> stands for \<open>MAIN_INDEX\<close>, the idle context.

  What an operation reads from elsewhere (the clocks, the keyboard and input rings) is its \<open>env\<close>
  argument. The machine context of a task (stack, saved registers) is not modelled: a switch is the
  pair of contexts it saves and resumes. Reschedule interrupts only cause further steps.
\<close>

section \<open>Tasks and CPUs\<close>

datatype tstate = Running | Ready | Sleeping | Blocked | Dead

record task =
  t_id :: nat
  t_state :: tstate
  owner_cpu :: nat
  priority :: nat
  slice_left :: nat
  sleep_until_ms :: nat
  sleep_until_ns :: nat
  blocked_on_input :: bool
  blocked_on_raw :: bool
  wake_diag :: bool
  parent_id :: nat
  exit_code :: nat
  reaped :: bool
  blocked_on_child :: bool
  linux_abi :: bool

text \<open>The scheduler's part of a \<open>PerCpu\<close> block.\<close>

record percpu =
  current :: "nat option"
  pending_prev :: "nat option"
  switches :: nat

record sched =
  tasks :: "task list"
  next_id :: nat
  cpus :: "nat \<Rightarrow> percpu"
  stall_ticks :: nat
  stall_dumped :: bool
  noready_ticks :: nat
  noready_dumped :: bool
  hopb_contender :: "nat option"
  hopb_samples :: nat
  hopb_idle :: nat
  hopb_armed :: bool
  present_task_index :: nat
  wake_on_cpu :: nat
  wake_wrong_cpu :: nat

record env =
  now_ms :: nat
  now_ns :: nat
  line_pending :: bool
  input_pending :: bool

definition MAX_CPUS :: nat where "MAX_CPUS = 4"
definition PRIO_RT :: nat where "PRIO_RT = 0"
definition PRIO_NORMAL :: nat where "PRIO_NORMAL = 1"
definition PRIO_IDLE :: nat where "PRIO_IDLE = 2"

definition fresh_slice :: "nat \<Rightarrow> nat" where
  "fresh_slice prio = (if prio = PRIO_RT then 1 else if prio = PRIO_NORMAL then 8 else 1)"

text \<open>The state at boot.\<close>

definition boot_sched :: sched where
  "boot_sched = \<lparr>tasks = [], next_id = 1, cpus = (\<lambda>_. \<lparr>current = None, pending_prev = None, switches = 0\<rparr>),
     stall_ticks = 0, stall_dumped = False, noready_ticks = 0, noready_dumped = False, hopb_contender = None,
     hopb_samples = 0, hopb_idle = 0, hopb_armed = False, present_task_index = 0, wake_on_cpu = 0, wake_wrong_cpu = 0\<rparr>"

definition cur_index :: "nat \<Rightarrow> sched \<Rightarrow> nat option" where
  "cur_index me s = current (cpus s me)"

definition set_cpu :: "nat \<Rightarrow> (percpu \<Rightarrow> percpu) \<Rightarrow> sched \<Rightarrow> sched" where
  "set_cpu me f s = s\<lparr>cpus := (cpus s)(me := f (cpus s me))\<rparr>"

definition set_task :: "nat \<Rightarrow> (task \<Rightarrow> task) \<Rightarrow> sched \<Rightarrow> sched" where
  "set_task i f s = s\<lparr>tasks := (tasks s)[i := f (tasks s ! i)]\<rparr>"

text \<open>The common shape of the operations on the calling task: nothing happens in the idle context.\<close>

definition on_current :: "nat \<Rightarrow> (task \<Rightarrow> task) \<Rightarrow> sched \<Rightarrow> sched" where
  "on_current me f s = (case cur_index me s of None \<Rightarrow> s | Some i \<Rightarrow> set_task i f s)"

text \<open>The \<open>for i in 0..TASK_COUNT\<close> searches: the first index that satisfies a predicate.\<close>

definition first_task :: "(nat \<Rightarrow> task \<Rightarrow> bool) \<Rightarrow> sched \<Rightarrow> nat option" where
  "first_task P s = find (\<lambda>i. P i (tasks s ! i)) [0..<length (tasks s)]"

section \<open>Creating tasks\<close>

definition new_task :: "nat \<Rightarrow> nat \<Rightarrow> nat \<Rightarrow> nat \<Rightarrow> task" where
  "new_task i cpu prio parent = \<lparr>t_id = i, t_state = Ready, owner_cpu = cpu mod 256, priority = prio,
     slice_left = fresh_slice prio, sleep_until_ms = 0, sleep_until_ns = 0, blocked_on_input = False,
     blocked_on_raw = False, wake_diag = False, parent_id = parent, exit_code = 0, reaped = False,
     blocked_on_child = False, linux_abi = False\<rparr>"

definition push_task :: "nat \<Rightarrow> nat \<Rightarrow> nat \<Rightarrow> sched \<Rightarrow> nat \<times> sched" where
  "push_task cpu prio parent s =
     (next_id s, s\<lparr>tasks := tasks s @ [new_task (next_id s) cpu prio parent], next_id := (next_id s + 1) mod 2 ^ 64\<rparr>)"

definition spawn :: "nat \<Rightarrow> sched \<Rightarrow> sched" where
  "spawn me s = snd (push_task me PRIO_NORMAL 0 s)"

definition spawn_prio :: "nat \<Rightarrow> nat \<Rightarrow> sched \<Rightarrow> sched" where
  "spawn_prio me prio s = snd (push_task me prio 0 s)"

definition spawn_with_parent :: "nat \<Rightarrow> nat \<Rightarrow> nat \<Rightarrow> sched \<Rightarrow> nat \<times> sched" where
  "spawn_with_parent me prio parent s = push_task me prio parent s"

definition current_task_id :: "nat \<Rightarrow> sched \<Rightarrow> nat" where
  "current_task_id me s = (case cur_index me s of None \<Rightarrow> 0 | Some i \<Rightarrow> t_id (tasks s ! i))"

definition spawn_user_with_parent :: "nat \<Rightarrow> nat \<Rightarrow> sched \<Rightarrow> nat \<times> sched" where
  "spawn_user_with_parent me parent s = push_task me PRIO_NORMAL parent s"

definition spawn_user :: "nat \<Rightarrow> sched \<Rightarrow> nat \<times> sched" where
  "spawn_user me s = spawn_user_with_parent me (current_task_id me s) s"

text \<open>The reschedule interrupt looks up the target's \<open>PerCpu\<close> block, which asserts the CPU number.\<close>

definition spawn_on_cpu :: "nat \<Rightarrow> nat \<Rightarrow> sched \<Rightarrow> (unit, nat \<times> sched) res" where
  "spawn_on_cpu prio cpu s = (if MAX_CPUS \<le> cpu then Panic else Ok (push_task cpu prio 0 s))"

definition set_linux_abi :: "nat \<Rightarrow> sched \<Rightarrow> sched" where
  "set_linux_abi i s =
     (case first_task (\<lambda>_ t. t_id t = i) s of None \<Rightarrow> s | Some k \<Rightarrow> set_task k (\<lambda>t. t\<lparr>linux_abi := True\<rparr>) s)"

definition current_is_linux :: "nat \<Rightarrow> sched \<Rightarrow> bool" where
  "current_is_linux me s = (case cur_index me s of None \<Rightarrow> False | Some i \<Rightarrow> linux_abi (tasks s ! i))"

definition has_ready_tasks :: "nat \<Rightarrow> sched \<Rightarrow> bool" where
  "has_ready_tasks me s = list_ex (\<lambda>t. t_state t = Ready \<and> owner_cpu t = me) (tasks s)"

section \<open>The end of a task\<close>

definition mark_current_dead :: "nat \<Rightarrow> sched \<Rightarrow> sched" where
  "mark_current_dead me = on_current me (\<lambda>t. t\<lparr>t_state := Dead, exit_code := 0, reaped := False\<rparr>)"

definition record_exit :: "nat \<Rightarrow> nat \<Rightarrow> sched \<Rightarrow> sched" where
  "record_exit me code = on_current me (\<lambda>t. t\<lparr>t_state := Dead, exit_code := code, reaped := False\<rparr>)"

definition kill :: "nat \<Rightarrow> nat \<Rightarrow> sched \<Rightarrow> (unit, bool \<times> sched) res" where
  "kill me pid s =
     (case first_task (\<lambda>i t. t_id t = pid \<and> Some i \<noteq> cur_index me s \<and> t_state t \<noteq> Dead) s of
        None \<Rightarrow> Ok (False, s)
      | Some i \<Rightarrow>
          if owner_cpu (tasks s ! i) \<noteq> me \<and> MAX_CPUS \<le> owner_cpu (tasks s ! i) then Panic
          else Ok (True, set_task i (\<lambda>t. t\<lparr>t_state := Dead, exit_code := 137, reaped := False\<rparr>) s))"

definition find_task :: "nat \<Rightarrow> task list \<Rightarrow> nat option" where
  "find_task pid ts = find (\<lambda>i. t_id (ts ! i) = pid) [0..<length ts]"

definition is_child :: "nat \<Rightarrow> nat \<Rightarrow> task \<Rightarrow> bool" where
  "is_child cur_id pid t \<longleftrightarrow> parent_id t = cur_id \<and> (pid = 0 \<or> t_id t = pid)"

definition child_waitable :: "nat \<Rightarrow> nat \<Rightarrow> sched \<Rightarrow> bool" where
  "child_waitable me pid s =
     (case cur_index me s of
        None \<Rightarrow> False
      | Some c \<Rightarrow> list_ex (\<lambda>t. is_child (t_id (tasks s ! c)) pid t \<and> (t_state t \<noteq> Dead \<or> \<not> reaped t)) (tasks s))"

definition try_reap :: "nat \<Rightarrow> nat \<Rightarrow> sched \<Rightarrow> (nat \<times> nat) option \<times> sched" where
  "try_reap me pid s =
     (case cur_index me s of
        None \<Rightarrow> (None, s)
      | Some c \<Rightarrow>
          (case first_task (\<lambda>_ t. is_child (t_id (tasks s ! c)) pid t \<and> t_state t = Dead \<and> \<not> reaped t) s of
             None \<Rightarrow> (None, s)
           | Some i \<Rightarrow> (Some (t_id (tasks s ! i), exit_code (tasks s ! i)), set_task i (\<lambda>t. t\<lparr>reaped := True\<rparr>) s)))"

definition is_reaped :: "nat \<Rightarrow> sched \<Rightarrow> bool" where
  "is_reaped pid s = (case find_task pid (tasks s) of None \<Rightarrow> True | Some i \<Rightarrow> reaped (tasks s ! i))"

definition current_parent_id :: "nat \<Rightarrow> sched \<Rightarrow> nat" where
  "current_parent_id me s = (case cur_index me s of None \<Rightarrow> 0 | Some i \<Rightarrow> parent_id (tasks s ! i))"

section \<open>Blocking and sleeping\<close>

definition block_on_child :: "nat \<Rightarrow> sched \<Rightarrow> sched" where
  "block_on_child me = on_current me (\<lambda>t. t\<lparr>t_state := Blocked, blocked_on_child := True\<rparr>)"

definition sleep_current :: "nat \<Rightarrow> nat \<Rightarrow> sched \<Rightarrow> sched" where
  "sleep_current me wake_ms = on_current me (\<lambda>t. t\<lparr>t_state := Sleeping, sleep_until_ms := wake_ms,
     blocked_on_input := False, blocked_on_raw := False\<rparr>)"

text \<open>The coarse deadline is a checked sum, the fine one wraps.\<close>

definition sleep_current_ns :: "nat \<Rightarrow> env \<Rightarrow> nat \<Rightarrow> sched \<Rightarrow> (unit, sched) res" where
  "sleep_current_ns me e delay_ns s =
     (if cur_index me s = None then Ok s
      else if 2 ^ 64 \<le> now_ms e + delay_ns div 1000000 * 10 + 10 then Panic
      else Ok (on_current me (\<lambda>t. t\<lparr>t_state := Sleeping, sleep_until_ms := now_ms e + delay_ns div 1000000 * 10 + 10,
        sleep_until_ns := (now_ns e + delay_ns) mod 2 ^ 64, blocked_on_input := False, blocked_on_raw := False\<rparr>) s))"

definition wake_task_now :: "nat \<Rightarrow> sched \<Rightarrow> bool \<times> sched" where
  "wake_task_now i s =
     (case first_task (\<lambda>_ t. t_id t = i) s of
        None \<Rightarrow> (False, s)
      | Some k \<Rightarrow>
          if t_state (tasks s ! k) = Sleeping then (True, set_task k (\<lambda>t. t\<lparr>t_state := Ready\<rparr>) s)
          else (False, s))"

definition block_current_on_input :: "nat \<Rightarrow> sched \<Rightarrow> sched" where
  "block_current_on_input me = on_current me (\<lambda>t. t\<lparr>t_state := Blocked, blocked_on_input := True\<rparr>)"

definition block_current_on_raw_input :: "nat \<Rightarrow> sched \<Rightarrow> sched" where
  "block_current_on_raw_input me = on_current me (\<lambda>t. t\<lparr>t_state := Blocked, blocked_on_raw := True\<rparr>)"

text \<open>The locked first half of \<open>yield_current\<close>; the second half is \<open>preempt\<close>.\<close>

definition mark_ready :: "nat \<Rightarrow> sched \<Rightarrow> sched" where
  "mark_ready me = on_current me (\<lambda>t. if t_state t = Running then t\<lparr>t_state := Ready\<rparr> else t)"

definition set_priority :: "nat \<Rightarrow> nat \<Rightarrow> sched \<Rightarrow> bool \<times> sched" where
  "set_priority i prio s =
     (case first_task (\<lambda>_ t. t_id t = i \<and> t_state t \<noteq> Dead) s of
        None \<Rightarrow> (False, s)
      | Some k \<Rightarrow> (True, set_task k (\<lambda>t. t\<lparr>priority := prio\<rparr>) s))"

section \<open>The wake pass\<close>

definition has_dead_unreaped_child :: "nat \<Rightarrow> task list \<Rightarrow> bool" where
  "has_dead_unreaped_child i ts = list_ex (\<lambda>t. parent_id t = t_id (ts ! i) \<and> t_state t = Dead \<and> \<not> reaped t) ts"

definition sleeper_due :: "env \<Rightarrow> task \<Rightarrow> bool" where
  "sleeper_due e t \<longleftrightarrow> sleep_until_ns t \<noteq> 0 \<and> sleep_until_ns t \<le> now_ns e \<or> sleep_until_ms t \<le> now_ms e"

text \<open>A zombie nobody will wait for: its parent is the kernel, gone, or dead itself.\<close>

definition orphaned :: "task list \<Rightarrow> task \<Rightarrow> bool" where
  "orphaned ts t \<longleftrightarrow> parent_id t = 0 \<or>
     (case find_task (parent_id t) ts of Some p \<Rightarrow> t_state (ts ! p) = Dead | None \<Rightarrow> True)"

definition wake_task :: "env \<Rightarrow> task list \<Rightarrow> nat \<Rightarrow> task" where
  "wake_task e ts i =
     (let t = ts ! i in
      case t_state t of
        Sleeping \<Rightarrow>
          if sleeper_due e t then t\<lparr>t_state := Ready, sleep_until_ns := 0\<rparr>
          else if sleep_until_ms t + 3000 < now_ms e \<and> \<not> wake_diag t then t\<lparr>wake_diag := True\<rparr>
          else t
      | Blocked \<Rightarrow>
          if blocked_on_input t then (if line_pending e then t\<lparr>t_state := Ready\<rparr> else t)
          else if blocked_on_raw t then (if input_pending e then t\<lparr>t_state := Ready\<rparr> else t)
          else if blocked_on_child t then (if has_dead_unreaped_child i ts then t\<lparr>t_state := Ready\<rparr> else t)
          else t
      | Dead \<Rightarrow> if \<not> reaped t \<and> orphaned ts t then t\<lparr>reaped := True\<rparr> else t
      | _ \<Rightarrow> t)"

text \<open>The pass visits the table in order and sees the changes it has already made.\<close>

definition wake_pass :: "env \<Rightarrow> task list \<Rightarrow> task list" where
  "wake_pass e ts = fold (\<lambda>i us. us[i := wake_task e us i]) [0..<length ts] ts"

text \<open>The overdue test adds three seconds to the deadline of a sleeper that is not due.\<close>

definition wake_state_locked :: "env \<Rightarrow> sched \<Rightarrow> (unit, sched) res" where
  "wake_state_locked e s =
     (if list_ex (\<lambda>t. t_state t = Sleeping \<and> \<not> sleeper_due e t \<and> 2 ^ 64 \<le> sleep_until_ms t + 3000) (tasks s) then Panic
      else Ok (s\<lparr>tasks := wake_pass e (tasks s)\<rparr>))"

section \<open>Diagnostics\<close>

definition hopb_open :: "sched \<Rightarrow> sched" where
  "hopb_open s = s\<lparr>hopb_samples := 0, hopb_idle := 0, hopb_contender := None, hopb_armed := True\<rparr>"

definition hopb_close :: "sched \<Rightarrow> sched" where
  "hopb_close s = s\<lparr>hopb_armed := False\<rparr>"

definition hopb_sample :: "nat option \<Rightarrow> sched \<Rightarrow> sched" where
  "hopb_sample c s =
     (if hopb_armed s then
        (case c of
           None \<Rightarrow> s\<lparr>hopb_samples := (hopb_samples s + 1) mod 2 ^ 64, hopb_idle := (hopb_idle s + 1) mod 2 ^ 64\<rparr>
         | Some i \<Rightarrow> s\<lparr>hopb_samples := (hopb_samples s + 1) mod 2 ^ 64, hopb_contender := Some (i mod 2 ^ 32)\<rparr>)
      else s)"

definition hopb_report :: "sched \<Rightarrow> (nat option \<times> nat \<times> nat \<times> nat) option" where
  "hopb_report s =
     (if hopb_samples s = 0 then None
      else Some (hopb_contender s,
        (case hopb_contender s of Some c \<Rightarrow> if c < length (tasks s) then priority (tasks s ! c) else 0 | None \<Rightarrow> 0),
        hopb_samples s, hopb_idle s))"

definition publish_present_index :: "nat \<Rightarrow> sched \<Rightarrow> sched" where
  "publish_present_index me s =
     s\<lparr>present_task_index := (case cur_index me s of Some i \<Rightarrow> i | None \<Rightarrow> 2 ^ 64 - 1)\<rparr>"

definition note_present_wake_cpu :: "nat \<Rightarrow> sched \<Rightarrow> sched" where
  "note_present_wake_cpu me s =
     (let i = present_task_index s in
      if i = 0 \<or> length (tasks s) \<le> i then s
      else let s1 = s\<lparr>wake_on_cpu := (wake_on_cpu s + 1) mod 2 ^ 64\<rparr> in
        if owner_cpu (tasks s ! i) \<noteq> me then s1\<lparr>wake_wrong_cpu := (wake_wrong_cpu s + 1) mod 2 ^ 64\<rparr> else s1)"

definition present_is_parked :: "sched \<Rightarrow> bool" where
  "present_is_parked s =
     (let i = present_task_index s in
      if i = 0 \<or> length (tasks s) \<le> i then False else t_state (tasks s ! i) = Sleeping)"

text \<open>A task that the wake pass should have made runnable.\<close>

definition stuck :: "env \<Rightarrow> task \<Rightarrow> bool" where
  "stuck e t \<longleftrightarrow> t_state t = Sleeping \<and> sleep_until_ms t \<le> now_ms e \<or>
     t_state t = Blocked \<and> (blocked_on_input t \<and> line_pending e \<or> blocked_on_raw t \<and> input_pending e)"

definition stall_tick :: "env \<Rightarrow> nat \<Rightarrow> nat option \<Rightarrow> sched \<Rightarrow> (unit, sched) res" where
  "stall_tick e c best s =
     (if priority (tasks s ! c) = PRIO_RT then Ok (s\<lparr>stall_ticks := 0, noready_ticks := 0\<rparr>)
      else
        let nothing_ready = (best = None);
            is_stuck = (nothing_ready \<and> list_ex (stuck e) (tasks s)) in
        if is_stuck \<and> 2 ^ 32 \<le> noready_ticks s + 1 \<or> 2 ^ 32 \<le> stall_ticks s + 1 then Panic
        else
          let nr = (if is_stuck then noready_ticks s + 1 else 0);
              st = stall_ticks s + 1;
              runaway = (150 \<le> st \<and> \<not> nothing_ready \<and> \<not> stall_dumped s);
              vanished = (8 \<le> nr \<and> \<not> noready_dumped s) in
          Ok (s\<lparr>noready_ticks := nr, stall_ticks := st, stall_dumped := stall_dumped s \<or> runaway,
            noready_dumped := noready_dumped s \<or> vanished\<rparr>))"

section \<open>Choosing and switching\<close>

definition release_pending_prev :: "nat \<Rightarrow> sched \<Rightarrow> sched" where
  "release_pending_prev me s =
     (let s1 = set_cpu me (\<lambda>c. c\<lparr>pending_prev := None\<rparr>) s in
      case pending_prev (cpus s me) of
        None \<Rightarrow> s1
      | Some p \<Rightarrow>
          if Some p = cur_index me s then s1
          else if t_state (tasks s ! p) = Running \<and> owner_cpu (tasks s ! p) = me
          then set_task p (\<lambda>t. t\<lparr>t_state := Ready\<rparr>) s1
          else s1)"

type_synonym choice = "nat option \<times> nat \<times> bool"

definition pick_step :: "nat \<Rightarrow> task list \<Rightarrow> nat \<Rightarrow> choice \<Rightarrow> choice" where
  "pick_step me ts i ch =
     (let (best, best_prio, best_local) = ch; p = priority (ts ! i) in
      if t_state (ts ! i) \<noteq> Ready \<or> owner_cpu (ts ! i) \<noteq> me then ch
      else if p < best_prio \<or> p = best_prio \<and> \<not> best_local \<and> best \<noteq> None then (Some i, p, True)
      else ch)"

text \<open>The order in which the table is searched: round robin after the current task.\<close>

definition rotation :: "nat option \<Rightarrow> nat \<Rightarrow> nat list" where
  "rotation c n = map (\<lambda>k. ((case c of None \<Rightarrow> 0 | Some i \<Rightarrow> i + 1) + k) mod n) [0..<n]"

definition pick :: "nat \<Rightarrow> nat option \<Rightarrow> task list \<Rightarrow> choice" where
  "pick me c ts = fold (pick_step me ts) (rotation c (length ts)) (None, 2 ^ 32 - 1, False)"

definition charge_slice :: "nat option \<Rightarrow> sched \<Rightarrow> sched" where
  "charge_slice c s =
     (case c of
        None \<Rightarrow> s
      | Some i \<Rightarrow> if t_state (tasks s ! i) = Running then set_task i (\<lambda>t. t\<lparr>slice_left := slice_left t - 1\<rparr>) s else s)"

definition keeps_cpu :: "task \<Rightarrow> nat option \<Rightarrow> nat \<Rightarrow> bool" where
  "keeps_cpu t best best_prio \<longleftrightarrow> t_state t = Running \<and>
     (best = None \<or> priority t = PRIO_RT \<or> 0 < slice_left t \<and> priority t \<le> best_prio)"

text \<open>The switch itself: bookkeeping of the outgoing and of the incoming context.\<close>

definition commit_switch :: "nat \<Rightarrow> nat option \<Rightarrow> sched \<Rightarrow> sched" where
  "commit_switch me nxt s =
     (let c = cur_index me s;
          s1 = (case c of
                  Some i \<Rightarrow> if t_state (tasks s ! i) = Running then set_cpu me (\<lambda>p. p\<lparr>pending_prev := Some i\<rparr>) s else s
                | None \<Rightarrow> s);
          s2 = (case nxt of
                  Some j \<Rightarrow> set_task j (\<lambda>t. t\<lparr>slice_left := fresh_slice (priority t), t_state := Running\<rparr>) s1
                | None \<Rightarrow> s1) in
      set_cpu me (\<lambda>p. p\<lparr>current := nxt\<rparr>) s2)"

definition plan_switch :: "nat \<Rightarrow> env \<Rightarrow> sched \<Rightarrow> (unit, (nat option \<times> nat option) option \<times> sched) res" where
  "plan_switch me e s =
     (if tasks s = [] then Ok (None, s)
      else bindR (wake_state_locked e s) (\<lambda>s1.
        let c = cur_index me s1;
            s2 = charge_slice c s1;
            (best, best_prio, _) = pick me c (tasks s2);
            go = (let s3 = s2\<lparr>stall_ticks := 0, noready_ticks := 0\<rparr> in
                  if best = c then Ok (None, s3) else Ok (Some (c, best), commit_switch me best s3)) in
        case c of
          Some i \<Rightarrow>
            if keeps_cpu (tasks s2 ! i) best best_prio then
              let s3 = hopb_sample c s2 in
              if me = 0 then bindR (stall_tick e i best s3) (\<lambda>s4. Ok (None, s4)) else Ok (None, s3)
            else go
        | None \<Rightarrow>
            if best = None then Ok (None, s2\<lparr>stall_ticks := 0, noready_ticks := 0\<rparr>) else go))"

text \<open>The result is the pair of contexts to save and to resume, if there is a switch.\<close>

definition preempt :: "nat \<Rightarrow> env \<Rightarrow> sched \<Rightarrow> (unit, (nat option \<times> nat option) option \<times> sched) res" where
  "preempt me e s =
     bindR (plan_switch me e (release_pending_prev me s)) (\<lambda>(plan, s').
       case plan of
         None \<Rightarrow> Ok (None, s')
       | Some p \<Rightarrow> Ok (Some p, set_cpu me (\<lambda>c. c\<lparr>switches := (switches c + 1) mod 2 ^ 64\<rparr>) s'))"

definition yield_current :: "nat \<Rightarrow> env \<Rightarrow> sched \<Rightarrow> (unit, (nat option \<times> nat option) option \<times> sched) res" where
  "yield_current me e s = preempt me e (mark_ready me s)"

text \<open>\<open>sleep_kernel\<close>: the fine-grained sleep followed by a reschedule.\<close>

definition sleep_kernel :: "nat \<Rightarrow> env \<Rightarrow> nat \<Rightarrow> sched \<Rightarrow> (unit, (nat option \<times> nat option) option \<times> sched) res" where
  "sleep_kernel me e ms s =
     bindR (sleep_current_ns me e (min (ms * 1000000) (2 ^ 64 - 1)) s) (\<lambda>s'. preempt me e s')"

section \<open>The system as a step relation\<close>

text \<open>One locked section of some CPU \<open>me\<close>.\<close>

inductive sched_step :: "sched \<Rightarrow> sched \<Rightarrow> bool" where
  st_spawn: "me < MAX_CPUS \<Longrightarrow> sched_step s (spawn me s)"
| st_spawn_prio: "me < MAX_CPUS \<Longrightarrow> prio < 256 \<Longrightarrow> sched_step s (spawn_prio me prio s)"
| st_spawn_child: "me < MAX_CPUS \<Longrightarrow> prio < 256 \<Longrightarrow> sched_step s (snd (spawn_with_parent me prio parent s))"
| st_spawn_user: "me < MAX_CPUS \<Longrightarrow> sched_step s (snd (spawn_user_with_parent me parent s))"
| st_spawn_on: "prio < 256 \<Longrightarrow> spawn_on_cpu prio cpu s = Ok (i, s') \<Longrightarrow> sched_step s s'"
| st_linux: "sched_step s (set_linux_abi i s)"
| st_dead: "sched_step s (mark_current_dead me s)"
| st_exit: "sched_step s (record_exit me code s)"
| st_kill: "kill me pid s = Ok (b, s') \<Longrightarrow> sched_step s s'"
| st_reap: "sched_step s (snd (try_reap me pid s))"
| st_block_child: "sched_step s (block_on_child me s)"
| st_sleep: "sched_step s (sleep_current me ms s)"
| st_sleep_ns: "sleep_current_ns me e d s = Ok s' \<Longrightarrow> sched_step s s'"
| st_wake: "sched_step s (snd (wake_task_now i s))"
| st_block_input: "sched_step s (block_current_on_input me s)"
| st_block_raw: "sched_step s (block_current_on_raw_input me s)"
| st_mark_ready: "sched_step s (mark_ready me s)"
| st_priority: "prio < 256 \<Longrightarrow> sched_step s (snd (set_priority i prio s))"
| st_release: "sched_step s (release_pending_prev me s)"
| st_preempt: "preempt me e s = Ok (p, s') \<Longrightarrow> sched_step s s'"
| st_hopb_open: "sched_step s (hopb_open s)"
| st_hopb_close: "sched_step s (hopb_close s)"
| st_publish: "sched_step s (publish_present_index me s)"
| st_note: "sched_step s (note_present_wake_cpu me s)"

definition sched_reach :: "sched \<Rightarrow> bool" where
  "sched_reach = sched_step\<^sup>*\<^sup>* boot_sched"

section \<open>The ownership invariant\<close>

definition claimed :: "sched \<Rightarrow> nat \<Rightarrow> nat \<Rightarrow> bool" where
  "claimed s c i \<longleftrightarrow> current (cpus s c) = Some i \<or> pending_prev (cpus s c) = Some i"

definition task_wf :: "task \<Rightarrow> bool" where
  "task_wf t \<longleftrightarrow> owner_cpu t < MAX_CPUS \<and> priority t < 256 \<and> slice_left t \<le> 8"

lemma fresh_slice_bounds [simp]: "fresh_slice p \<le> 8" "0 < fresh_slice p"
  by (simp_all add: fresh_slice_def)

definition sched_inv :: "sched \<Rightarrow> bool" where
  "sched_inv s \<longleftrightarrow>
     (\<forall>c i. claimed s c i \<longrightarrow> i < length (tasks s) \<and> owner_cpu (tasks s ! i) = c) \<and>
     (\<forall>c i. current (cpus s c) = Some i \<longrightarrow> pending_prev (cpus s c) \<noteq> Some i) \<and>
     (\<forall>i < length (tasks s). t_state (tasks s ! i) = Running \<longrightarrow> claimed s (owner_cpu (tasks s ! i)) i) \<and>
     (\<forall>i < length (tasks s). task_wf (tasks s ! i)) \<and>
     (\<forall>i < length (tasks s). t_id (tasks s ! i) = (i + 1) mod 2 ^ 64) \<and> next_id s = (length (tasks s) + 1) mod 2 ^ 64"

text \<open>A change of tasks that keeps identity and ownership and starts nobody.\<close>

definition tame :: "task \<Rightarrow> task \<Rightarrow> bool" where
  "tame t u \<longleftrightarrow> owner_cpu u = owner_cpu t \<and> t_id u = t_id t \<and> (task_wf t \<longrightarrow> task_wf u) \<and>
     (t_state u = Running \<longrightarrow> t_state t = Running)"

lemma tame_refl [simp]: "tame t t"
  by (simp add: tame_def)

lemma tame_trans: "tame t u \<Longrightarrow> tame u v \<Longrightarrow> tame t v"
  by (auto simp: tame_def)

lemma inv_tame:
  assumes "sched_inv s" "cpus s' = cpus s" "next_id s' = next_id s" "length (tasks s') = length (tasks s)"
    and "\<And>i. i < length (tasks s) \<Longrightarrow> tame (tasks s ! i) (tasks s' ! i)"
  shows "sched_inv s'"
  using assms unfolding sched_inv_def claimed_def tame_def by simp

lemma set_task_simps [simp]:
  "cpus (set_task i f s) = cpus s" "next_id (set_task i f s) = next_id s" "length (tasks (set_task i f s)) = length (tasks s)"
  by (simp_all add: set_task_def)

lemma inv_set_task: "sched_inv s \<Longrightarrow> (\<And>t. tame t (f t)) \<Longrightarrow> sched_inv (set_task i f s)"
  by (rule inv_tame [of s]; cases "i < length (tasks s)") (auto simp: set_task_def nth_list_update)

lemma inv_on_current: "sched_inv s \<Longrightarrow> (\<And>t. tame t (f t)) \<Longrightarrow> sched_inv (on_current me f s)"
  by (auto simp: on_current_def inv_set_task split: option.splits)

lemma inv_push:
  assumes "sched_inv s" "cpu < MAX_CPUS" "prio < 256"
  shows "sched_inv (snd (push_task cpu prio parent s))"
proof -
  have "task_wf (new_task (next_id s) cpu prio parent)" "t_state (new_task (next_id s) cpu prio parent) = Ready"
    using assms(2,3) by (simp_all add: task_wf_def new_task_def MAX_CPUS_def)
  moreover have "((length (tasks s) + 1) mod 2 ^ 64 + 1) mod 2 ^ 64 = (length (tasks s) + 2) mod (2 ^ 64 :: nat)"
    by (simp add: mod_Suc_eq)
  ultimately show ?thesis
    using assms(1) unfolding sched_inv_def claimed_def push_task_def
    by (auto simp: nth_append less_Suc_eq new_task_def)
qed

lemma wake_task_tame: "tame (ts ! i) (wake_task e ts i)"
  by (cases "t_state (ts ! i)") (simp_all add: wake_task_def tame_def task_wf_def Let_def)

lemma fold_tame:
  assumes "\<And>us i. length us = n \<Longrightarrow> length (f i us) = n \<and> (\<forall>k < n. tame (us ! k) (f i us ! k))" "length us = n"
  shows "length (fold f is us) = n \<and> (\<forall>k < n. tame (us ! k) (fold f is us ! k))"
  using assms(2)
proof (induction "is" arbitrary: us)
  case (Cons i "is")
  then show ?case using assms(1) [of us i] by (auto intro: tame_trans)
qed simp

lemma wake_pass_tame:
  "length (wake_pass e ts) = length ts" "i < length ts \<Longrightarrow> tame (ts ! i) (wake_pass e ts ! i)"
proof -
  have "length (us[i := wake_task e us i]) = length ts \<and> (\<forall>k < length ts. tame (us ! k) (us[i := wake_task e us i] ! k))"
    if "length us = length ts" for us i
    using that wake_task_tame [of us i e] by (cases "i < length us") (auto simp: nth_list_update)
  then show "length (wake_pass e ts) = length ts" "i < length ts \<Longrightarrow> tame (ts ! i) (wake_pass e ts ! i)"
    using fold_tame [of "length ts" "\<lambda>i us. us[i := wake_task e us i]" ts "[0..<length ts]"]
    by (simp_all add: wake_pass_def)
qed

lemma sched_invD:
  assumes "sched_inv s"
  shows "claimed s c i \<Longrightarrow> i < length (tasks s)" "claimed s c i \<Longrightarrow> owner_cpu (tasks s ! i) = c"
    "current (cpus s c) = Some i \<Longrightarrow> pending_prev (cpus s c) \<noteq> Some i"
    "i < length (tasks s) \<Longrightarrow> t_state (tasks s ! i) = Running \<Longrightarrow> claimed s (owner_cpu (tasks s ! i)) i"
    "i < length (tasks s) \<Longrightarrow> task_wf (tasks s ! i)" "i < length (tasks s) \<Longrightarrow> t_id (tasks s ! i) = (i + 1) mod 2 ^ 64"
    "next_id s = (length (tasks s) + 1) mod 2 ^ 64"
  using assms unfolding sched_inv_def by blast+

lemma inv_release:
  assumes "sched_inv s"
  shows "sched_inv (release_pending_prev me s)"
proof (cases "pending_prev (cpus s me)")
  case None
  then have "cpus s me = cpus s me\<lparr>pending_prev := None\<rparr>" by simp
  then have "(cpus s)(me := cpus s me\<lparr>pending_prev := None\<rparr>) = cpus s" by (rule fun_upd_idem)
  then have "cpus (release_pending_prev me s) = cpus s" "tasks (release_pending_prev me s) = tasks s"
    "next_id (release_pending_prev me s) = next_id s"
    using None by (simp_all add: release_pending_prev_def set_cpu_def)
  then show ?thesis using inv_tame [OF assms] by simp
next
  case (Some p)
  let ?s = "release_pending_prev me s"
  have p: "p < length (tasks s)" "owner_cpu (tasks s ! p) = me" "current (cpus s me) \<noteq> Some p"
    using sched_invD(1,2,3) [OF assms, of me p] Some by (auto simp: claimed_def)
  then have eq: "cpus ?s = (cpus s)(me := cpus s me\<lparr>pending_prev := None\<rparr>)" "next_id ?s = next_id s"
    "tasks ?s = (if t_state (tasks s ! p) = Running then (tasks s)[p := (tasks s ! p)\<lparr>t_state := Ready\<rparr>] else tasks s)"
    using Some by (auto simp: release_pending_prev_def set_cpu_def set_task_def cur_index_def Let_def)
  have cl: "claimed ?s c i \<longleftrightarrow> claimed s c i \<and> \<not> (c = me \<and> i = p)" for c i
    using Some p(3) by (auto simp: claimed_def eq)
  have task: "tame (tasks s ! i) (tasks ?s ! i)" "t_state (tasks ?s ! p) \<noteq> Running" "length (tasks ?s) = length (tasks s)" for i
    using p(1) by (auto simp: eq nth_list_update tame_def task_wf_def)
  show ?thesis
    unfolding sched_inv_def cl task(3) using sched_invD [OF assms] task(1,2)
    by (auto simp: eq(1,2) tame_def)
qed

lemma release_fields:
  "pending_prev (cpus (release_pending_prev me s) me) = None" "current (cpus (release_pending_prev me s) c) = current (cpus s c)"
  by (auto simp: release_pending_prev_def set_cpu_def set_task_def Let_def split: option.splits)

section \<open>The choice\<close>

definition eligible :: "nat \<Rightarrow> task \<Rightarrow> bool" where
  "eligible me t \<longleftrightarrow> t_state t = Ready \<and> owner_cpu t = me"

text \<open>The reference: the first task of the search order among those of the most urgent priority.\<close>

definition most_urgent :: "nat \<Rightarrow> task list \<Rightarrow> nat list \<Rightarrow> nat \<Rightarrow> bool" where
  "most_urgent me ts xs j \<longleftrightarrow>
     find (\<lambda>i. eligible me (ts ! i) \<and> priority (ts ! i) = priority (ts ! j)) xs = Some j \<and>
     (\<forall>i \<in> set xs. eligible me (ts ! i) \<longrightarrow> priority (ts ! j) \<le> priority (ts ! i))"

lemma find_append: "find P (xs @ ys) = (case find P xs of None \<Rightarrow> find P ys | Some x \<Rightarrow> Some x)"
  by (induction xs) auto

lemma pick_step_cases:
  "\<not> eligible me (ts ! x) \<Longrightarrow> pick_step me ts x ch = ch"
  "eligible me (ts ! x) \<Longrightarrow> priority (ts ! x) < p \<Longrightarrow> pick_step me ts x (best, p, l) = (Some x, priority (ts ! x), True)"
  "\<not> priority (ts ! x) < p \<Longrightarrow> pick_step me ts x (best, p, True) = (best, p, True)"
  by (auto simp: pick_step_def eligible_def Let_def)

lemma most_urgent_snoc:
  assumes "eligible me (ts ! x)" "\<forall>i \<in> set xs. eligible me (ts ! i) \<longrightarrow> priority (ts ! x) < priority (ts ! i)"
  shows "most_urgent me ts (xs @ [x]) x"
proof -
  have "find (\<lambda>i. eligible me (ts ! i) \<and> priority (ts ! i) = priority (ts ! x)) xs = None"
    using assms(2) by (auto simp: find_None_iff)
  then show ?thesis using assms by (auto simp: most_urgent_def find_append)
qed

lemma fold_pick:
  assumes "\<forall>i \<in> set xs. priority (ts ! i) < 256"
  shows "case fold (pick_step me ts) xs (None, 2 ^ 32 - 1, False) of
      (None, p, l) \<Rightarrow> (\<forall>i \<in> set xs. \<not> eligible me (ts ! i)) \<and> p = 2 ^ 32 - 1
    | (Some j, p, l) \<Rightarrow> most_urgent me ts xs j \<and> p = priority (ts ! j) \<and> l"
  using assms
proof (induction xs rule: rev_induct)
  case (snoc x xs)
  obtain best p l where b: "fold (pick_step me ts) xs (None, 2 ^ 32 - 1, False) = (best, p, l)" by (metis prod_cases3)
  have f: "fold (pick_step me ts) (xs @ [x]) (None, 2 ^ 32 - 1, False) = pick_step me ts x (best, p, l)" using b by simp
  have x: "priority (ts ! x) < 2 ^ 32 - 1" using snoc.prems by (simp add: less_trans [of _ 256])
  show ?case
  proof (cases best)
    case None
    then have n: "\<forall>i \<in> set xs. \<not> eligible me (ts ! i)" "p = 2 ^ 32 - 1" using snoc b by simp_all
    show ?thesis
    proof (cases "eligible me (ts ! x)")
      case True
      then show ?thesis using n x most_urgent_snoc [OF True, of xs] unfolding f by (simp add: pick_step_cases(2))
    next
      case False
      then show ?thesis using n None unfolding f by (simp add: pick_step_cases(1))
    qed
  next
    case (Some j)
    then have j: "most_urgent me ts xs j" "p = priority (ts ! j)" "l" using snoc b by simp_all
    show ?thesis
    proof (cases "eligible me (ts ! x) \<and> priority (ts ! x) < p")
      case True
      then have "most_urgent me ts (xs @ [x]) x" using j(1,2) by (intro most_urgent_snoc) (auto simp: most_urgent_def)
      then show ?thesis using True unfolding f by (simp add: pick_step_cases(2))
    next
      case False
      then have "pick_step me ts x (best, p, l) = (Some j, p, True)"
        using j(3) Some pick_step_cases(1) [of me ts x] pick_step_cases(3) [of ts x p] by (cases "eligible me (ts ! x)") auto
      moreover have "most_urgent me ts (xs @ [x]) j"
        using j(1,2) False by (auto simp: most_urgent_def find_append)
      ultimately show ?thesis using j(2) unfolding f by simp
    qed
  qed
qed simp

lemma set_rotation: "set (rotation c n) = {..<n}"
proof (cases n)
  case (Suc m)
  define a where "a = (case c of None \<Rightarrow> 0 | Some i \<Rightarrow> i + 1)"
  have "x \<in> set (rotation c n)" if "x < n" for x
  proof -
    let ?k = "(x + n - a mod n) mod n"
    have "(a + ?k) mod n = (a mod n + (x + n - a mod n)) mod n" by (metis mod_add_eq mod_mod_trivial)
    also have "a mod n + (x + n - a mod n) = x + n"
      by (rule le_add_diff_inverse) (use mod_less_divisor [of n a] that in linarith)
    also have "(x + n) mod n = x" using that by simp
    finally have "x = (a + ?k) mod n" by simp
    moreover have "?k \<in> {0..<n}" using Suc by simp
    ultimately show ?thesis unfolding rotation_def a_def [symmetric] set_map set_upt by (rule image_eqI)
  qed
  then show ?thesis using Suc by (auto simp: rotation_def)
qed (simp add: rotation_def)

lemma pick_Some:
  assumes "pick me c ts = (Some j, p, l)" "\<forall>i < length ts. priority (ts ! i) < 256"
  shows "most_urgent me ts (rotation c (length ts)) j" "j < length ts" "eligible me (ts ! j)" "p = priority (ts ! j)"
proof -
  show m: "most_urgent me ts (rotation c (length ts)) j" and "p = priority (ts ! j)"
    using fold_pick [of "rotation c (length ts)" ts me] assms set_rotation [of c "length ts"] by (auto simp: pick_def)
  show "j < length ts" "eligible me (ts ! j)"
    using m set_rotation [of c "length ts"] by (auto simp: most_urgent_def find_Some_iff)
qed

lemma pick_None:
  assumes "pick me c ts = (None, p, l)" "\<forall>i < length ts. priority (ts ! i) < 256" "i < length ts"
  shows "\<not> eligible me (ts ! i)"
  using fold_pick [of "rotation c (length ts)" ts me] assms set_rotation [of c "length ts"] by (auto simp: pick_def)

section \<open>What a reschedule does\<close>

text \<open>The state in which the choice is made: after the wake pass, with the current slice charged.\<close>

definition woken :: "nat \<Rightarrow> env \<Rightarrow> sched \<Rightarrow> sched" where
  "woken me e s = charge_slice (cur_index me s) (s\<lparr>tasks := wake_pass e (tasks s)\<rparr>)"

definition same_core :: "sched \<Rightarrow> sched \<Rightarrow> bool" where
  "same_core s t \<longleftrightarrow> tasks t = tasks s \<and> cpus t = cpus s \<and> next_id t = next_id s"

lemma same_core_refl [simp]: "same_core s s"
  by (simp add: same_core_def)

lemma inv_core: "sched_inv s \<Longrightarrow> same_core s t \<Longrightarrow> sched_inv t"
  by (rule inv_tame [of s]) (simp_all add: same_core_def)

lemma diag_core: "same_core s (hopb_sample c s)" "stall_tick e i b s = Ok t \<Longrightarrow> same_core s t"
  "same_core s (s\<lparr>stall_ticks := a, noready_ticks := n\<rparr>)" "same_core s (hopb_open s)" "same_core s (hopb_close s)"
  "same_core s (publish_present_index me s)" "same_core s (note_present_wake_cpu me s)"
  by (auto simp: same_core_def hopb_sample_def stall_tick_def hopb_open_def hopb_close_def publish_present_index_def
    note_present_wake_cpu_def Let_def split: option.splits if_splits)

lemma same_core_trans: "same_core s t \<Longrightarrow> same_core t u \<Longrightarrow> same_core s u"
  by (simp add: same_core_def)

lemma charge_simps [simp]:
  "cpus (charge_slice c s) = cpus s" "next_id (charge_slice c s) = next_id s" "length (tasks (charge_slice c s)) = length (tasks s)"
  by (auto simp: charge_slice_def split: option.splits)

lemma inv_woken: "sched_inv s \<Longrightarrow> sched_inv (woken me e s)"
proof -
  assume "sched_inv s"
  then have "sched_inv (s\<lparr>tasks := wake_pass e (tasks s)\<rparr>)"
    by (rule inv_tame) (simp_all add: wake_pass_tame)
  then show ?thesis
    unfolding woken_def charge_slice_def
    by (auto simp: tame_def task_wf_def intro!: inv_set_task split: option.splits)
qed

lemma woken_simps [simp]:
  "cpus (woken me e s) = cpus s" "length (tasks (woken me e s)) = length (tasks s)" "cur_index me' (woken me e s) = cur_index me' s"
  by (simp_all add: woken_def wake_pass_tame cur_index_def)

text \<open>The two outcomes of \<open>plan_switch\<close>.\<close>

lemma plan_switch_keep:
  assumes "plan_switch me e s = Ok (None, s')" "sched_inv s"
  shows "same_core (woken me e s) s'"
proof (cases "tasks s = []")
  case True
  then have "cur_index me s = None"
    using sched_invD(1) [OF assms(2), of me] by (cases "cur_index me s") (auto simp: claimed_def cur_index_def)
  then show ?thesis using assms(1) True by (simp add: plan_switch_def same_core_def woken_def charge_slice_def wake_pass_def)
next
  case False
  obtain b p l where b: "pick me (cur_index me s) (tasks (woken me e s)) = (b, p, l)" by (metis prod_cases3)
  then show ?thesis
    using assms(1) False
    unfolding plan_switch_def wake_state_locked_def woken_def
    by (auto simp: Let_def cur_index_def intro: same_core_trans diag_core split: option.splits if_splits prod.splits)
qed

lemma plan_switch_go:
  assumes "plan_switch me e s = Ok (Some (c, b), s')"
  shows "c = cur_index me s" "b \<noteq> c" "\<exists>p l. pick me c (tasks (woken me e s)) = (b, p, l)"
    "s' = commit_switch me b ((woken me e s)\<lparr>stall_ticks := 0, noready_ticks := 0\<rparr>)"
    "\<forall>i. c = Some i \<longrightarrow> \<not> keeps_cpu (tasks (woken me e s) ! i) b (fst (snd (pick me c (tasks (woken me e s)))))"
  using assms unfolding plan_switch_def wake_state_locked_def woken_def
  by (cases "current (cpus s me)"; auto simp: Let_def cur_index_def split: if_splits prod.splits)+

lemma inv_commit:
  assumes "sched_inv s" "pending_prev (cpus s me) = None" "b \<noteq> cur_index me s"
    and "\<And>j. b = Some j \<Longrightarrow> j < length (tasks s) \<and> eligible me (tasks s ! j)"
  shows "sched_inv (commit_switch me b s)"
proof -
  let ?s = "commit_switch me b s"
  let ?run = "case cur_index me s of None \<Rightarrow> None | Some i \<Rightarrow> if t_state (tasks s ! i) = Running then Some i else None"
  have cp: "cpus ?s = (cpus s)(me := cpus s me\<lparr>pending_prev := ?run, current := b\<rparr>)"
    using assms(2) by (auto simp: commit_switch_def set_cpu_def set_task_def Let_def split: option.splits)
  have ts: "tasks ?s = (case b of None \<Rightarrow> tasks s | Some j \<Rightarrow> (tasks s)[j := (tasks s ! j)\<lparr>slice_left :=
      fresh_slice (priority (tasks s ! j)), t_state := Running\<rparr>])" "next_id ?s = next_id s"
    by (auto simp: commit_switch_def set_cpu_def set_task_def Let_def split: option.splits)
  have cl: "claimed ?s c i \<longleftrightarrow> (if c = me then b = Some i \<or> ?run = Some i else claimed s c i)" for c i
    by (auto simp: claimed_def cp)
  have old: "i < length (tasks s)" "owner_cpu (tasks s ! i) = me" if "?run = Some i" for i
    using that sched_invD(1,2) [OF assms(1), of me i] by (auto simp: claimed_def cur_index_def split: option.splits if_splits)
  have nth: "tasks ?s ! i = (if b = Some i then (tasks s ! i)\<lparr>slice_left := fresh_slice (priority (tasks s ! i)), t_state := Running\<rparr>
      else tasks s ! i)" "length (tasks ?s) = length (tasks s)" for i
    using assms(4) by (auto simp: ts nth_list_update split: option.splits)
  have mine: "?run = Some i" if "i < length (tasks s)" "t_state (tasks s ! i) = Running" "owner_cpu (tasks s ! i) = me" for i
    using sched_invD(4) [OF assms(1) that(1,2)] that assms(2) by (auto simp: claimed_def cur_index_def)
  have new: "j < length (tasks s)" "owner_cpu (tasks s ! j) = me" "t_state (tasks s ! j) \<noteq> Running" if "b = Some j" for j
    using assms(4) [OF that] by (auto simp: eligible_def)
  have "?run \<noteq> b \<or> b = None" using assms(3) by (auto split: option.splits)
  then have "current (cpus ?s c) = Some i \<Longrightarrow> pending_prev (cpus ?s c) \<noteq> Some i" for c i
    using sched_invD(3) [OF assms(1), of c i] by (auto simp: cp split: if_splits)
  moreover have "i < length (tasks s) \<and> owner_cpu (tasks ?s ! i) = c" if "claimed ?s c i" for c i
    using that old new sched_invD(1,2) [OF assms(1), of c i] by (auto simp: cl nth split: if_splits)
  moreover have "claimed ?s (owner_cpu (tasks ?s ! i)) i" if "i < length (tasks s)" "t_state (tasks ?s ! i) = Running" for i
    using that mine [of i] new sched_invD(4) [OF assms(1), of i] by (auto simp: cl nth split: if_splits)
  moreover have "task_wf (tasks ?s ! i)" "t_id (tasks ?s ! i) = (i + 1) mod 2 ^ 64" if "i < length (tasks s)" for i
    using sched_invD(5,6) [OF assms(1) that] by (auto simp: nth task_wf_def)
  ultimately show ?thesis
    unfolding sched_inv_def nth(2) ts(2) using sched_invD(7) [OF assms(1)] by blast
qed

lemma priorities: "sched_inv s \<Longrightarrow> \<forall>i < length (tasks s). priority (tasks s ! i) < 256"
  using sched_invD(5) by (auto simp: task_wf_def)

lemma preempt_cases:
  assumes "preempt me e s = Ok (plan, s')" "sched_inv s"
  defines "w \<equiv> woken me e (release_pending_prev me s)"
  shows "(case plan of
      None \<Rightarrow> same_core w s'
    | Some (c, b) \<Rightarrow> c = cur_index me s \<and> b \<noteq> c \<and> (\<exists>p l. pick me c (tasks w) = (b, p, l)) \<and>
        (\<forall>i. c = Some i \<longrightarrow> \<not> keeps_cpu (tasks w ! i) b (fst (snd (pick me c (tasks w))))) \<and>
        (\<exists>s1 k. same_core w s1 \<and> s' = set_cpu me (\<lambda>c. c\<lparr>switches := k\<rparr>) (commit_switch me b s1)))"
proof -
  let ?r = "release_pending_prev me s"
  obtain s1 where s1: "plan_switch me e ?r = Ok (plan, s1)"
    "s' = (if plan = None then s1 else set_cpu me (\<lambda>c. c\<lparr>switches := (switches c + 1) mod 2 ^ 64\<rparr>) s1)"
  proof -
    obtain a s1 where a: "plan_switch me e ?r = Ok (a, s1)" using assms(1) by (auto simp: preempt_def)
    then show ?thesis using assms(1) that by (cases a) (auto simp: preempt_def)
  qed
  have cur: "cur_index me ?r = cur_index me s" by (simp add: cur_index_def release_fields(2))
  show ?thesis
  proof (cases plan)
    case None
    then show ?thesis using plan_switch_keep [OF s1(1) [unfolded None] inv_release [OF assms(2)]] s1(2) by (simp add: w_def)
  next
    case (Some cb)
    obtain c b where cb: "cb = (c, b)" by (cases cb)
    note g = plan_switch_go [OF s1(1) [unfolded Some cb]]
    have "set_cpu me (\<lambda>c. c\<lparr>switches := (switches c + 1) mod 2 ^ 64\<rparr>) t =
        set_cpu me (\<lambda>c. c\<lparr>switches := (switches (cpus t me) + 1) mod 2 ^ 64\<rparr>) t" for t
      by (simp add: set_cpu_def)
    then show ?thesis
      using g s1(2) Some cb cur diag_core(3) unfolding w_def by (auto intro!: exI)
  qed
qed

lemma inv_switches: "sched_inv s \<Longrightarrow> sched_inv (set_cpu me (\<lambda>c. c\<lparr>switches := k\<rparr>) s)"
proof -
  have eq: "current (cpus (set_cpu me (\<lambda>c. c\<lparr>switches := k\<rparr>) s) c) = current (cpus s c)"
    "pending_prev (cpus (set_cpu me (\<lambda>c. c\<lparr>switches := k\<rparr>) s) c) = pending_prev (cpus s c)" for c
    by (simp_all add: set_cpu_def)
  show "sched_inv s \<Longrightarrow> ?thesis" unfolding sched_inv_def claimed_def eq by (simp add: set_cpu_def)
qed

lemma commit_pick:
  assumes "sched_inv s" "pick me c (tasks s) = (b, p, l)" "b = Some j"
  shows "j < length (tasks s) \<and> eligible me (tasks s ! j)"
  using pick_Some(2,3) [OF _ priorities [OF assms(1)]] assms(2,3) by blast

lemma inv_preempt:
  assumes "preempt me e s = Ok (plan, s')" "sched_inv s"
  shows "sched_inv s'"
proof -
  let ?w = "woken me e (release_pending_prev me s)"
  have w: "sched_inv ?w" by (rule inv_woken [OF inv_release [OF assms(2)]])
  note pc = preempt_cases [OF assms]
  show ?thesis
  proof (cases plan)
    case None
    then show ?thesis using pc inv_core [OF w] by simp
  next
    case (Some cb)
    obtain c b where cb: "cb = (c, b)" by (cases cb)
    obtain s1 k p l where s1: "c = cur_index me s" "b \<noteq> c" "pick me c (tasks ?w) = (b, p, l)" "same_core ?w s1"
      "s' = set_cpu me (\<lambda>c. c\<lparr>switches := k\<rparr>) (commit_switch me b s1)"
      using pc Some cb by auto
    have "sched_inv (commit_switch me b s1)"
    proof (rule inv_commit)
      show i: "sched_inv s1" by (rule inv_core [OF w s1(4)])
      show "pending_prev (cpus s1 me) = None" using s1(4) by (simp add: same_core_def release_fields(1))
      show "b \<noteq> cur_index me s1" using s1(1,2,4) by (simp add: same_core_def cur_index_def release_fields(2))
      show "j < length (tasks s1) \<and> eligible me (tasks s1 ! j)" if "b = Some j" for j
        using commit_pick [OF w s1(3) that] s1(4) by (simp add: same_core_def)
    qed
    then show ?thesis using s1(5) inv_switches by simp
  qed
qed

lemma inv_boot: "sched_inv boot_sched"
  by (simp add: sched_inv_def claimed_def boot_sched_def)

lemma inv_step: "sched_step s s' \<Longrightarrow> sched_inv s \<Longrightarrow> sched_inv s'"
proof (induction rule: sched_step.induct)
  case (st_spawn_on prio cpu s i s')
  then show ?case using inv_push [of s cpu prio 0] by (auto simp: spawn_on_cpu_def split: if_splits)
next
  case (st_kill me pid s b s')
  then show ?case by (auto simp: kill_def tame_def task_wf_def intro: inv_set_task split: option.splits if_splits)
next
  case (st_sleep_ns me e d s s')
  then show ?case by (auto simp: sleep_current_ns_def tame_def task_wf_def intro: inv_on_current split: if_splits)
next
  case (st_preempt me e s p s')
  then show ?case by (blast intro: inv_preempt)
next
  case (st_release s me)
  then show ?case by (rule inv_release)
qed (auto simp: spawn_def spawn_prio_def spawn_with_parent_def spawn_user_with_parent_def PRIO_NORMAL_def inv_push set_linux_abi_def
  mark_current_dead_def record_exit_def try_reap_def block_on_child_def sleep_current_def wake_task_now_def block_current_on_input_def
  block_current_on_raw_input_def mark_ready_def set_priority_def tame_def task_wf_def intro: inv_set_task inv_on_current
  inv_core diag_core split: option.splits)

interpretation scheduler: state_machine sched_step sched_inv boot_sched
  by unfold_locales (auto intro: inv_boot inv_step)

lemma inv_reach: "sched_reach s \<Longrightarrow> sched_inv s"
  unfolding sched_reach_def by (rule scheduler.reachable_inv)

end
