(* ===== verification/Sched_Live.thy ===== *)
theory Sched_Live
  imports Scheduler
begin

text \<open>
  Consequences for the scheduler of \<open>kernel/src/scheduler.rs\<close>: who owns a context, which task a
  reschedule chooses, when sleepers wake and zombies are reaped, and that every runnable task gets its
  turn.
\<close>

section \<open>Turns of the round robin\<close>

text \<open>How many places after the current context a task comes in the search order.\<close>

definition search_start :: "nat option \<Rightarrow> nat" where
  "search_start c = (case c of None \<Rightarrow> 0 | Some i \<Rightarrow> i + 1)"

definition turn :: "nat option \<Rightarrow> nat \<Rightarrow> nat \<Rightarrow> nat" where
  "turn c n j = (j + n - search_start c mod n) mod n"

lemma turn_unique:
  assumes "k < n" "(search_start c + k) mod n = j"
  shows "turn c n j = k"
proof -
  define a where "a = search_start c mod n"
  have a: "a < n" using assms(1) by (simp add: a_def)
  have j: "j = (a + k) mod n" using assms(2) by (metis a_def mod_add_left_eq)
  have t: "turn c n j = (j + n - a) mod n" by (simp add: turn_def a_def)
  show ?thesis
  proof (cases "a + k < n")
    case True
    then show ?thesis unfolding t using j assms(1) by simp
  next
    case False
    then have "(a + k) mod n = (a + k - n) mod n" by (intro le_mod_geq) simp
    then have "j = a + k - n" using j a assms(1) by simp
    then show ?thesis unfolding t using False a assms(1) by simp
  qed
qed

lemma turn_reaches: "j < n \<Longrightarrow> (search_start c + turn c n j) mod n = j" "0 < n \<Longrightarrow> turn c n j < n"
proof -
  assume j: "j < n"
  have "j \<in> set (rotation c n)" using set_rotation [of c n] j by simp
  then obtain k where "k < n" "(search_start c + k) mod n = j" by (auto simp: rotation_def search_start_def)
  then show "(search_start c + turn c n j) mod n = j" using turn_unique by simp
qed (simp add: turn_def)

lemma turn_after:
  assumes "b < n" "j < n" "turn c n b < turn c n j"
  shows "turn (Some b) n j + turn c n b + 1 = turn c n j"
proof -
  let ?m = "turn c n j - turn c n b - 1"
  have "(search_start (Some b) + ?m) mod n = ((search_start c + turn c n b) mod n + 1 + ?m) mod n"
    using turn_reaches(1) [OF assms(1), of c] by (simp add: search_start_def)
  also have "\<dots> = (search_start c + turn c n b + 1 + ?m) mod n" by (simp only: add.assoc mod_add_left_eq)
  also have "search_start c + turn c n b + 1 + ?m = search_start c + turn c n j" using assms(3) by simp
  finally have "(search_start (Some b) + ?m) mod n = j" using turn_reaches(1) [OF assms(2), of c] by simp
  moreover have "?m < n" using turn_reaches(2) [of n c j] assms(2) by simp
  ultimately show ?thesis using turn_unique [of ?m n "Some b" j] assms(3) by simp
qed

lemma find_first_turn:
  assumes "find P (rotation c n) = Some b" "j < n" "P j"
  shows "turn c n b \<le> turn c n j" "b < n"
proof -
  obtain k where k: "k < n" "rotation c n ! k = b" "\<forall>i < k. \<not> P (rotation c n ! i)"
    using assms(1) by (auto simp: find_Some_iff rotation_def)
  have at: "i < n \<Longrightarrow> rotation c n ! i = (search_start c + i) mod n" for i by (simp add: rotation_def search_start_def)
  have b: "turn c n b = k" using turn_unique [OF k(1)] at [OF k(1)] k(2) by simp
  have n: "0 < n" using assms(2) by simp
  have "rotation c n ! turn c n j = j" using at [OF turn_reaches(2) [OF n]] turn_reaches(1) [OF assms(2)] by simp
  then show "turn c n b \<le> turn c n j" using k(3) assms(3) b by (metis not_le)
  show "b < n" using k at n by auto
qed

section \<open>One reschedule\<close>

lemma wake_pass_nth:
  assumes "i < length ts"
  shows "\<exists>us. length us = length ts \<and> us ! i = ts ! i \<and> wake_pass e ts ! i = wake_task e us i \<and>
    (\<forall>k < length ts. tame (ts ! k) (us ! k) \<and> (t_state (us ! k) = Dead \<longleftrightarrow> t_state (ts ! k) = Dead) \<and> parent_id (us ! k) = parent_id (ts ! k))"
proof -
  let ?f = "\<lambda>i us. us[i := wake_task e us i]"
  have wt: "t_state (wake_task e us k) = Dead \<longleftrightarrow> t_state (us ! k) = Dead" "parent_id (wake_task e us k) = parent_id (us ! k)" for us k
    by (cases "t_state (us ! k)"; simp add: wake_task_def Let_def)+
  have pre: "length (fold ?f [0..<m] ts) = length ts \<and> (\<forall>k < length ts. tame (ts ! k) (fold ?f [0..<m] ts ! k) \<and>
      (t_state (fold ?f [0..<m] ts ! k) = Dead \<longleftrightarrow> t_state (ts ! k) = Dead) \<and> parent_id (fold ?f [0..<m] ts ! k) = parent_id (ts ! k) \<and>
      (m \<le> k \<longrightarrow> fold ?f [0..<m] ts ! k = ts ! k))" for m
  proof (induction m)
    case (Suc m)
    then show ?case
      using wake_task_tame [of "fold ?f [0..<m] ts" m e] wt [of "fold ?f [0..<m] ts" m]
      by (cases "m < length ts") (auto simp: nth_list_update intro: tame_trans)
  qed simp
  have later: "length (fold ?f xs us) = length us \<and> fold ?f xs us ! i = us ! i" if "i \<notin> set xs" for xs us
    using that by (induction xs arbitrary: us) auto
  let ?us = "fold ?f [0..<i] ts"
  have "[0..<length ts] = [0..<i] @ i # [i + 1..<length ts]"
    using upt_add_eq_append [of 0 i "length ts - i"] upt_conv_Cons [OF assms] assms by simp
  then have "wake_pass e ts ! i = wake_task e ?us i"
    unfolding wake_pass_def using later [of "[i + 1..<length ts]" "?us[i := wake_task e ?us i]"] pre [of i] assms by simp
  then show ?thesis using pre [of i] assms by (intro exI [of _ ?us]) auto
qed

text \<open>The choice is made in the state after the release of the suspended task and the wake pass.\<close>

abbreviation chosen_in :: "nat \<Rightarrow> env \<Rightarrow> sched \<Rightarrow> sched" where
  "chosen_in me e s \<equiv> woken me e (release_pending_prev me s)"

lemma release_nth:
  assumes "sched_inv s" "i < length (tasks s)"
  shows "tasks (release_pending_prev me s) ! i =
    (if pending_prev (cpus s me) = Some i \<and> t_state (tasks s ! i) = Running then (tasks s ! i)\<lparr>t_state := Ready\<rparr> else tasks s ! i)"
proof -
  show "tasks (release_pending_prev me s) ! i =
    (if pending_prev (cpus s me) = Some i \<and> t_state (tasks s ! i) = Running then (tasks s ! i)\<lparr>t_state := Ready\<rparr> else tasks s ! i)"
  proof (cases "pending_prev (cpus s me)")
    case None
    then show ?thesis by (simp add: release_pending_prev_def set_cpu_def)
  next
    case (Some p)
    then have "owner_cpu (tasks s ! p) = me" "Some p \<noteq> current (cpus s me)" "p < length (tasks s)"
      using sched_invD(1,2,3) [OF assms(1), of me p] by (auto simp: claimed_def)
    then show ?thesis
      using Some assms(2) by (simp add: release_pending_prev_def set_cpu_def set_task_def cur_index_def Let_def nth_list_update)
  qed
qed

lemma length_release [simp]: "length (tasks (release_pending_prev me s)) = length (tasks s)"
  by (auto simp: release_pending_prev_def set_cpu_def Let_def split: option.splits)

lemma charge_nth:
  assumes "i < length (tasks s)"
  shows "tasks (charge_slice c s) ! i =
    (if c = Some i \<and> t_state (tasks s ! i) = Running then (tasks s ! i)\<lparr>slice_left := slice_left (tasks s ! i) - 1\<rparr> else tasks s ! i)"
proof (cases c)
  case (Some k)
  then show ?thesis using assms by (cases "k = i") (simp_all add: charge_slice_def set_task_def)
qed (simp add: charge_slice_def)

lemma woken_nth:
  assumes "i < length (tasks s)"
  shows "tasks (woken me e s) ! i =
    (if cur_index me s = Some i \<and> t_state (wake_pass e (tasks s) ! i) = Running
     then (wake_pass e (tasks s) ! i)\<lparr>slice_left := slice_left (wake_pass e (tasks s) ! i) - 1\<rparr> else wake_pass e (tasks s) ! i)"
  unfolding woken_def using charge_nth [of i "s\<lparr>tasks := wake_pass e (tasks s)\<rparr>" "cur_index me s"] assms by (simp add: wake_pass_tame)

lemma commit_nth:
  assumes "\<And>j. b = Some j \<Longrightarrow> j < length (tasks s)"
  shows "tasks (commit_switch me b s) ! i =
    (if b = Some i then (tasks s ! i)\<lparr>slice_left := fresh_slice (priority (tasks s ! i)), t_state := Running\<rparr> else tasks s ! i)"
    "length (tasks (commit_switch me b s)) = length (tasks s)" "current (cpus (commit_switch me b s) me) = b"
    "c \<noteq> me \<Longrightarrow> cpus (commit_switch me b s) c = cpus s c"
  using assms by (auto simp: commit_switch_def set_cpu_def set_task_def nth_list_update Let_def split: option.splits)

text \<open>What a reschedule leaves of each task and of the current context.\<close>

lemma preempt_effect:
  assumes "preempt me e s = Ok (plan, s')" "sched_inv s"
  shows "length (tasks s') = length (tasks s)"
    and "case plan of
      None \<Rightarrow> current (cpus s' me) = current (cpus s me) \<and> tasks s' = tasks (chosen_in me e s)
    | Some (c, b) \<Rightarrow> c = current (cpus s me) \<and> b \<noteq> c \<and> b = fst (pick me c (tasks (chosen_in me e s))) \<and> current (cpus s' me) = b \<and>
        (\<forall>i. c = Some i \<longrightarrow> \<not> keeps_cpu (tasks (chosen_in me e s) ! i) b (fst (snd (pick me c (tasks (chosen_in me e s)))))) \<and>
        (\<forall>i. tasks s' ! i = (if b = Some i then (tasks (chosen_in me e s) ! i)\<lparr>slice_left := fresh_slice (priority (tasks (chosen_in me e s) ! i)),
           t_state := Running\<rparr> else tasks (chosen_in me e s) ! i))"
proof -
  let ?w = "chosen_in me e s"
  have w: "sched_inv ?w" by (rule inv_woken [OF inv_release [OF assms(2)]])
  have lw: "length (tasks ?w) = length (tasks s)" by simp
  note pc = preempt_cases [OF assms]
  have "length (tasks s') = length (tasks s) \<and> (case plan of
      None \<Rightarrow> current (cpus s' me) = current (cpus s me) \<and> tasks s' = tasks ?w
    | Some (c, b) \<Rightarrow> c = current (cpus s me) \<and> b \<noteq> c \<and> b = fst (pick me c (tasks ?w)) \<and> current (cpus s' me) = b \<and>
        (\<forall>i. c = Some i \<longrightarrow> \<not> keeps_cpu (tasks ?w ! i) b (fst (snd (pick me c (tasks ?w))))) \<and>
        (\<forall>i. tasks s' ! i = (if b = Some i then (tasks ?w ! i)\<lparr>slice_left := fresh_slice (priority (tasks ?w ! i)),
           t_state := Running\<rparr> else tasks ?w ! i)))"
  proof (cases plan)
    case None
    then show ?thesis using pc lw by (simp add: same_core_def release_fields(2))
  next
    case (Some cb)
    obtain c b where cb: "cb = (c, b)" by (cases cb)
    obtain s1 k p l where s1: "c = cur_index me s" "b \<noteq> c" "pick me c (tasks ?w) = (b, p, l)" "same_core ?w s1"
      "\<forall>i. c = Some i \<longrightarrow> \<not> keeps_cpu (tasks ?w ! i) b (fst (snd (pick me c (tasks ?w))))"
      "s' = set_cpu me (\<lambda>c. c\<lparr>switches := k\<rparr>) (commit_switch me b s1)"
      using pc Some cb by auto
    have t: "tasks s1 = tasks ?w" using s1(4) by (simp add: same_core_def)
    have "j < length (tasks s1)" if "b = Some j" for j using commit_pick [OF w s1(3) that] t by simp
    note cn = commit_nth [of b s1 me, OF this]
    have "tasks s' = tasks (commit_switch me b s1)" "current (cpus s' me) = b"
      using s1(6) cn(3) by (simp_all add: set_cpu_def)
    then show ?thesis using Some cb s1(1,2,3,5) cn(1,2) t lw by (simp add: cur_index_def)
  qed
  then show "length (tasks s') = length (tasks s)" and "case plan of
      None \<Rightarrow> current (cpus s' me) = current (cpus s me) \<and> tasks s' = tasks ?w
    | Some (c, b) \<Rightarrow> c = current (cpus s me) \<and> b \<noteq> c \<and> b = fst (pick me c (tasks ?w)) \<and> current (cpus s' me) = b \<and>
        (\<forall>i. c = Some i \<longrightarrow> \<not> keeps_cpu (tasks ?w ! i) b (fst (snd (pick me c (tasks ?w))))) \<and>
        (\<forall>i. tasks s' ! i = (if b = Some i then (tasks ?w ! i)\<lparr>slice_left := fresh_slice (priority (tasks ?w ! i)),
           t_state := Running\<rparr> else tasks ?w ! i))" by blast+
qed

lemma wake_task_fields:
  "priority (wake_task e ts i) = priority (ts ! i)" "slice_left (wake_task e ts i) = slice_left (ts ! i)"
  "exit_code (wake_task e ts i) = exit_code (ts ! i)" "owner_cpu (wake_task e ts i) = owner_cpu (ts ! i)"
  "t_state (ts ! i) \<in> {Ready, Running} \<Longrightarrow> wake_task e ts i = ts ! i"
  by (cases "t_state (ts ! i)"; simp add: wake_task_def Let_def)+

lemma wake_pass_fields:
  assumes "i < length ts"
  shows "priority (wake_pass e ts ! i) = priority (ts ! i)" "slice_left (wake_pass e ts ! i) = slice_left (ts ! i)"
    "exit_code (wake_pass e ts ! i) = exit_code (ts ! i)" "owner_cpu (wake_pass e ts ! i) = owner_cpu (ts ! i)"
    "t_state (ts ! i) \<in> {Ready, Running} \<Longrightarrow> wake_pass e ts ! i = ts ! i"
proof -
  obtain us where "us ! i = ts ! i" "wake_pass e ts ! i = wake_task e us i" using wake_pass_nth [OF assms] by blast
  then show "priority (wake_pass e ts ! i) = priority (ts ! i)" "slice_left (wake_pass e ts ! i) = slice_left (ts ! i)"
    "exit_code (wake_pass e ts ! i) = exit_code (ts ! i)" "owner_cpu (wake_pass e ts ! i) = owner_cpu (ts ! i)"
    "t_state (ts ! i) \<in> {Ready, Running} \<Longrightarrow> wake_pass e ts ! i = ts ! i"
    by (simp_all add: wake_task_fields)
qed

lemma chosen_fields:
  assumes "sched_inv s" "i < length (tasks s)"
  shows "priority (tasks (chosen_in me e s) ! i) = priority (tasks s ! i)"
    "owner_cpu (tasks (chosen_in me e s) ! i) = owner_cpu (tasks s ! i)"
  using assms(2) by (simp_all add: woken_nth wake_pass_fields release_nth [OF assms])

lemma chosen_cur:
  assumes "sched_inv s" "current (cpus s me) = Some i"
  shows "slice_left (tasks (chosen_in me e s) ! i) \<le> slice_left (tasks s ! i)"
    "t_state (tasks (chosen_in me e s) ! i) = Running \<Longrightarrow>
      t_state (tasks s ! i) = Running \<and> slice_left (tasks (chosen_in me e s) ! i) = slice_left (tasks s ! i) - 1"
proof -
  have i: "i < length (tasks s)" "pending_prev (cpus s me) \<noteq> Some i"
    using sched_invD(1,3) [OF assms(1), of me i] assms(2) by (auto simp: claimed_def)
  then have r: "tasks (release_pending_prev me s) ! i = tasks s ! i" using release_nth [OF assms(1) i(1)] by simp
  define wp where "wp = wake_pass e (tasks (release_pending_prev me s)) ! i"
  have run: "t_state wp = Running \<Longrightarrow> t_state (tasks s ! i) = Running" and sl: "slice_left wp = slice_left (tasks s ! i)"
    using wake_pass_tame(2) [of i "tasks (release_pending_prev me s)" e] i(1) r by (simp_all add: tame_def wp_def wake_pass_fields)
  have "tasks (chosen_in me e s) ! i = (if t_state wp = Running then wp\<lparr>slice_left := slice_left wp - 1\<rparr> else wp)"
    using i(1) assms(2) by (simp add: woken_nth cur_index_def release_fields(2) wp_def)
  then show "slice_left (tasks (chosen_in me e s) ! i) \<le> slice_left (tasks s ! i)"
    "t_state (tasks (chosen_in me e s) ! i) = Running \<Longrightarrow>
      t_state (tasks s ! i) = Running \<and> slice_left (tasks (chosen_in me e s) ! i) = slice_left (tasks s ! i) - 1"
    using run sl by (simp_all split: if_splits)
qed

lemma chosen_runnable:
  assumes "sched_inv s" "j < length (tasks s)" "owner_cpu (tasks s ! j) = me" "t_state (tasks s ! j) \<in> {Ready, Running}"
    and "current (cpus s me) \<noteq> Some j"
  shows "eligible me (tasks (chosen_in me e s) ! j)"
proof -
  have "pending_prev (cpus s me) = Some j" if "t_state (tasks s ! j) = Running"
    using sched_invD(4) [OF assms(1,2) that] assms(3,5) by (simp add: claimed_def)
  then have "tasks (release_pending_prev me s) ! j = (tasks s ! j)\<lparr>t_state := Ready\<rparr>"
    using assms(4) release_nth [OF assms(1,2)] by auto
  then show ?thesis
    using assms by (simp add: woken_nth wake_pass_fields eligible_def cur_index_def release_fields(2))
qed

section \<open>Progress\<close>

text \<open>
  What may happen between two reschedules of CPU \<open>me\<close> while a task waits for its turn there: any steps
  that keep the table's size, this CPU's current context, the priorities and slices, and the waiting
  task runnable.
\<close>

definition quiet :: "nat \<Rightarrow> nat \<Rightarrow> sched \<Rightarrow> sched \<Rightarrow> bool" where
  "quiet me j s t \<longleftrightarrow> sched_step\<^sup>*\<^sup>* s t \<and> length (tasks t) = length (tasks s) \<and> current (cpus t me) = current (cpus s me) \<and>
     (\<forall>i < length (tasks s). owner_cpu (tasks t ! i) = owner_cpu (tasks s ! i) \<and> priority (tasks t ! i) = priority (tasks s ! i) \<and>
        slice_left (tasks t ! i) = slice_left (tasks s ! i)) \<and> t_state (tasks t ! j) \<in> {Ready, Running}"

text \<open>All tasks of the CPU are of the normal class, and task \<open>j\<close> is one of them and runnable.\<close>

definition waiting :: "nat \<Rightarrow> nat \<Rightarrow> sched \<Rightarrow> bool" where
  "waiting me j s \<longleftrightarrow> sched_inv s \<and> j < length (tasks s) \<and> owner_cpu (tasks s ! j) = me \<and> t_state (tasks s ! j) \<in> {Ready, Running} \<and>
     (\<forall>i < length (tasks s). owner_cpu (tasks s ! i) = me \<longrightarrow> priority (tasks s ! i) = PRIO_NORMAL)"

definition wait_left :: "nat \<Rightarrow> nat \<Rightarrow> sched \<Rightarrow> nat" where
  "wait_left me j s = 9 * turn (current (cpus s me)) (length (tasks s)) j +
     (case current (cpus s me) of None \<Rightarrow> 0 | Some i \<Rightarrow> slice_left (tasks s ! i))"

lemma wait_left_quiet: "waiting me j s \<Longrightarrow> quiet me j s t \<Longrightarrow> waiting me j t \<and> wait_left me j t = wait_left me j s"
  using scheduler.run_keeps [of s t] sched_invD(1) [of s me]
  by (auto simp: waiting_def quiet_def wait_left_def claimed_def split: option.splits)

lemma wait_left_bound: "waiting me j s \<Longrightarrow> wait_left me j s < 9 * length (tasks s)"
proof -
  assume w: "waiting me j s"
  have "slice_left (tasks s ! i) \<le> 8" if "current (cpus s me) = Some i" for i
    using w sched_invD(1) [of s me i] sched_invD(5) [of s i] that by (auto simp: waiting_def claimed_def task_wf_def)
  moreover have "turn (current (cpus s me)) (length (tasks s)) j < length (tasks s)"
    using w by (intro turn_reaches(2)) (auto simp: waiting_def)
  ultimately show ?thesis by (fastforce simp: wait_left_def split: option.splits)
qed

lemma turn_inj: "b < n \<Longrightarrow> j < n \<Longrightarrow> turn c n b = turn c n j \<Longrightarrow> b = j"
  by (metis turn_reaches(1))

lemma turn_self: "b < n \<Longrightarrow> turn (Some b) n b = n - 1"
  by (rule turn_unique) (auto simp: search_start_def)

text \<open>Why a reschedule keeps the current context.\<close>

lemma plan_none_why:
  assumes "plan_switch me e s = Ok (None, s')" "tasks s \<noteq> []" "pick me (cur_index me s) (tasks (woken me e s)) = (b, p, l)"
  shows "b = cur_index me s \<or> (\<exists>i. cur_index me s = Some i \<and> keeps_cpu (tasks (woken me e s) ! i) b p)"
  using assms unfolding plan_switch_def wake_state_locked_def woken_def
  by (cases "current (cpus s me)") (auto simp: Let_def cur_index_def split: if_splits prod.splits)

lemma preempt_none_why:
  assumes "preempt me e s = Ok (None, s')" "tasks s \<noteq> []" "pick me (current (cpus s me)) (tasks (chosen_in me e s)) = (b, p, l)"
  shows "b = current (cpus s me) \<or> (\<exists>i. current (cpus s me) = Some i \<and> keeps_cpu (tasks (chosen_in me e s) ! i) b p)"
proof -
  obtain a s1 where "plan_switch me e (release_pending_prev me s) = Ok (a, s1)" using assms(1) by (auto simp: preempt_def)
  moreover from this have "a = None" using assms(1) by (cases a) (auto simp: preempt_def)
  moreover have "tasks (release_pending_prev me s) \<noteq> []" using length_release [of me s] assms(2) by (metis length_0_conv)
  ultimately show ?thesis
    using plan_none_why [of me e "release_pending_prev me s"] assms(3) by (simp add: cur_index_def release_fields(2))
qed

lemma waiting_pick:
  assumes "waiting me j s" "current (cpus s me) \<noteq> Some j"
  obtains b l where "pick me (current (cpus s me)) (tasks (chosen_in me e s)) = (Some b, PRIO_NORMAL, l)" "b < length (tasks s)"
    "turn (current (cpus s me)) (length (tasks s)) b \<le> turn (current (cpus s me)) (length (tasks s)) j"
    "priority (tasks (chosen_in me e s) ! b) = PRIO_NORMAL" "eligible me (tasks (chosen_in me e s) ! j)"
proof -
  let ?w = "tasks (chosen_in me e s)" and ?n = "length (tasks s)" and ?c = "current (cpus s me)"
  have inv: "sched_inv s" and j: "j < ?n" "owner_cpu (tasks s ! j) = me" "t_state (tasks s ! j) \<in> {Ready, Running}"
    and norm: "\<And>i. i < ?n \<Longrightarrow> owner_cpu (tasks s ! i) = me \<Longrightarrow> priority (tasks s ! i) = PRIO_NORMAL"
    using assms(1) by (auto simp: waiting_def)
  have el: "eligible me (?w ! j)" by (rule chosen_runnable [OF inv j assms(2)])
  have pr: "\<forall>i < length ?w. priority (?w ! i) < 256" by (rule priorities [OF inv_woken [OF inv_release [OF inv]]])
  have wn: "length ?w = ?n" by simp
  obtain bb p l where pick: "pick me ?c ?w = (bb, p, l)" by (metis prod_cases3)
  obtain b where b: "bb = Some b" using pick_None [OF _ pr] pick el j(1) wn by (cases bb) auto
  note pk = pick_Some [OF pick [unfolded b] pr]
  have owner: "owner_cpu (tasks s ! b) = me" "b < ?n"
    using pk(2,3) chosen_fields(2) [OF inv, of b me e] wn by (auto simp: eligible_def)
  have same: "priority (?w ! b) = PRIO_NORMAL" "priority (?w ! j) = PRIO_NORMAL"
    using norm owner j chosen_fields(1) [OF inv] by simp_all
  have fd: "find (\<lambda>i. eligible me (?w ! i) \<and> priority (?w ! i) = priority (?w ! b)) (rotation ?c ?n) = Some b"
    using pk(1) wn by (simp add: most_urgent_def)
  have "turn ?c ?n b \<le> turn ?c ?n j" using find_first_turn(1) [OF fd j(1)] el same by simp
  then show ?thesis using that [of b l] pick b pk(4) same(1) owner(2) el by simp
qed

lemma waiting_preempt:
  assumes "waiting me j s" "preempt me e s = Ok (plan, s')" "current (cpus s me) \<noteq> Some j"
  shows "waiting me j s'"
proof -
  let ?w = "tasks (chosen_in me e s)"
  have inv: "sched_inv s" using assms(1) by (simp add: waiting_def)
  have el: "t_state (?w ! j) = Ready" using waiting_pick [OF assms(1,3), of e] by (metis eligible_def)
  note eff = preempt_effect [OF assms(2) inv]
  have e': "owner_cpu (tasks s' ! i) = owner_cpu (?w ! i)" "priority (tasks s' ! i) = priority (?w ! i)"
    "t_state (tasks s' ! i) = t_state (?w ! i) \<or> t_state (tasks s' ! i) = Running" for i
    using eff(2) by (cases plan; auto)+
  have "owner_cpu (tasks s' ! i) = owner_cpu (tasks s ! i)" "priority (tasks s' ! i) = priority (tasks s ! i)" if "i < length (tasks s)" for i
    unfolding e' using chosen_fields [OF inv that] by simp_all
  moreover have "t_state (tasks s' ! j) \<in> {Ready, Running}" using e'(3) [of j] el by auto
  ultimately show ?thesis
    using assms(1) inv_preempt [OF assms(2) inv] unfolding waiting_def eff(1) by simp
qed

lemma wait_left_preempt:
  assumes "waiting me j s" "preempt me e s = Ok (plan, s')" "current (cpus s me) \<noteq> Some j"
  shows "current (cpus s' me) = Some j \<or> wait_left me j s' < wait_left me j s"
proof -
  let ?w = "tasks (chosen_in me e s)" and ?n = "length (tasks s)" and ?c = "current (cpus s me)"
  have inv: "sched_inv s" and j: "j < ?n" using assms(1) by (auto simp: waiting_def)
  obtain b l where b: "pick me ?c ?w = (Some b, PRIO_NORMAL, l)" "b < ?n" "turn ?c ?n b \<le> turn ?c ?n j"
    "priority (?w ! b) = PRIO_NORMAL" using waiting_pick [OF assms(1,3), of e] by metis
  note eff = preempt_effect [OF assms(2) inv]
  show ?thesis
  proof (cases plan)
    case None
    have "tasks s \<noteq> []" using j by auto
    then consider "?c = Some b" | i where "?c = Some i" "keeps_cpu (?w ! i) (Some b) PRIO_NORMAL"
      using preempt_none_why [OF assms(2) [unfolded None] _ b(1)] by auto
    then show ?thesis
    proof cases
      case 1
      then have "?n - 1 \<le> turn ?c ?n j" using b(3) turn_self [OF b(2)] by simp
      moreover have "turn ?c ?n j < ?n" by (rule turn_reaches(2)) (use j in linarith)
      ultimately have "turn ?c ?n b = turn ?c ?n j" using turn_self [OF b(2)] 1 by simp
      then show ?thesis using turn_inj [OF b(2) j] 1 assms(3) by simp
    next
      case 2
      have i: "i < ?n" "owner_cpu (tasks s ! i) = me" using sched_invD(1,2) [OF inv, of me i] 2(1) by (auto simp: claimed_def)
      then have "priority (?w ! i) = PRIO_NORMAL" using assms(1) chosen_fields(1) [OF inv i(1)] by (simp add: waiting_def)
      then have "t_state (?w ! i) = Running" "0 < slice_left (?w ! i)" using 2(2) by (auto simp: keeps_cpu_def PRIO_RT_def PRIO_NORMAL_def)
      then show ?thesis using eff None 2(1) chosen_cur(2) [OF inv 2(1), of e] by (auto simp: wait_left_def)
    qed
  next
    case (Some cb)
    then have cur: "current (cpus s' me) = Some b" and sl: "slice_left (tasks s' ! b) = fresh_slice PRIO_NORMAL"
      using eff(2) b(1,4) by (auto split: prod.splits)
    show ?thesis
    proof (cases "b = j")
      case False
      then have "turn ?c ?n b < turn ?c ?n j" using b(3) turn_inj [OF b(2) j] by (metis le_neq_implies_less)
      from turn_after [OF b(2) j this] have "turn (Some b) ?n j + 1 \<le> turn ?c ?n j" by linarith
      then show ?thesis using cur sl eff(1) by (auto simp: wait_left_def fresh_slice_def PRIO_NORMAL_def PRIO_RT_def)
    qed (use cur in simp)
  qed
qed

text \<open>
  C5. Round robin gives everyone a turn. Take a CPU all of whose tasks are of the normal class, and a
  runnable task of it. Let the CPU reschedule again and again, with any quiet activity of the system in
  between, until the task runs. It does so after at most nine reschedules per task of the table, whatever
  the clocks and the input rings say, however many tasks share the CPU and wherever the task stands in
  the table.
\<close>

theorem round_robin_turn:
  assumes "sched_reach (t 0)" "j < length (tasks (t 0))" "owner_cpu (tasks (t 0) ! j) = me"
    and "t_state (tasks (t 0) ! j) \<in> {Ready, Running}"
    and "\<And>i. i < length (tasks (t 0)) \<Longrightarrow> owner_cpu (tasks (t 0) ! i) = me \<Longrightarrow> priority (tasks (t 0) ! i) = PRIO_NORMAL"
    and "\<And>k. (\<And>i. i \<le> k \<Longrightarrow> current (cpus (t i) me) \<noteq> Some j) \<Longrightarrow>
      quiet me j (t k) (u k) \<and> (\<exists>e p. preempt me e (u k) = Ok (p, t (Suc k)))"
  shows "\<exists>k \<le> 9 * length (tasks (t 0)). current (cpus (t k) me) = Some j"
proof (rule ccontr)
  assume "\<not> ?thesis"
  then have never: "current (cpus (t k) me) \<noteq> Some j" if "k \<le> 9 * length (tasks (t 0))" for k using that by blast
  have "waiting me j (t 0)" using assms(1-5) inv_reach by (simp add: waiting_def)
  have "waiting me j (t k) \<and> wait_left me j (t k) + k \<le> wait_left me j (t 0)" if "k \<le> 9 * length (tasks (t 0))" for k
    using that
  proof (induction k)
    case 0
    then show ?case using \<open>waiting me j (t 0)\<close> by simp
  next
    case (Suc k)
    then have w: "waiting me j (t k)" "wait_left me j (t k) + k \<le> wait_left me j (t 0)" by simp_all
    obtain e p where q: "quiet me j (t k) (u k)" "preempt me e (u k) = Ok (p, t (Suc k))"
      using assms(6) [of k] never Suc.prems by fastforce
    have u: "waiting me j (u k)" "wait_left me j (u k) = wait_left me j (t k)" "current (cpus (u k) me) \<noteq> Some j"
      using wait_left_quiet [OF w(1) q(1)] q(1) never [of k] Suc.prems by (auto simp: quiet_def)
    show ?case
      using waiting_preempt [OF u(1) q(2) u(3)] wait_left_preempt [OF u(1) q(2) u(3)] never [OF Suc.prems] u(2) w(2) by simp
  qed
  from this [of "9 * length (tasks (t 0))"] show False using wait_left_bound [OF \<open>waiting me j (t 0)\<close>] by simp
qed

section \<open>A small run\<close>

text \<open>Two tasks on the boot CPU, the first of which has been given the CPU.\<close>

definition calm :: env where
  "calm = \<lparr>now_ms = 5, now_ns = 0, line_pending = False, input_pending = False\<rparr>"

definition two_tasks :: sched where
  "two_tasks = spawn 0 (spawn 0 boot_sched)"

definition first_runs :: sched where
  "first_runs = two_tasks\<lparr>tasks := [new_task 1 0 1 0\<lparr>t_state := Running\<rparr>, new_task 2 0 1 0],
     cpus := (cpus two_tasks)(0 := \<lparr>current = Some 0, pending_prev = None, switches = 1\<rparr>)\<rparr>"

definition second_runs :: sched where
  "second_runs = two_tasks\<lparr>tasks := [new_task 1 0 1 0, new_task 2 0 1 0\<lparr>t_state := Running\<rparr>],
     cpus := (cpus two_tasks)(0 := \<lparr>current = Some 1, pending_prev = None, switches = 2\<rparr>)\<rparr>"

lemmas run_simps = preempt_def plan_switch_def release_pending_prev_def wake_state_locked_def wake_pass_def wake_task_def
  charge_slice_def pick_def pick_step_def rotation_def keeps_cpu_def commit_switch_def hopb_sample_def stall_tick_def
  set_cpu_def set_task_def on_current_def cur_index_def first_task_def new_task_def push_task_def boot_sched_def spawn_def
  fresh_slice_def PRIO_NORMAL_def PRIO_RT_def MAX_CPUS_def calm_def two_tasks_def Let_def

lemma preempt_first: "preempt 0 calm two_tasks = Ok (Some (None, Some 0), first_runs)"
  by (simp add: run_simps first_runs_def upt_conv_Cons fun_upd_def cong: if_cong)

lemma reach_first: "sched_reach two_tasks" "sched_reach first_runs"
proof -
  have "sched_step boot_sched (spawn 0 boot_sched)" "sched_step (spawn 0 boot_sched) two_tasks"
    unfolding two_tasks_def by (rule st_spawn; simp add: MAX_CPUS_def)+
  then show r: "sched_reach two_tasks" unfolding sched_reach_def by (meson rtranclp.simps)
  show "sched_reach first_runs"
    using r st_preempt [OF preempt_first] unfolding sched_reach_def by (rule rtranclp.rtrancl_into_rtrancl)
qed

lemma yield_second: "preempt 0 calm (mark_ready 0 first_runs) = Ok (Some (Some 0, Some 1), second_runs)"
  by (simp add: run_simps first_runs_def second_runs_def mark_ready_def upt_conv_Cons fun_upd_def cong: if_cong) (simp add: numeral_2_eq_2 cong: if_cong)

theorem round_robin_turn_witness:
  "\<exists>k :: nat. k \<le> 18 \<and> current (cpus (if k = 0 then mark_ready 0 first_runs else second_runs) 0) = Some 1"
proof -
  let ?t = "\<lambda>k :: nat. if k = 0 then mark_ready 0 first_runs else second_runs"
  have r: "sched_reach (?t 0)"
    using reach_first(2) st_mark_ready unfolding sched_reach_def by (simp add: rtranclp.rtrancl_into_rtrancl)
  have l: "tasks (mark_ready 0 first_runs) = [new_task 1 0 1 0, new_task 2 0 1 0]"
    by (simp add: first_runs_def mark_ready_def on_current_def cur_index_def set_task_def new_task_def)
  have q: "quiet 0 1 (?t 0) (?t 0)" by (simp add: quiet_def l new_task_def)
  have "\<exists>k \<le> 9 * length (tasks (?t 0)). current (cpus (?t k) 0) = Some 1"
  proof (rule round_robin_turn [where t = ?t and u = ?t, OF r])
    show "1 < length (tasks (?t 0))" "owner_cpu (tasks (?t 0) ! 1) = 0" "t_state (tasks (?t 0) ! 1) \<in> {Ready, Running}"
      by (simp_all add: l new_task_def)
    show "i < length (tasks (?t 0)) \<Longrightarrow> owner_cpu (tasks (?t 0) ! i) = 0 \<Longrightarrow> priority (tasks (?t 0) ! i) = PRIO_NORMAL" for i
      by (cases i) (simp_all add: l new_task_def PRIO_NORMAL_def)
    fix k
    assume n: "\<And>i. i \<le> k \<Longrightarrow> current (cpus (?t i) 0) \<noteq> Some 1"
    have "k = 0" using n [of k] by (cases k) (auto simp: second_runs_def)
    then show "quiet 0 1 (?t k) (?t k) \<and> (\<exists>e p. preempt 0 e (?t k) = Ok (p, ?t (Suc k)))"
      using q yield_second by auto
  qed
  moreover have "9 * length (tasks (?t 0)) = 18" by (simp add: l)
  ultimately show ?thesis by (simp only:)
qed

section \<open>Ownership and choice\<close>

text \<open>
  C6. A context belongs to one CPU. In every state that any interleaving of the CPUs' operations can
  reach, no task is current or just suspended on two CPUs, every task marked running is current or just
  suspended on some CPU, so none is lost, and the task identifiers are distinct while fewer than
  \<open>2 ^ 64\<close> tasks were ever created.
\<close>

theorem context_has_one_owner:
  assumes "sched_reach s"
  shows "(claimed s c i \<and> claimed s d i \<longrightarrow> c = d) \<and>
    (\<forall>k < length (tasks s). t_state (tasks s ! k) = Running \<longrightarrow> (\<exists>b < MAX_CPUS. claimed s b k)) \<and>
    (length (tasks s) < 2 ^ 64 \<longrightarrow> distinct (map t_id (tasks s)))"
proof -
  note inv = sched_invD [OF inv_reach [OF assms]]
  have "distinct (map t_id (tasks s))" if "length (tasks s) < 2 ^ 64"
    unfolding distinct_conv_nth using inv(6) that by (auto simp: mod_less)
  moreover have "\<exists>b < MAX_CPUS. claimed s b k" if "k < length (tasks s)" "t_state (tasks s ! k) = Running" for k
    using inv(4,5) that by (auto simp: task_wf_def)
  ultimately show ?thesis using inv(2) by metis
qed

theorem context_has_one_owner_witness:
  "sched_reach first_runs \<and> claimed first_runs 0 0 \<and> distinct (map t_id (tasks first_runs)) \<and>
    (\<exists>b < MAX_CPUS. claimed first_runs b 0)"
  using reach_first(2) context_has_one_owner [OF reach_first(2), of 0 0 0] by (auto simp: first_runs_def claimed_def new_task_def)

text \<open>
  C2. The most urgent ready task runs. A reschedule that switches to a task takes the first one, in
  search order after the current task, among its CPU's ready tasks of the most urgent priority, and
  gives it a fresh slice. It goes idle only when no task of the CPU is ready. It keeps the current
  context only if that is a real-time task or no ready task of the CPU is more urgent than it.
\<close>

theorem preempt_most_urgent:
  assumes "sched_reach s" "preempt me e s = Ok (plan, s')"
  shows "let w = tasks (chosen_in me e s); c = current (cpus s me); b = current (cpus s' me) in
    case plan of
      None \<Rightarrow> b = c \<and> (\<forall>j < length w. eligible me (w ! j) \<longrightarrow>
        (\<exists>i. c = Some i \<and> (priority (w ! i) = PRIO_RT \<or> priority (w ! i) \<le> priority (w ! j))))
    | Some (c', b') \<Rightarrow> c' = c \<and> b' = b \<and> b \<noteq> c \<and> (case b of
        None \<Rightarrow> \<forall>j < length w. \<not> eligible me (w ! j)
      | Some j \<Rightarrow> most_urgent me w (rotation c (length w)) j \<and> t_state (tasks s' ! j) = Running \<and>
          slice_left (tasks s' ! j) = fresh_slice (priority (w ! j)))"
proof -
  let ?w = "tasks (chosen_in me e s)" and ?c = "current (cpus s me)"
  have inv: "sched_inv s" by (rule inv_reach [OF assms(1)])
  have pr: "\<forall>i < length ?w. priority (?w ! i) < 256" by (rule priorities [OF inv_woken [OF inv_release [OF inv]]])
  note eff = preempt_effect [OF assms(2) inv]
  obtain b p l where pick: "pick me ?c ?w = (b, p, l)" by (metis prod_cases3)
  have none: "b = None \<Longrightarrow> j < length ?w \<Longrightarrow> \<not> eligible me (?w ! j)" for j using pick_None [OF _ pr] pick by blast
  have some: "b = Some j \<Longrightarrow> most_urgent me ?w (rotation ?c (length ?w)) j \<and> p = priority (?w ! j)" for j
    using pick_Some [OF _ pr] pick by blast
  have least: "b = Some k \<Longrightarrow> j < length ?w \<Longrightarrow> eligible me (?w ! j) \<Longrightarrow> priority (?w ! k) \<le> priority (?w ! j)" for j k
    using some [of k] set_rotation [of ?c "length ?w"] by (auto simp: most_urgent_def)
  show ?thesis
  proof (cases plan)
    case None
    have "\<exists>i. ?c = Some i \<and> (priority (?w ! i) = PRIO_RT \<or> priority (?w ! i) \<le> priority (?w ! j))"
      if j: "j < length ?w" "eligible me (?w ! j)" for j
    proof -
      obtain k where k: "b = Some k" using none j by (cases b) auto
      have "tasks s \<noteq> []" using j(1) by auto
      then have "b = ?c \<or> (\<exists>i. ?c = Some i \<and> keeps_cpu (?w ! i) b p)" using preempt_none_why [OF assms(2) [unfolded None] _ pick] by blast
      then show ?thesis
      proof (elim disjE exE conjE)
        fix i
        assume "?c = Some i" "keeps_cpu (?w ! i) b p"
        then show ?thesis using k least [OF k j] some [OF k] by (auto simp: keeps_cpu_def)
      qed (use k least [OF k j] in \<open>metis\<close>)
    qed
    then show ?thesis using None eff(2) by (simp add: Let_def)
  next
    case (Some cb)
    then show ?thesis using eff(2) pick none some by (auto simp: Let_def split: option.splits prod.splits)
  qed
qed

theorem preempt_most_urgent_witness:
  "preempt 0 calm two_tasks = Ok (Some (None, Some 0), first_runs) \<and>
    most_urgent 0 (tasks (chosen_in 0 calm two_tasks)) (rotation None 2) 0"
proof -
  have "length (tasks two_tasks) = 2" "current (cpus two_tasks 0) = None" "current (cpus first_runs 0) = Some 0"
    by (simp_all add: first_runs_def two_tasks_def spawn_def push_task_def boot_sched_def Let_def)
  then show ?thesis using preempt_first preempt_most_urgent [OF reach_first(1) preempt_first] by (simp add: Let_def)
qed

section \<open>Sleepers, zombies and killed tasks\<close>

text \<open>
  What a reschedule does to a task that is not runnable: exactly what the wake pass does to it, except
  that a task the pass has made ready may be chosen at once.
\<close>

lemma preempt_parked:
  assumes inv: "sched_inv s" and i: "i < length (tasks s)" and st: "t_state (tasks s ! i) \<notin> {Ready, Running}"
    and pre: "preempt me e s = Ok (plan, s')"
  obtains us where "us ! i = tasks s ! i" "length us = length (tasks s)"
    "\<And>k. k < length (tasks s) \<Longrightarrow> t_id (us ! k) = t_id (tasks s ! k) \<and> (t_state (us ! k) = Dead \<longleftrightarrow> t_state (tasks s ! k) = Dead)"
    "t_state (wake_task e us i) \<noteq> Running"
    "tasks s' ! i = wake_task e us i \<or> t_state (wake_task e us i) = Ready \<and> current (cpus s' me) = Some i \<and> t_state (tasks s' ! i) = Running"
proof -
  let ?r = "tasks (release_pending_prev me s)" and ?w = "tasks (chosen_in me e s)"
  have r: "?r ! i = tasks s ! i" using release_nth [OF inv i, of me] st by auto
  have rk: "t_id (?r ! k) = t_id (tasks s ! k) \<and> (t_state (?r ! k) = Dead \<longleftrightarrow> t_state (tasks s ! k) = Dead)" if "k < length (tasks s)" for k
    using release_nth [OF inv that, of me] by simp
  have "i < length ?r" using i by simp
  from wake_pass_nth [OF this, of e] obtain us where us: "length us = length ?r" "us ! i = ?r ! i" "wake_pass e ?r ! i = wake_task e us i"
    "\<And>k. k < length ?r \<Longrightarrow> tame (?r ! k) (us ! k) \<and> (t_state (us ! k) = Dead \<longleftrightarrow> t_state (?r ! k) = Dead)" by blast
  have nr: "t_state (wake_task e us i) \<noteq> Running" using wake_task_tame [of us i e] us(2) r st by (auto simp: tame_def)
  have w: "?w ! i = wake_task e us i" using woken_nth [of i "release_pending_prev me s" me e] i us(3) nr by simp
  have "tasks s' ! i = ?w ! i \<or> t_state (?w ! i) = Ready \<and> current (cpus s' me) = Some i \<and> t_state (tasks s' ! i) = Running"
  proof (cases plan)
    case None
    then show ?thesis using preempt_effect(2) [OF pre inv] by simp
  next
    case (Some cb)
    obtain c b where cb: "cb = (c, b)" by (cases cb)
    have b: "b = fst (pick me c ?w)" "current (cpus s' me) = b" "c = current (cpus s me)"
      and t: "tasks s' ! i = (if b = Some i then (?w ! i)\<lparr>slice_left := fresh_slice (priority (?w ! i)), t_state := Running\<rparr> else ?w ! i)"
      using preempt_effect(2) [OF pre inv] Some cb by auto
    have "t_state (?w ! i) = Ready" if bi: "b = Some i"
    proof -
      obtain p l where "pick me c ?w = (Some i, p, l)" using b(1) bi by (cases "pick me c ?w") auto
      from pick_Some(3) [OF this priorities [OF inv_woken [OF inv_release [OF inv]]]] show ?thesis by (simp add: eligible_def)
    qed
    then show ?thesis using t b(2) by (cases "b = Some i") auto
  qed
  then show ?thesis using that [of us] us r rk nr w i by (simp add: tame_def)
qed

text \<open>Two further states of the sample run: the first task sleeps, and a killed child of it.\<close>

definition first_sleeps :: sched where
  "first_sleeps = sleep_current 0 5 first_runs"

definition with_zombie :: sched where
  "with_zombie = first_runs\<lparr>tasks := tasks first_runs @ [new_task 3 0 1 1\<lparr>t_state := Dead, exit_code := 137\<rparr>], next_id := 4\<rparr>"

lemma reach_samples: "sched_reach first_sleeps" "sched_reach with_zombie"
proof -
  note ext = rtranclp.rtrancl_into_rtrancl [where r = sched_step]
  show "sched_reach first_sleeps"
    using ext [OF reach_first(2) [unfolded sched_reach_def] st_sleep] unfolding first_sleeps_def sched_reach_def .
  let ?s = "snd (spawn_user_with_parent 0 1 first_runs)"
  have k: "kill 0 3 ?s = Ok (True, with_zombie)"
    by (simp add: kill_def spawn_user_with_parent_def push_task_def first_task_def first_runs_def two_tasks_def with_zombie_def spawn_def
      boot_sched_def set_task_def cur_index_def new_task_def PRIO_NORMAL_def fresh_slice_def PRIO_RT_def Let_def)
  have "sched_step\<^sup>*\<^sup>* boot_sched ?s"
    by (rule ext [OF reach_first(2) [unfolded sched_reach_def] st_spawn_user]) (simp add: MAX_CPUS_def)
  then show "sched_reach with_zombie" using ext st_kill [OF k] unfolding sched_reach_def by blast
qed

lemma preempt_due:
  "\<exists>s'. preempt 0 (calm\<lparr>now_ms := 10\<rparr>) first_sleeps = Ok (Some (Some 0, Some 1), s') \<and> current (cpus s' 0) = Some 1"
  by (simp add: run_simps first_runs_def first_sleeps_def sleep_current_def sleeper_due_def upt_conv_Cons fun_upd_def cong: if_cong)

lemma preempt_zombie: "\<exists>s'. preempt 0 calm with_zombie = Ok (None, s') \<and> current (cpus s' 0) = Some 0"
  by (simp add: run_simps first_runs_def with_zombie_def orphaned_def find_task_def upt_conv_Cons fun_upd_def cong: if_cong)

text \<open>
  C10. Sleepers wake on time and not before. After any reschedule by any CPU a task that was sleeping is
  runnable if its coarse deadline or its fine one has passed, and still sleeps with the same deadlines
  otherwise.
\<close>

theorem sleepers_wake:
  assumes "sched_reach s" "i < length (tasks s)" "t_state (tasks s ! i) = Sleeping" "preempt me e s = Ok (plan, s')"
  shows "if sleeper_due e (tasks s ! i)
    then t_state (tasks s' ! i) = Ready \<or> t_state (tasks s' ! i) = Running \<and> current (cpus s' me) = Some i
    else t_state (tasks s' ! i) = Sleeping \<and> sleep_until_ms (tasks s' ! i) = sleep_until_ms (tasks s ! i) \<and>
      sleep_until_ns (tasks s' ! i) = sleep_until_ns (tasks s ! i)"
proof -
  obtain us where "us ! i = tasks s ! i"
    "tasks s' ! i = wake_task e us i \<or> t_state (wake_task e us i) = Ready \<and> current (cpus s' me) = Some i \<and> t_state (tasks s' ! i) = Running"
    by (rule preempt_parked [OF inv_reach [OF assms(1)] assms(2) _ assms(4)]) (use assms(3) in auto)
  then show ?thesis using assms(3) by (auto simp: wake_task_def Let_def split: if_splits)
qed

theorem sleepers_wake_witness:
  "\<exists>s'. preempt 0 (calm\<lparr>now_ms := 10\<rparr>) first_sleeps = Ok (Some (Some 0, Some 1), s') \<and> t_state (tasks s' ! 0) = Ready"
proof -
  obtain s' where s': "preempt 0 (calm\<lparr>now_ms := 10\<rparr>) first_sleeps = Ok (Some (Some 0, Some 1), s')" "current (cpus s' 0) = Some 1"
    using preempt_due by blast
  have "0 < length (tasks first_sleeps)" "t_state (tasks first_sleeps ! 0) = Sleeping" "sleep_until_ms (tasks first_sleeps ! 0) = 5"
    by (simp_all add: first_sleeps_def sleep_current_def first_runs_def on_current_def cur_index_def set_task_def)
  then show ?thesis using sleepers_wake [OF reach_samples(1) _ _ s'(1), of 0] s' by (simp add: sleeper_due_def)
qed

lemma reap_once:
  assumes "sched_inv s" "length (tasks s) < 2 ^ 64" "z < length (tasks s)" "t_state (tasks s ! z) = Dead" "\<not> reaped (tasks s ! z)"
    and "parent_id (tasks s ! z) = t_id (tasks s ! p)" "current (cpus s c) = Some p"
  shows "\<exists>s'. try_reap c (t_id (tasks s ! z)) s = (Some (t_id (tasks s ! z), exit_code (tasks s ! z)), s') \<and>
    fst (try_reap c (t_id (tasks s ! z)) s') = None \<and> \<not> child_waitable c (t_id (tasks s ! z)) s'"
proof -
  let ?id = "t_id (tasks s ! z)" and ?s = "set_task z (\<lambda>t. t\<lparr>reaped := True\<rparr>) s"
  have ids: "k < length (tasks s) \<Longrightarrow> t_id (tasks s ! k) = k + 1" for k using sched_invD(6) [OF assms(1), of k] assms(2) by simp
  have "first_task (\<lambda>_ t. is_child (t_id (tasks s ! p)) ?id t \<and> t_state t = Dead \<and> \<not> reaped t) s = Some z"
    unfolding first_task_def find_Some_iff using assms(3-6) ids by (intro exI [of _ z]) (auto simp: is_child_def)
  then have r: "try_reap c ?id s = (Some (?id, exit_code (tasks s ! z)), ?s)" using assms(7) by (simp add: try_reap_def cur_index_def)
  have t: "k < length (tasks s) \<Longrightarrow> tasks ?s ! k = (if k = z then (tasks s ! z)\<lparr>reaped := True\<rparr> else tasks s ! k)" for k
    by (simp add: set_task_def nth_list_update)
  have no: "\<not> (is_child q ?id (tasks ?s ! k) \<and> (t_state (tasks ?s ! k) \<noteq> Dead \<or> \<not> reaped (tasks ?s ! k)))" if "k < length (tasks s)" for k q
    using t [OF that] ids [OF that] ids [OF assms(3)] assms(4) by (auto simp: is_child_def)
  then have "\<not> child_waitable c ?id ?s" by (auto simp: child_waitable_def list_ex_iff in_set_conv_nth cur_index_def assms(7))
  moreover have "first_task (\<lambda>_ t. is_child (t_id (tasks ?s ! p)) ?id t \<and> t_state t = Dead \<and> \<not> reaped t) ?s = None"
    unfolding first_task_def find_None_iff using no by auto
  then have "fst (try_reap c ?id ?s) = None" by (simp add: try_reap_def cur_index_def assms(7))
  ultimately show ?thesis using r by blast
qed

text \<open>
  C9. An exit status reaches the parent once. Take a task that ended and was not waited for, whose
  parent lives. No reschedule touches it. When the parent then waits for it, it gets the identifier and
  the exit code, and waiting again finds neither a status nor a child to wait for.
\<close>

theorem exit_status_once:
  assumes "sched_reach s" "length (tasks s) < 2 ^ 64" "z < length (tasks s)" "t_state (tasks s ! z) = Dead" "\<not> reaped (tasks s ! z)"
    and "p < length (tasks s)" "parent_id (tasks s ! z) = t_id (tasks s ! p)" "t_state (tasks s ! p) \<noteq> Dead"
    and "preempt me e s = Ok (plan, s')"
  shows "tasks s' ! z = tasks s ! z \<and> (current (cpus s' c) = Some p \<longrightarrow>
    (\<exists>s''. try_reap c (t_id (tasks s ! z)) s' = (Some (t_id (tasks s ! z), exit_code (tasks s ! z)), s'') \<and>
      fst (try_reap c (t_id (tasks s ! z)) s'') = None \<and> \<not> child_waitable c (t_id (tasks s ! z)) s''))"
proof -
  have inv: "sched_inv s" by (rule inv_reach [OF assms(1)])
  have inv': "sched_inv s'" by (rule inv_step [OF st_preempt [OF assms(9)] inv])
  have len: "length (tasks s') = length (tasks s)" by (rule preempt_effect(1) [OF assms(9) inv])
  have ids: "k < length (tasks s) \<Longrightarrow> t_id (tasks s ! k) = k + 1 \<and> t_id (tasks s' ! k) = k + 1" for k
    using sched_invD(6) [OF inv, of k] sched_invD(6) [OF inv', of k] assms(2) len by simp
  obtain us where us: "us ! z = tasks s ! z" "length us = length (tasks s)"
    "\<And>k. k < length (tasks s) \<Longrightarrow> t_id (us ! k) = t_id (tasks s ! k) \<and> (t_state (us ! k) = Dead \<longleftrightarrow> t_state (tasks s ! k) = Dead)"
    "tasks s' ! z = wake_task e us z \<or> t_state (wake_task e us z) = Ready \<and> current (cpus s' me) = Some z \<and> t_state (tasks s' ! z) = Running"
    by (rule preempt_parked [OF inv assms(3) _ assms(9)]) (use assms(4) in auto)
  have "find_task (t_id (tasks s ! p)) us = Some p"
    unfolding find_task_def find_Some_iff using assms(6) us(2,3) ids by (intro exI [of _ p]) auto
  then have "wake_task e us z = tasks s ! z"
    using us(1,3) assms(4,6,7,8) ids [OF assms(6)] by (simp add: wake_task_def Let_def orphaned_def)
  then have z: "tasks s' ! z = tasks s ! z" using us(4) assms(4) by auto
  then have "t_state (tasks s' ! z) = Dead" "\<not> reaped (tasks s' ! z)" "parent_id (tasks s' ! z) = t_id (tasks s' ! p)"
    using assms(4,5,7) ids [OF assms(6)] by simp_all
  then show ?thesis using reap_once [OF inv' _ _ _ _ _, of z p c] z assms(2,3) len by auto
qed

theorem exit_status_once_witness:
  "\<exists>s' s''. preempt 0 calm with_zombie = Ok (None, s') \<and> try_reap 0 3 s' = (Some (3, 137), s'') \<and> fst (try_reap 0 3 s'') = None"
proof -
  obtain s' where s': "preempt 0 calm with_zombie = Ok (None, s')" "current (cpus s' 0) = Some 0" using preempt_zombie by blast
  have z: "tasks with_zombie = [new_task 1 0 1 0\<lparr>t_state := Running\<rparr>, new_task 2 0 1 0, new_task 3 0 1 1\<lparr>t_state := Dead, exit_code := 137\<rparr>]"
    by (simp add: with_zombie_def first_runs_def)
  show ?thesis
    using exit_status_once [OF reach_samples(2) _ _ _ _ _ _ _ s'(1), of 2 0 0] s' by (auto simp: z new_task_def)
qed

section \<open>Lost wake-ups and undone kills\<close>

text \<open>
  The flag of a console read outlives the read. A task that has once blocked on a line of input and
  later waits for a child stays blocked while no line is pending, even if the child is a zombie.
\<close>

lemma input_flag_shadows_child:
  assumes "sched_reach s" "current (cpus s c) = Some i" "blocked_on_input (tasks s ! i)" "\<not> line_pending e"
    and "preempt me e (block_on_child c s) = Ok (plan, s')"
  shows "t_state (tasks s' ! i) = Blocked"
proof -
  have "sched_inv (block_on_child c s)" and i: "i < length (tasks s)"
    using inv_step [OF st_block_child] inv_reach [OF assms(1)] sched_invD(1) [of s c i] assms(2) by (auto simp: claimed_def)
  moreover have b: "t_state (tasks (block_on_child c s) ! i) = Blocked" "blocked_on_input (tasks (block_on_child c s) ! i)"
    "length (tasks (block_on_child c s)) = length (tasks s)"
    using assms(2,3) i by (simp_all add: block_on_child_def on_current_def cur_index_def set_task_def)
  ultimately obtain us where "us ! i = tasks (block_on_child c s) ! i"
    "tasks s' ! i = wake_task e us i \<or> t_state (wake_task e us i) = Ready \<and> current (cpus s' me) = Some i \<and> t_state (tasks s' ! i) = Running"
    using preempt_parked [OF _ _ _ assms(5), of i] by auto
  then show ?thesis using b assms(4) by (auto simp: wake_task_def Let_def)
qed

text \<open>
  A kill does not stick. A task killed while it runs on another CPU is revived when it goes to sleep
  before that CPU reschedules.
\<close>

lemma killed_task_revives:
  assumes "sched_reach s" "length (tasks s) < 2 ^ 64" "current (cpus s c) = Some v" "c \<noteq> me" "t_state (tasks s ! v) \<noteq> Dead"
  shows "\<exists>s'. kill me (t_id (tasks s ! v)) s = Ok (True, s') \<and> t_state (tasks s' ! v) = Dead \<and>
    t_state (tasks (sleep_current c ms s') ! v) = Sleeping"
proof -
  note inv = sched_invD [OF inv_reach [OF assms(1)]]
  have v: "v < length (tasks s)" "owner_cpu (tasks s ! v) = c" using inv(1,2) [of c v] assms(3) by (auto simp: claimed_def)
  have ids: "k < length (tasks s) \<Longrightarrow> t_id (tasks s ! k) = k + 1" for k using inv(6) [of k] assms(2) by simp
  have "Some v \<noteq> current (cpus s me)" using inv(2) [of me v] v(2) assms(4) by (auto simp: claimed_def)
  then have "first_task (\<lambda>i t. t_id t = t_id (tasks s ! v) \<and> Some i \<noteq> cur_index me s \<and> t_state t \<noteq> Dead) s = Some v"
    unfolding first_task_def find_Some_iff using v(1) ids assms(5) by (intro exI [of _ v]) (auto simp: cur_index_def)
  moreover have "c < MAX_CPUS" using inv(5) [OF v(1)] v(2) by (simp add: task_wf_def)
  ultimately show ?thesis
    using v assms(3) by (simp add: kill_def sleep_current_def on_current_def cur_index_def set_task_def)
qed

end
