(* ===== verification/Keyboard.thy ===== *)
theory Keyboard
  imports Input_Ring
begin

text \<open>
  The keyboard line discipline: \<open>kernel/src/keyboard.rs\<close>. The ring of decoded keys (one producer, the
  interrupt handler, and one consumer), the line under construction, \<open>take_line\<close> and \<open>line_pending\<close>. The
  scancode decoder is the \<open>pc-keyboard\<close> crate: the model starts at the values the handler puts into
  the ring. The echo to the serial port and to the screen is not modelled.

  The lemmas show that the ring is a bounded queue, that \<open>take_line\<close> computes the edited line of the
  keys typed so far, and that \<open>line_pending\<close> says exactly when it will complete a line.
\<close>

unbundle bit_operations_syntax

section \<open>Definitions\<close>

definition FLAG_RAW :: u64 where "FLAG_RAW = push_bit 32 1"
definition KEY_RING_LEN :: nat where "KEY_RING_LEN = 256"
definition LINE_CAP :: nat where "LINE_CAP = 128"

record keyboard =
  K_RING :: "u64 list"
  K_HEAD :: nat
  K_TAIL :: nat
  LINE :: bytes
  LINE_LEN :: nat

definition keyboard_start :: keyboard where
  "keyboard_start = \<lparr>K_RING = replicate KEY_RING_LEN 0, K_HEAD = 0, K_TAIL = 0, LINE = replicate LINE_CAP 0, LINE_LEN = 0\<rparr>"

definition ring_push :: "u64 \<Rightarrow> (keyboard, 'e, unit) prog" where
  "ring_push v k =
     (let nxt = (K_HEAD k + 1) mod KEY_RING_LEN in
      if nxt = K_TAIL k then (Ok (), k)
      else if length (K_RING k) \<le> K_HEAD k then (Panic, k)
      else (Ok (), k\<lparr>K_RING := (K_RING k)[K_HEAD k := v], K_HEAD := nxt\<rparr>))"

definition ring_pop :: "(keyboard, 'e, u64 option) prog" where
  "ring_pop k =
     (if K_TAIL k = K_HEAD k then (Ok None, k)
      else if length (K_RING k) \<le> K_TAIL k then (Panic, k)
      else (Ok (Some (K_RING k ! K_TAIL k)), k\<lparr>K_TAIL := (K_TAIL k + 1) mod KEY_RING_LEN\<rparr>))"

text \<open>What the interrupt handler puts into the ring for a decoded key.\<close>

datatype decoded_key = Unicode nat | RawKey nat

definition key_value :: "decoded_key \<Rightarrow> u64" where
  "key_value d = (case d of Unicode c \<Rightarrow> of_nat c | RawKey c \<Rightarrow> FLAG_RAW OR of_nat c)"

text \<open>\<open>char::from_u32\<close>, \<open>char::is_control\<close> and \<open>char::encode_utf8\<close> on code points.\<close>

definition from_u32 :: "nat \<Rightarrow> nat option" where
  "from_u32 n = (if n < 0x110000 \<and> \<not> (0xD800 \<le> n \<and> n < 0xE000) then Some n else None)"

definition is_control :: "nat \<Rightarrow> bool" where
  "is_control c \<longleftrightarrow> c < 0x20 \<or> 0x7F \<le> c \<and> c < 0xA0"

definition encode_utf8 :: "nat \<Rightarrow> bytes" where
  "encode_utf8 c =
     (if c < 0x80 then [of_nat c]
      else if c < 0x800 then [of_nat (0xC0 + c div 64), of_nat (0x80 + c mod 64)]
      else if c < 0x10000 then [of_nat (0xE0 + c div 4096), of_nat (0x80 + c div 64 mod 64), of_nat (0x80 + c mod 64)]
      else [of_nat (0xF0 + c div 262144), of_nat (0x80 + c div 4096 mod 64), of_nat (0x80 + c div 64 mod 64),
        of_nat (0x80 + c mod 64)])"

definition key_char :: "u64 \<Rightarrow> nat option" where
  "key_char v = (if v AND FLAG_RAW \<noteq> 0 then None else from_u32 (unat (ucast v :: u32)))"

text \<open>The effect of one key on the line; the first component tells whether the line is complete.\<close>

definition type_key :: "u64 \<Rightarrow> keyboard \<Rightarrow> bool \<times> keyboard" where
  "type_key v k =
     (case key_char v of
        None \<Rightarrow> (False, k)
      | Some c \<Rightarrow>
          if c = 10 \<or> c = 13 then (True, k)
          else if c = 8 \<or> c = 0x7F then
            (False, if 0 < LINE_LEN k then k\<lparr>LINE_LEN := LINE_LEN k - 1\<rparr> else k)
          else if \<not> is_control c then
            (False, if LINE_LEN k + length (encode_utf8 c) \<le> length (LINE k)
              then k\<lparr>LINE := put (LINE k) (LINE_LEN k) (encode_utf8 c), LINE_LEN := LINE_LEN k + length (encode_utf8 c)\<rparr>
              else k)
          else (False, k))"

text \<open>
  The loop of \<open>take_line\<close>. The first argument bounds the number of rounds: every round but the last
  removes a key from the ring, so the capacity of the ring is enough.
\<close>

primrec take_line_loop :: "nat \<Rightarrow> bytes \<Rightarrow> (keyboard, 'e, nat \<times> bytes) prog" where
  "take_line_loop 0 out = retP (0, out)"
| "take_line_loop (Suc n) out =
     bindP ring_pop (\<lambda>kv.
     case kv of
       None \<Rightarrow> retP (0, out)
     | Some v \<Rightarrow> (\<lambda>k.
         let (complete, k') = type_key v k; m = min (LINE_LEN k') (length out) in
         if complete then
           if length (LINE k') < m then (Panic, k')
           else (Ok (m, put out 0 (take m (LINE k'))), k'\<lparr>LINE_LEN := 0\<rparr>)
         else take_line_loop n out k'))"

definition take_line :: "bytes \<Rightarrow> (keyboard, 'e, nat \<times> bytes) prog" where
  "take_line = take_line_loop KEY_RING_LEN"

definition ends_line :: "u64 \<Rightarrow> bool" where
  "ends_line v \<longleftrightarrow> (case key_char v of None \<Rightarrow> False | Some c \<Rightarrow> c = 10 \<or> c = 13)"

primrec pending_from :: "nat \<Rightarrow> nat \<Rightarrow> keyboard \<Rightarrow> (unit, bool) res" where
  "pending_from 0 i k = Ok False"
| "pending_from (Suc n) i k =
     (if i = K_HEAD k then Ok False
      else if length (K_RING k) \<le> i then Panic
      else if ends_line (K_RING k ! i) then Ok True
      else pending_from n ((i + 1) mod KEY_RING_LEN) k)"

definition line_waiting :: "keyboard \<Rightarrow> (unit, bool) res" where
  "line_waiting k = pending_from KEY_RING_LEN (K_TAIL k) k"

section \<open>The ring\<close>

definition key_count :: "keyboard \<Rightarrow> nat" where
  "key_count k = (K_HEAD k + KEY_RING_LEN - K_TAIL k) mod KEY_RING_LEN"

definition keys :: "keyboard \<Rightarrow> u64 list" where
  "keys k = map (\<lambda>i. K_RING k ! ((K_TAIL k + i) mod KEY_RING_LEN)) [0..<key_count k]"

definition keyboard_wf :: "keyboard \<Rightarrow> bool" where
  "keyboard_wf k \<longleftrightarrow> length (K_RING k) = KEY_RING_LEN \<and> K_HEAD k < KEY_RING_LEN \<and> K_TAIL k < KEY_RING_LEN \<and>
     length (LINE k) = LINE_CAP \<and> LINE_LEN k \<le> LINE_CAP"

lemma length_keys [simp]: "length (keys k) = key_count k"
  by (simp add: keys_def)

lemma key_count_cases:
  assumes "keyboard_wf k"
  shows "key_count k = (if K_TAIL k \<le> K_HEAD k then K_HEAD k - K_TAIL k else K_HEAD k + KEY_RING_LEN - K_TAIL k)"
    "key_count k < KEY_RING_LEN" "key_count k = 0 \<longleftrightarrow> K_TAIL k = K_HEAD k" "K_HEAD k = (K_TAIL k + key_count k) mod KEY_RING_LEN"
proof -
  have b: "K_HEAD k < KEY_RING_LEN" "K_TAIL k < KEY_RING_LEN" using assms by (simp_all add: keyboard_wf_def)
  show c: "key_count k = (if K_TAIL k \<le> K_HEAD k then K_HEAD k - K_TAIL k else K_HEAD k + KEY_RING_LEN - K_TAIL k)"
  proof (cases "K_TAIL k \<le> K_HEAD k")
    case True
    then have e: "K_HEAD k + KEY_RING_LEN - K_TAIL k = K_HEAD k - K_TAIL k + KEY_RING_LEN" by simp
    have "key_count k = K_HEAD k - K_TAIL k" unfolding key_count_def e mod_add_self2 using b by simp
    then show ?thesis using True by simp
  qed (use b in \<open>simp add: key_count_def\<close>)
  show "key_count k < KEY_RING_LEN" "key_count k = 0 \<longleftrightarrow> K_TAIL k = K_HEAD k" using b c by (auto split: if_splits)
  show "K_HEAD k = (K_TAIL k + key_count k) mod KEY_RING_LEN" using b c by (cases "K_TAIL k \<le> K_HEAD k") auto
qed

lemma pop_empty: "keyboard_wf k \<Longrightarrow> keys k = [] \<Longrightarrow> ring_pop k = (Ok None, k)"
  using key_count_cases(3) [of k] length_keys [of k] by (simp add: ring_pop_def)

lemma pop_key:
  assumes "keyboard_wf k" "keys k = v # vs"
  shows "\<exists>k'. ring_pop k = (Ok (Some v), k') \<and> keyboard_wf k' \<and> keys k' = vs \<and> LINE k' = LINE k \<and> LINE_LEN k' = LINE_LEN k"
proof -
  define k' where "k' = k\<lparr>K_TAIL := (K_TAIL k + 1) mod KEY_RING_LEN\<rparr>"
  obtain n where n: "key_count k = Suc n" using assms(2) length_keys [of k] by (cases "key_count k") auto
  have L: "KEY_RING_LEN = 256" by (simp add: KEY_RING_LEN_def)
  have b: "K_HEAD k < 256" "K_TAIL k < 256" using assms(1) by (simp_all add: keyboard_wf_def L)
  have wf: "keyboard_wf k'" using assms(1) by (simp add: keyboard_wf_def k'_def L)
  have "key_count k' = n"
    using key_count_cases(1) [OF assms(1)] key_count_cases(1) [OF wf] n b
    by (cases "K_TAIL k = 255") (auto simp: k'_def L split: if_splits)
  then have "keys k = K_RING k ! K_TAIL k # keys k'"
    unfolding keys_def n by (simp add: upt_conv_Cons map_Suc_upt [symmetric] k'_def b L mod_simps del: upt_Suc)
  moreover have "ring_pop k = (Ok (Some (K_RING k ! K_TAIL k)), k')"
    using key_count_cases(3) [OF assms(1)] n assms(1) by (simp add: ring_pop_def k'_def keyboard_wf_def)
  ultimately show ?thesis using assms(2) wf by (intro exI [of _ k']) (simp add: k'_def)
qed

lemma push_key_ring:
  assumes "keyboard_wf k"
  shows "\<exists>k'. ring_push v k = (Ok (), k') \<and> keyboard_wf k' \<and> keys k' = take (KEY_RING_LEN - 1) (keys k @ [v]) \<and>
    LINE k' = LINE k \<and> LINE_LEN k' = LINE_LEN k"
proof -
  have L: "KEY_RING_LEN = 256" by (simp add: KEY_RING_LEN_def)
  have b: "K_HEAD k < 256" "K_TAIL k < 256" "length (K_RING k) = 256" using assms by (simp_all add: keyboard_wf_def L)
  note c = key_count_cases [OF assms, unfolded L]
  show ?thesis
  proof (cases "(K_HEAD k + 1) mod 256 = K_TAIL k")
    case True
    then have "key_count k = 255" using c(1) b by (cases "K_HEAD k = 255") (auto split: if_splits)
    then show ?thesis using True assms by (simp add: ring_push_def L)
  next
    case False
    define k' where "k' = k\<lparr>K_RING := (K_RING k)[K_HEAD k := v], K_HEAD := (K_HEAD k + 1) mod 256\<rparr>"
    have wf: "keyboard_wf k'" using assms by (simp add: keyboard_wf_def k'_def L)
    note c' = key_count_cases [OF wf, unfolded L]
    have n: "key_count k' = Suc (key_count k)" "key_count k < 255"
      using c(1) c'(1) b False by (cases "K_HEAD k = 255"; auto simp: k'_def split: if_splits)+
    have "(K_TAIL k + i) mod 256 \<noteq> K_HEAD k" if "i < key_count k" for i
    proof
      assume "(K_TAIL k + i) mod 256 = K_HEAD k"
      then have "256 dvd (K_TAIL k + key_count k) - (K_TAIL k + i)"
        using c(4) that by (subst mod_eq_dvd_iff_nat [symmetric]) simp_all
      then have "256 \<le> key_count k - i" using that by (auto intro!: dvd_imp_le)
      then show False using n(2) by simp
    qed
    then have "keys k' = keys k @ [v]"
      using b c(4) unfolding keys_def n(1) by (auto simp: k'_def L nth_list_update_neq [OF not_sym])
    moreover have "ring_push v k = (Ok (), k')" using False b by (simp add: ring_push_def k'_def L)
    ultimately show ?thesis using wf n(2) by (intro exI [of _ k']) (simp add: k'_def L)
  qed
qed

text \<open>The key ring under the queue contract; an empty ring is an error of the adapter.\<close>

interpretation key_ring: bounded_fifo keyboard_wf keys "KEY_RING_LEN - 1" ring_push
  "bindP ring_pop (\<lambda>kv. case kv of None \<Rightarrow> errP () | Some v \<Rightarrow> retP v)"
proof
  show "keyboard_wf k \<Longrightarrow> length (keys k) \<le> KEY_RING_LEN - 1" for k using key_count_cases(2) [of k] by simp
  show "keyboard_wf k \<Longrightarrow> \<exists>k'. ring_push v k = (Ok (), k') \<and> keyboard_wf k' \<and> keys k' = take (KEY_RING_LEN - 1) (keys k @ [v])" for k v
    using push_key_ring [of k v] by blast
  fix k v vs
  assume "keyboard_wf k" "keys k = v # vs"
  then obtain k' where "ring_pop k = (Ok (Some v) :: (unit, _) res, k')" "keyboard_wf k'" "keys k' = vs" using pop_key by blast
  then show "\<exists>k'. bindP ring_pop (\<lambda>kv. case kv of None \<Rightarrow> errP () | Some v \<Rightarrow> retP v) k = (Ok v, k') \<and> keyboard_wf k' \<and> keys k' = vs" by simp
qed

section \<open>Editing a line\<close>

text \<open>The line typed so far, and the reference semantics of the keys on it.\<close>

definition typed :: "keyboard \<Rightarrow> bytes" where
  "typed k = take (LINE_LEN k) (LINE k)"

definition edit_key :: "bytes \<Rightarrow> u64 \<Rightarrow> bytes" where
  "edit_key l v =
     (case key_char v of
        None \<Rightarrow> l
      | Some c \<Rightarrow>
          if c = 8 \<or> c = 0x7F then butlast l
          else if is_control c \<or> LINE_CAP < length l + length (encode_utf8 c) then l
          else l @ encode_utf8 c)"

text \<open>Up to the first key that ends a line; the keys behind it stay.\<close>

fun edit_line :: "bytes \<Rightarrow> u64 list \<Rightarrow> bytes \<times> bytes option \<times> u64 list" where
  "edit_line l [] = (l, None, [])"
| "edit_line l (v # vs) = (if ends_line v then ([], Some l, vs) else edit_line (edit_key l v) vs)"

lemma edit_line_completes: "fst (snd (edit_line l vs)) \<noteq> None \<longleftrightarrow> list_ex ends_line vs"
  by (induction l vs rule: edit_line.induct) auto

lemma type_key_spec:
  assumes "keyboard_wf k" "type_key v k = (b, k')"
  shows "b = ends_line v" "keyboard_wf k'" "keys k' = keys k" "b \<Longrightarrow> k' = k" "\<not> b \<Longrightarrow> typed k' = edit_key (typed k) v"
proof -
  have l: "length (LINE k) = LINE_CAP" "LINE_LEN k \<le> LINE_CAP" using assms(1) by (simp_all add: keyboard_wf_def)
  then have t: "length (typed k) = LINE_LEN k" by (simp add: typed_def)
  have nl: "is_control 10" "is_control 13" by (simp_all add: is_control_def)
  show "b = ends_line v" using assms(2) by (auto simp: type_key_def ends_line_def split: option.splits if_splits)
  show "keyboard_wf k'" using assms by (auto simp: type_key_def keyboard_wf_def split: option.splits if_splits)
  show "keys k' = keys k" using assms(2) by (auto simp: type_key_def keys_def key_count_def split: option.splits if_splits)
  show "b \<Longrightarrow> k' = k" using assms(2) by (auto simp: type_key_def split: option.splits if_splits)
  have erase: "take (LINE_LEN k - 1) (LINE k) = butlast (typed k)" using l by (simp add: typed_def butlast_take)
  have ins: "take (LINE_LEN k + length e) (put (LINE k) (LINE_LEN k) e) = typed k @ e" if "LINE_LEN k + length e \<le> LINE_CAP" for e
    using l that by (simp add: typed_def put_def)
  show "\<not> b \<Longrightarrow> typed k' = edit_key (typed k) v"
    using assms(2) t l(1) nl erase ins
    by (auto simp: type_key_def edit_key_def typed_def not_le split: option.splits if_splits)
qed

lemma take_line_loop_spec:
  assumes "keyboard_wf k" "key_count k < n" "edit_line (typed k) (keys k) = (l, done, rest)"
  shows "\<exists>k'. take_line_loop n out k =
      (Ok (case done of None \<Rightarrow> (0, out) | Some t \<Rightarrow> (min (length t) (length out), put out 0 (take (length out) t))) :: ('e, nat \<times> bytes) res, k') \<and>
    keyboard_wf k' \<and> typed k' = l \<and> keys k' = rest"
  using assms
proof (induction n arbitrary: k)
  case (Suc n)
  show ?case
  proof (cases "keys k")
    case Nil
    have "ring_pop k = (Ok None :: ('e, u64 option) res, k)" by (rule pop_empty [OF Suc.prems(1) Nil])
    then show ?thesis using Suc.prems Nil by auto
  next
    case (Cons v vs)
    obtain k1 where k1: "ring_pop k = (Ok (Some v) :: ('e, u64 option) res, k1)" "keyboard_wf k1" "keys k1 = vs" "LINE k1 = LINE k" "LINE_LEN k1 = LINE_LEN k"
      using pop_key [OF Suc.prems(1) Cons] by blast
    have t1: "typed k1 = typed k" using k1 by (simp add: typed_def)
    obtain b k2 where k2: "type_key v k1 = (b, k2)" by fastforce
    note sp = type_key_spec [OF k1(2) k2]
    show ?thesis
    proof (cases b)
      case True
      then have e: "l = []" "done = Some (typed k)" "rest = vs" "k2 = k1" using Suc.prems(3) Cons sp by auto
      have len: "length (LINE k1) = LINE_CAP" "LINE_LEN k1 \<le> LINE_CAP" using k1(2) by (simp_all add: keyboard_wf_def)
      then have tl: "length (typed k) = LINE_LEN k1" using t1 [symmetric] by (simp add: typed_def)
      have "take (min (LINE_LEN k1) (length out)) (LINE k1) = take (length out) (typed k)"
        using k1(4,5) by (simp add: typed_def min.commute)
      then have "take_line_loop (Suc n) out k = (Ok (min (length (typed k)) (length out), put out 0 (take (length out) (typed k))) :: ('e, nat \<times> bytes) res, k1\<lparr>LINE_LEN := 0\<rparr>)"
        using k1(1) k2 e(4) True len tl by simp
      moreover have "keyboard_wf (k1\<lparr>LINE_LEN := 0\<rparr>)" "keys (k1\<lparr>LINE_LEN := 0\<rparr>) = vs" "typed (k1\<lparr>LINE_LEN := 0\<rparr>) = []"
        using k1(2,3) by (simp_all add: keyboard_wf_def keys_def key_count_def typed_def)
      ultimately show ?thesis using e by auto
    next
      case False
      have "key_count k2 < n" using Suc.prems(2) sp(3) k1(3) Cons length_keys [of k2] length_keys [of k] by simp
      moreover have "edit_line (typed k2) (keys k2) = (l, done, rest)" using Suc.prems(3) Cons False sp k1(3) t1 by simp
      ultimately show ?thesis using Suc.IH [OF sp(2)] k1(1) k2 False by simp
    qed
  qed
qed simp

lemma pending_from_spec:
  assumes "keyboard_wf k" "m \<le> key_count k" "key_count k - m < n"
  shows "pending_from n ((K_TAIL k + m) mod KEY_RING_LEN) k = Ok (list_ex ends_line (drop m (keys k)))"
  using assms(2,3)
proof (induction n arbitrary: m)
  case (Suc n)
  have L: "length (K_RING k) = KEY_RING_LEN" "0 < KEY_RING_LEN" using assms(1) by (simp_all add: keyboard_wf_def KEY_RING_LEN_def)
  note c = key_count_cases [OF assms(1)]
  show ?case
  proof (cases "m = key_count k")
    case True
    then show ?thesis using c(4) by simp
  next
    case False
    have ne: "(K_TAIL k + m) mod KEY_RING_LEN \<noteq> K_HEAD k"
    proof
      assume "(K_TAIL k + m) mod KEY_RING_LEN = K_HEAD k"
      then have "KEY_RING_LEN dvd (K_TAIL k + key_count k) - (K_TAIL k + m)"
        using c(4) Suc.prems(1) by (subst mod_eq_dvd_iff_nat [symmetric]) simp_all
      then have "KEY_RING_LEN \<le> key_count k - m" using False Suc.prems(1) by (auto intro!: dvd_imp_le)
      then show False using c(2) by simp
    qed
    have "drop m (keys k) = K_RING k ! ((K_TAIL k + m) mod KEY_RING_LEN) # drop (Suc m) (keys k)"
      using False Suc.prems(1) by (simp add: Cons_nth_drop_Suc [symmetric] keys_def)
    moreover have "((K_TAIL k + m) mod KEY_RING_LEN + 1) mod KEY_RING_LEN = (K_TAIL k + Suc m) mod KEY_RING_LEN" by (simp add: mod_simps)
    moreover have "(K_TAIL k + m) mod KEY_RING_LEN < length (K_RING k)" using L by simp
    moreover have "key_count k - Suc m < n" "Suc m \<le> key_count k" using False Suc.prems by simp_all
    ultimately show ?thesis using Suc.IH [of "Suc m"] ne by (simp add: not_le)
  qed
qed simp

section \<open>Properties\<close>

text \<open>
  C13. The line discipline. Taking a line processes the pending keys in order, as the reference
  semantics says: named keys do nothing, backspace removes the last byte, other characters are
  appended in UTF-8 while they fit. If a key ends the line, the line is copied into the buffer, cut to
  its length, the line starts anew and the keys behind stay in the ring; otherwise nothing is
  delivered and the line is kept. A line is reported as pending exactly if it will be completed.
\<close>

theorem take_line_edits:
  assumes "keyboard_wf k" "edit_line (typed k) (keys k) = (l, done, rest)"
  shows "(\<exists>k'. take_line out k =
      (Ok (case done of None \<Rightarrow> (0, out) | Some t \<Rightarrow> (min (length t) (length out), put out 0 (take (length out) t))) :: ('e, nat \<times> bytes) res, k') \<and>
    keyboard_wf k' \<and> typed k' = l \<and> keys k' = rest) \<and> line_waiting k = Ok (done \<noteq> None)"
proof
  show "\<exists>k'. take_line out k =
      (Ok (case done of None \<Rightarrow> (0, out) | Some t \<Rightarrow> (min (length t) (length out), put out 0 (take (length out) t))) :: ('e, nat \<times> bytes) res, k') \<and>
    keyboard_wf k' \<and> typed k' = l \<and> keys k' = rest"
    unfolding take_line_def by (rule take_line_loop_spec [OF assms(1) key_count_cases(2) [OF assms(1)] assms(2)])
  have "K_TAIL k mod KEY_RING_LEN = K_TAIL k" using assms(1) by (simp add: keyboard_wf_def)
  then have "line_waiting k = Ok (list_ex ends_line (keys k))"
    using pending_from_spec [OF assms(1), of 0 KEY_RING_LEN] key_count_cases(2) [OF assms(1)] by (simp add: line_waiting_def)
  then show "line_waiting k = Ok (done \<noteq> None)" using edit_line_completes [of "typed k" "keys k"] assms(2) by simp
qed

definition sample_keyboard :: keyboard where
  "sample_keyboard = keyboard_start\<lparr>K_RING := put (replicate KEY_RING_LEN 0) 0 [0x61, 0x62, 8, 0x63, 10], K_HEAD := 5\<rparr>"

theorem take_line_edits_witness:
  "\<exists>k'. take_line [0, 0, 0, 0] sample_keyboard = (Ok (2, [0x61, 0x63, 0, 0]) :: (unit, nat \<times> bytes) res, k') \<and> keys k' = []"
proof -
  have "keyboard_wf sample_keyboard" by (simp add: sample_keyboard_def keyboard_wf_def keyboard_start_def KEY_RING_LEN_def LINE_CAP_def put_def)
  moreover have "key_count sample_keyboard = 5" by (simp add: key_count_def sample_keyboard_def keyboard_start_def KEY_RING_LEN_def)
  then have "keys sample_keyboard = [0x61, 0x62, 8, 0x63, 10]"
    by (simp add: keys_def sample_keyboard_def keyboard_start_def KEY_RING_LEN_def put_def upt_rec)
  moreover have "typed sample_keyboard = []" by (simp add: typed_def sample_keyboard_def keyboard_start_def)
  moreover have "edit_line [] [0x61, 0x62, 8, 0x63, 10] = ([], Some [0x61, 0x63], [])"
    by (simp add: edit_key_def ends_line_def key_char_def FLAG_RAW_def from_u32_def is_control_def encode_utf8_def LINE_CAP_def)
  ultimately show ?thesis
    using take_line_edits [where ?'e = unit, of sample_keyboard "[]" "Some [0x61, 0x63]" "[]" "[0, 0, 0, 0]"] by (auto simp: put_def numeral_2_eq_2)
qed

end
