(* ===== verification/Paging.thy ===== *)
theory Paging
  imports Onyx_Prelude
begin

text \<open>
  Page tables as the system calls see them: the walk of \<open>page_flags\<close> in \<open>kernel/src/memory.rs\<close> and
  the validation of user pointers, \<open>user_buf_ok\<close> in \<open>kernel/src/syscall.rs\<close>. The tables in physical
  memory are a function from table address and index to entries. \<open>VirtAddr::new\<close> of the \<open>x86_64\<close> crate
  panics on addresses it does not accept; which ones it accepts is the field \<open>canonical\<close>.
\<close>

section \<open>The walk\<close>

text \<open>A page table entry: the flags the kernel looks at and the address of the frame.\<close>

record pte =
  PRESENT :: bool
  WRITABLE :: bool
  USER_ACCESSIBLE :: bool
  HUGE_PAGE :: bool
  pte_addr :: nat

record paging =
  PHYS_OFFSET :: nat
  cr3 :: nat
  tables :: "nat \<Rightarrow> nat \<Rightarrow> pte"
  canonical :: "nat \<Rightarrow> bool"

definition virt_addr :: "paging \<Rightarrow> nat \<Rightarrow> (unit, nat) res" where
  "virt_addr pg a = (if canonical pg a then Ok a else Panic)"

text \<open>Index into the table of level \<open>n\<close>: nine bits of the address above the page offset.\<close>

definition table_index :: "nat \<Rightarrow> nat \<Rightarrow> nat" where
  "table_index n a = a div 2 ^ (12 + 9 * (n - 1)) mod 512"

text \<open>\<open>PageTableEntry::frame\<close>: no frame for an entry that is not present or maps a huge page.\<close>

definition pte_frame :: "pte \<Rightarrow> nat option" where
  "pte_frame p = (if PRESENT p \<and> \<not> HUGE_PAGE p then Some (pte_addr p) else None)"

definition table_ptr :: "paging \<Rightarrow> nat \<Rightarrow> (unit, nat option) res" where
  "table_ptr pg phys =
     (case checked_add64 (PHYS_OFFSET pg) phys of
        None \<Rightarrow> Ok None
      | Some v \<Rightarrow> bindR (virt_addr pg v) (\<lambda>_. Ok (Some phys)))"

text \<open>The table an entry points to, for the walk's \<open>?\<close>.\<close>

definition next_table :: "paging \<Rightarrow> pte \<Rightarrow> (unit, nat option) res" where
  "next_table pg p = (case pte_frame p of None \<Rightarrow> Ok None | Some f \<Rightarrow> table_ptr pg f)"

definition page_flags :: "paging \<Rightarrow> nat \<Rightarrow> (unit, pte option) res" where
  "page_flags pg a =
     (if PHYS_OFFSET pg = 0 then Ok None
      else bindR (virt_addr pg (PHYS_OFFSET pg)) (\<lambda>_.
      let p4e = tables pg (cr3 pg) (table_index 4 a) in
      if \<not> PRESENT p4e then Ok None
      else bindR (next_table pg p4e) (\<lambda>p3. case p3 of None \<Rightarrow> Ok None | Some p3 \<Rightarrow>
      let p3e = tables pg p3 (table_index 3 a) in
      if \<not> PRESENT p3e \<or> HUGE_PAGE p3e then Ok None
      else bindR (next_table pg p3e) (\<lambda>p2. case p2 of None \<Rightarrow> Ok None | Some p2 \<Rightarrow>
      let p2e = tables pg p2 (table_index 2 a) in
      if \<not> PRESENT p2e \<or> HUGE_PAGE p2e then Ok None
      else bindR (next_table pg p2e) (\<lambda>p1. case p1 of None \<Rightarrow> Ok None | Some p1 \<Rightarrow>
      let p1e = tables pg p1 (table_index 1 a) in
      if \<not> PRESENT p1e then Ok None else Ok (Some p1e))))))"

section \<open>User pointers\<close>

definition USER_PTR_MAX :: nat where "USER_PTR_MAX = 0x100000000000"

definition page_of :: "nat \<Rightarrow> nat" where
  "page_of a = a div 0x1000 * 0x1000"

definition user_flags :: "bool \<Rightarrow> pte option \<Rightarrow> bool" where
  "user_flags write fl \<longleftrightarrow> (case fl of None \<Rightarrow> False | Some p \<Rightarrow> USER_ACCESSIBLE p \<and> (write \<longrightarrow> WRITABLE p))"

function pages_ok :: "paging \<Rightarrow> bool \<Rightarrow> nat \<Rightarrow> nat \<Rightarrow> (unit, bool) res" where
  "pages_ok pg write page lst =
     (if page \<le> lst then
        bindR (bindR (virt_addr pg page) (page_flags pg)) (\<lambda>fl.
        if user_flags write fl then pages_ok pg write (page + 0x1000) lst else Ok False)
      else Ok True)"
  by pat_completeness auto
termination
  by (relation "measure (\<lambda>(pg, write, page, lst). lst + 1 - page)") auto

declare pages_ok.simps [simp del]

definition user_buf_ok :: "paging \<Rightarrow> nat \<Rightarrow> nat \<Rightarrow> bool \<Rightarrow> (unit, bool) res" where
  "user_buf_ok pg ptr len write =
     (if len = 0 then Ok True
      else case checked_add64 ptr len of
        None \<Rightarrow> Ok False
      | Some e \<Rightarrow>
          if ptr < 0x1000 \<or> USER_PTR_MAX < e then Ok False
          else pages_ok pg write (page_of ptr) (page_of (e - 1)))"

section \<open>What the validation accepts\<close>

text \<open>
  The walk never panics when the window onto physical memory lies in addresses that the crate accepts.
\<close>

definition paging_wf :: "paging \<Rightarrow> bool" where
  "paging_wf pg \<longleftrightarrow> (\<forall>a < USER_PTR_MAX. canonical pg a) \<and> canonical pg (PHYS_OFFSET pg) \<and>
     (\<forall>t i. PRESENT (tables pg t i) \<longrightarrow> canonical pg (PHYS_OFFSET pg + pte_addr (tables pg t i)))"

definition flags_of :: "paging \<Rightarrow> nat \<Rightarrow> pte option" where
  "flags_of pg a = (case page_flags pg a of Ok fl \<Rightarrow> fl | _ \<Rightarrow> None)"

lemma bind_next_table:
  assumes "paging_wf pg" "\<And>t. \<exists>fl. f t = Ok fl"
  shows "\<exists>fl. bindR (next_table pg (tables pg x i)) f = Ok fl"
proof -
  have "\<exists>t. next_table pg (tables pg x i) = Ok t"
    using assms(1) by (auto simp: next_table_def pte_frame_def table_ptr_def virt_addr_def paging_wf_def checked_add64_def split: option.splits if_splits)
  then show ?thesis using assms(2) by auto
qed

lemma page_flags_total:
  assumes "paging_wf pg"
  shows "page_flags pg a = Ok (flags_of pg a)"
proof -
  have "canonical pg (PHYS_OFFSET pg)" using assms by (simp add: paging_wf_def)
  then have "\<exists>fl. page_flags pg a = Ok fl"
    unfolding page_flags_def Let_def virt_addr_def
    by (auto intro!: bind_next_table [OF assms] split: option.split simp del: bindR_Ok_iff)
  then show ?thesis by (auto simp: flags_of_def)
qed

lemma table_index_page: "1 \<le> n \<Longrightarrow> table_index n (page_of a) = table_index n a"
  by (simp add: table_index_def page_of_def power_add div_mult2_eq)

lemma flags_of_page: "flags_of pg (page_of a) = flags_of pg a"
proof -
  have "table_index 4 (page_of a) = table_index 4 a" "table_index 3 (page_of a) = table_index 3 a"
    "table_index 2 (page_of a) = table_index 2 a" "table_index 1 (page_of a) = table_index 1 a"
    by (rule table_index_page, simp)+
  then show ?thesis by (simp only: flags_of_def page_flags_def)
qed

lemma pages_ok_spec:
  assumes "paging_wf pg" "page mod 0x1000 = 0" "lst < USER_PTR_MAX"
  shows "pages_ok pg write page lst = Ok (\<forall>q. page \<le> q \<and> q \<le> lst \<and> q mod 0x1000 = 0 \<longrightarrow> user_flags write (flags_of pg q))"
  using assms(2)
proof (induction "lst + 1 - page" arbitrary: page rule: less_induct)
  case less
  let ?all = "\<lambda>p. \<forall>q. p \<le> q \<and> q \<le> lst \<and> q mod 0x1000 = 0 \<longrightarrow> user_flags write (flags_of pg q)"
  show ?case
  proof (cases "page \<le> lst")
    case True
    have rec: "pages_ok pg write (page + 0x1000) lst =
        Ok (?all (page + 0x1000))"
      using less.prems True by (intro less.hyps) (auto simp: mod_add_right_eq)
    have gap: "q = page \<or> page + 0x1000 \<le> q" if q: "page \<le> q" "q mod 0x1000 = 0" for q
    proof -
      obtain k l where "q = 0x1000 * k" "page = 0x1000 * l" using q(2) less.prems by (metis mod_0_imp_dvd dvdE)
      then show ?thesis using q(1) by (cases "k = l") auto
    qed
    have v: "virt_addr pg page = Ok page" using assms(1,3) True by (simp add: virt_addr_def paging_wf_def)
    have "?all page \<longleftrightarrow> user_flags write (flags_of pg page) \<and> ?all (page + 0x1000)"
    proof
      assume a: "?all page"
      have "user_flags write (flags_of pg page)" using a [rule_format, of page] True less.prems by simp
      moreover have "user_flags write (flags_of pg q)" if "page + 0x1000 \<le> q" "q \<le> lst" "q mod 0x1000 = 0" for q
        using a [rule_format, of q] that by simp
      ultimately show "user_flags write (flags_of pg page) \<and> ?all (page + 0x1000)" by simp
    next
      assume a: "user_flags write (flags_of pg page) \<and> ?all (page + 0x1000)"
      show "?all page"
      proof (intro allI impI)
        fix q assume "page \<le> q \<and> q \<le> lst \<and> q mod 0x1000 = 0"
        then show "user_flags write (flags_of pg q)"
          using gap [of q] conjunct1 [OF a] conjunct2 [OF a, rule_format, of q] by (cases "q = page") simp_all
      qed
    qed
    moreover have "pages_ok pg write page lst = (if user_flags write (flags_of pg page) then pages_ok pg write (page + 0x1000) lst else Ok False)"
      by (subst pages_ok.simps) (use True v page_flags_total [OF assms(1)] in simp)
    ultimately show ?thesis unfolding rec by simp
  qed (subst pages_ok.simps, auto)
qed

lemma user_buf_ok_spec:
  assumes "paging_wf pg"
  shows "user_buf_ok pg ptr len write = Ok (len = 0 \<or> 0x1000 \<le> ptr \<and> ptr + len \<le> USER_PTR_MAX \<and>
    (\<forall>a. ptr \<le> a \<and> a < ptr + len \<longrightarrow> user_flags write (flags_of pg a)))"
proof (cases "len = 0 \<or> ptr < 0x1000 \<or> USER_PTR_MAX < ptr + len")
  case True
  then show ?thesis by (auto simp: user_buf_ok_def checked_add64_def USER_PTR_MAX_def)
next
  case False
  let ?l = "page_of (ptr + len - 1)"
  have l: "?l < USER_PTR_MAX" using False unfolding page_of_def by (metis add_gr_0 diff_less div_times_less_eq_dividend le_less_trans less_le_trans not_gr0 not_less zero_less_one)
  have mem: "(\<exists>q. page_of ptr \<le> q \<and> q \<le> ?l \<and> q mod 0x1000 = 0 \<and> q = page_of a)" if "ptr \<le> a" "a < ptr + len" for a
    using that by (intro exI [of _ "page_of a"]) (auto simp: page_of_def div_le_mono)
  have wit: "\<exists>a. ptr \<le> a \<and> a < ptr + len \<and> q = page_of a" if "page_of ptr \<le> q" "q \<le> ?l" "q mod 0x1000 = 0" for q
    using that False by (intro exI [of _ "max ptr q"]) (auto simp: page_of_def max_def split: if_splits)
  have "user_buf_ok pg ptr len write = Ok (\<forall>q. page_of ptr \<le> q \<and> q \<le> ?l \<and> q mod 0x1000 = 0 \<longrightarrow> user_flags write (flags_of pg q))"
    using False pages_ok_spec [OF assms _ l] by (simp add: user_buf_ok_def checked_add64_def USER_PTR_MAX_def page_of_def)
  also have "(\<forall>q. page_of ptr \<le> q \<and> q \<le> ?l \<and> q mod 0x1000 = 0 \<longrightarrow> user_flags write (flags_of pg q)) \<longleftrightarrow>
      (\<forall>a. ptr \<le> a \<and> a < ptr + len \<longrightarrow> user_flags write (flags_of pg a))"
    using mem wit flags_of_page by metis
  finally show ?thesis using False by (simp add: not_less)
qed


text \<open>A machine all of whose pages are user pages.\<close>

definition user_pte :: pte where
  "user_pte = \<lparr>PRESENT = True, WRITABLE = True, USER_ACCESSIBLE = True, HUGE_PAGE = False, pte_addr = 0\<rparr>"

definition flat_paging :: paging where
  "flat_paging = \<lparr>PHYS_OFFSET = 0x1000, cr3 = 0, tables = (\<lambda>_ _. user_pte), canonical = (\<lambda>a. a < 2 ^ 47)\<rparr>"

lemma flat_paging: "paging_wf flat_paging" "flags_of flat_paging a = Some user_pte"
  by (simp_all add: paging_wf_def flat_paging_def flags_of_def page_flags_def virt_addr_def next_table_def pte_frame_def
    table_ptr_def checked_add64_def user_pte_def USER_PTR_MAX_def)


end
