(* ===== verification/Syscall.thy ===== *)
theory Syscall
  imports Vfs Scheduler Keyboard Paging
begin

text \<open>
  The native system calls: \<open>kernel/src/syscall.rs\<close> and \<open>kernel/src/errno.rs\<close>. The state of the kernel
  is the state of the components a call reaches: the scheduler, the virtual file system, the input
  ring and the keyboard, the page tables, the memory of the (single) address space, and the tables of
  open files. A call runs on CPU \<open>me\<close> with the clock readings \<open>ck\<close>. What the handlers print on the
  serial port besides the data of \<open>write\<close> is not modelled.

  A call that blocks in a loop gives up the CPU in the middle: its outcome \<open>Waits\<close> names the loop, and
  \<open>resume\<close> is the next round of that loop, run when the task is scheduled again.
\<close>

section \<open>State\<close>

record fd_entry =
  fd_name :: string
  fd_pos :: nat

record task_fds =
  tf_id :: nat
  tf_fds :: "fd_entry option list"

record kernel =
  k_sched :: sched
  k_vfs :: vfs
  k_fds :: "task_fds list"
  k_input :: ring
  k_keyboard :: keyboard
  k_paging :: paging
  k_mem :: "nat \<Rightarrow> u8"
  k_serial :: "bytes option"
  k_fs_base :: nat
  k_rng :: u64
  k_linux_mem :: "(nat \<times> nat \<times> nat) list"

record clocks =
  ck_ms :: nat
  ck_ns :: nat
  ck_real_ns :: nat

type_synonym 'a kp = "(kernel, unit, 'a) prog"

text \<open>The part of the register frame that the handlers use.\<close>

record frame =
  rax :: nat
  rdi :: nat
  rsi :: nat
  rdx :: nat
  rcx :: nat
  r8 :: nat
  r11 :: nat

datatype wait = WaitChild nat | WaitInput nat nat nat | WaitLine nat nat

datatype outcome = Returns frame | Waits wait frame

text \<open>
  What the calls use of the program loader (\<open>kernel/src/userspace.rs\<close>) and of the page mapper: spawning
  an image with its arguments, whether the mapper and the frame allocator are available, and mapping a
  number of fresh user pages from an address on.
\<close>

record services =
  sv_spawn :: "string \<Rightarrow> string list \<Rightarrow> kernel \<Rightarrow> (string, nat) res \<times> kernel"
  sv_ready :: "kernel \<Rightarrow> bool"
  sv_map_pages :: "nat \<Rightarrow> nat \<Rightarrow> unit kp"

section \<open>Error numbers\<close>

definition ENOENT :: nat where "ENOENT = 2"
definition ESRCH :: nat where "ESRCH = 3"
definition EIO :: nat where "EIO = 5"
definition E2BIG :: nat where "E2BIG = 7"
definition ENOEXEC :: nat where "ENOEXEC = 8"
definition EBADF :: nat where "EBADF = 9"
definition ECHILD :: nat where "ECHILD = 10"
definition ENOMEM :: nat where "ENOMEM = 12"
definition EFAULT :: nat where "EFAULT = 14"
definition EEXIST :: nat where "EEXIST = 17"
definition EISDIR :: nat where "EISDIR = 21"
definition EINVAL :: nat where "EINVAL = 22"
definition EMFILE :: nat where "EMFILE = 24"
definition ENOSPC :: nat where "ENOSPC = 28"
definition ENAMETOOLONG :: nat where "ENAMETOOLONG = 36"
definition ENOSYS :: nat where "ENOSYS = 38"

lemmas errno_defs = ENOENT_def ESRCH_def EIO_def E2BIG_def ENOEXEC_def EBADF_def ECHILD_def ENOMEM_def EFAULT_def
  EEXIST_def EISDIR_def EINVAL_def EMFILE_def ENOSPC_def ENAMETOOLONG_def ENOSYS_def

definition err :: "nat \<Rightarrow> nat" where
  "err e = (2 ^ 64 - e) mod 2 ^ 64"

definition fs_err :: "fs_error \<Rightarrow> nat" where
  "fs_err e =
     (case e of
        NotFound \<Rightarrow> err ENOENT
      | Exists \<Rightarrow> err EEXIST
      | NotSupported \<Rightarrow> err EINVAL
      | NoSpace \<Rightarrow> err ENOSPC
      | BadFs \<Rightarrow> err EIO
      | Io _ \<Rightarrow> err EIO
      | IsDir \<Rightarrow> err EISDIR)"

section \<open>Reaching the components\<close>

definition read_user :: "nat \<Rightarrow> nat \<Rightarrow> kernel \<Rightarrow> bytes" where
  "read_user ptr len k = map (k_mem k) [ptr..<ptr + len]"

definition write_user :: "nat \<Rightarrow> bytes \<Rightarrow> kernel \<Rightarrow> kernel" where
  "write_user ptr bs k =
     k\<lparr>k_mem := (\<lambda>a. if ptr \<le> a \<and> a < ptr + length bs then bs ! (a - ptr) else k_mem k a)\<rparr>"

text \<open>A file-system operation with its result or its error.\<close>

definition vfs_call :: "'a vfsp \<Rightarrow> (fs_error + 'a) kp" where
  "vfs_call m k =
     (case m (k_vfs k) of
        (Ok a, v) \<Rightarrow> (Ok (Inr a), k\<lparr>k_vfs := v\<rparr>)
      | (Err e, v) \<Rightarrow> (Ok (Inl e), k\<lparr>k_vfs := v\<rparr>)
      | (Panic, v) \<Rightarrow> (Panic, k\<lparr>k_vfs := v\<rparr>))"

definition set_sched :: "sched \<Rightarrow> kernel \<Rightarrow> kernel" where
  "set_sched s k = k\<lparr>k_sched := s\<rparr>"

definition kenv :: "clocks \<Rightarrow> kernel \<Rightarrow> env" where
  "kenv ck k = \<lparr>now_ms = ck_ms ck, now_ns = ck_ns ck, line_pending = (line_waiting (k_keyboard k) = Ok True),
     input_pending = pending (k_input k)\<rparr>"

definition reschedule :: "nat \<Rightarrow> clocks \<Rightarrow> unit kp" where
  "reschedule me ck k =
     (case preempt me (kenv ck k) (k_sched k) of
        Ok (_, s) \<Rightarrow> (Ok (), set_sched s k)
      | _ \<Rightarrow> (Panic, k))"

definition self_id :: "nat \<Rightarrow> kernel \<Rightarrow> nat" where
  "self_id me k = current_task_id me (k_sched k)"

section \<open>Open files\<close>

definition MAX_FDS :: nat where "MAX_FDS = 8"

definition all_fds :: "nat \<Rightarrow> kernel \<Rightarrow> task_fds list" where
  "all_fds i k =
     (if list_ex (\<lambda>t. tf_id t = i) (k_fds k) then k_fds k
      else k_fds k @ [\<lparr>tf_id = i, tf_fds = replicate MAX_FDS None\<rparr>])"

text \<open>The closure returns its result and the new slots; the table always exists by then.\<close>

definition with_task_fds :: "nat \<Rightarrow> (fd_entry option list \<Rightarrow> 'a \<times> fd_entry option list) \<Rightarrow> 'a kp" where
  "with_task_fds me f k =
     (let i = self_id me k; ts = all_fds i k in
      case position (\<lambda>t. tf_id t = i) ts of
        None \<Rightarrow> (Panic, k)
      | Some n \<Rightarrow> (case f (tf_fds (ts ! n)) of
          (a, slots) \<Rightarrow> (Ok a, k\<lparr>k_fds := ts[n := (ts ! n)\<lparr>tf_fds := slots\<rparr>]\<rparr>)))"

definition drop_fds_for :: "nat \<Rightarrow> kernel \<Rightarrow> kernel" where
  "drop_fds_for pid k = k\<lparr>k_fds := filter (\<lambda>t. tf_id t \<noteq> pid) (k_fds k)\<rparr>"

definition drop_task_fds :: "nat \<Rightarrow> kernel \<Rightarrow> kernel" where
  "drop_task_fds me k = drop_fds_for (self_id me k) k"

definition with_fd :: "nat \<Rightarrow> nat \<Rightarrow> (fd_entry \<Rightarrow> 'a \<times> fd_entry) \<Rightarrow> 'a option kp" where
  "with_fd me fd f =
     with_task_fds me (\<lambda>slots.
       if fd < length slots then
         (case slots ! fd of
            None \<Rightarrow> (None, slots)
          | Some e \<Rightarrow> (case f e of (a, e') \<Rightarrow> (Some a, slots[fd := Some e'])))
       else (None, slots))"

definition get_fd :: "nat \<Rightarrow> nat \<Rightarrow> (string \<times> nat) option kp" where
  "get_fd me fd = with_fd me fd (\<lambda>e. ((fd_name e, fd_pos e), e))"

text \<open>\<open>e.pos += n\<close>, a checked sum.\<close>

definition advance_fd :: "nat \<Rightarrow> nat \<Rightarrow> nat \<Rightarrow> unit kp" where
  "advance_fd me fd n =
     bindP (with_fd me fd (\<lambda>e. (fd_pos e + n < 2 ^ 64, e\<lparr>fd_pos := fd_pos e + n\<rparr>))) (\<lambda>r.
     guardP (r \<noteq> Some False))"

section \<open>User paths\<close>

definition utf8_cont :: "nat \<Rightarrow> bool" where
  "utf8_cont b \<longleftrightarrow> 0x80 \<le> b \<and> b \<le> 0xBF"

text \<open>\<open>core::str::from_utf8\<close> succeeds on exactly these byte strings.\<close>

fun utf8_ok :: "nat list \<Rightarrow> bool" where
  "utf8_ok [] = True"
| "utf8_ok (b # bs) =
     (if b < 0x80 then utf8_ok bs
      else if 0xC2 \<le> b \<and> b \<le> 0xDF then
        (case bs of c # r \<Rightarrow> utf8_cont c \<and> utf8_ok r | _ \<Rightarrow> False)
      else if 0xE0 \<le> b \<and> b \<le> 0xEF then
        (case bs of
           c # d # r \<Rightarrow> utf8_cont c \<and> (b = 0xE0 \<longrightarrow> 0xA0 \<le> c) \<and> (b = 0xED \<longrightarrow> c \<le> 0x9F) \<and> utf8_cont d \<and> utf8_ok r
         | _ \<Rightarrow> False)
      else if 0xF0 \<le> b \<and> b \<le> 0xF4 then
        (case bs of
           c # d # e # r \<Rightarrow> utf8_cont c \<and> (b = 0xF0 \<longrightarrow> 0x90 \<le> c) \<and> (b = 0xF4 \<longrightarrow> c \<le> 0x8F) \<and> utf8_cont d \<and>
             utf8_cont e \<and> utf8_ok r
         | _ \<Rightarrow> False)
      else False)"

definition to_str :: "bytes \<Rightarrow> string" where
  "to_str bs = map (\<lambda>b. char_of (unat b)) bs"

definition path_ok :: "string \<Rightarrow> bool" where
  "path_ok path \<longleftrightarrow>
     (case path of
        [] \<Rightarrow> False
      | c # rest \<Rightarrow> c = CHR ''/'' \<and> CHR 0x5C \<notin> set path \<and>
          list_all (\<lambda>comp. comp = [] \<or> comp \<noteq> ''.'' \<and> comp \<noteq> ''..'') (split_on (CHR ''/'') rest))"

definition user_path :: "nat \<Rightarrow> nat \<Rightarrow> (nat + string) kp" where
  "user_path ptr len k =
     (if len = 0 then (Ok (Inl (err ENOENT)), k)
      else if 128 < len then (Ok (Inl (err ENAMETOOLONG)), k)
      else bindP (liftP (user_buf_ok (k_paging k) ptr len False)) (\<lambda>ok.
        if \<not> ok then retP (Inl (err EFAULT))
        else
          let bs = read_user ptr len k in
          if \<not> utf8_ok (map unat bs) then retP (Inl (err EINVAL))
          else if path_ok (to_str bs) then retP (Inr (to_str bs))
          else retP (Inl (err EINVAL))) k)"

text \<open>A handler whose first step validates a path.\<close>

definition on_path :: "nat \<Rightarrow> nat \<Rightarrow> (string \<Rightarrow> nat kp) \<Rightarrow> nat kp" where
  "on_path ptr len f = bindP (user_path ptr len) (\<lambda>p. case p of Inl e \<Rightarrow> retP e | Inr path \<Rightarrow> f path)"

definition unit_result :: "fs_error + unit \<Rightarrow> nat" where
  "unit_result r = (case r of Inl e \<Rightarrow> fs_err e | Inr _ \<Rightarrow> 0)"

section \<open>File calls\<close>

definition open_slot :: "string \<Rightarrow> fd_entry option list \<Rightarrow> nat \<times> fd_entry option list" where
  "open_slot path slots =
     (case find (\<lambda>i. slots ! i = None) [3..<MAX_FDS] of
        None \<Rightarrow> (err EMFILE, slots)
      | Some i \<Rightarrow> (i, slots[i := Some \<lparr>fd_name = path, fd_pos = 0\<rparr>]))"

definition sys_open :: "nat \<Rightarrow> nat \<Rightarrow> nat \<Rightarrow> nat kp" where
  "sys_open me ptr len =
     on_path ptr len (\<lambda>path.
     bindP (vfs_call (vfs_open path)) (\<lambda>r.
     case r of
       Inr _ \<Rightarrow> with_task_fds me (open_slot path)
     | Inl e \<Rightarrow>
         bindP (if e = NotFound then bindP (vfs_call (vfs_write_at path 0 [])) (\<lambda>w. retP (\<not> isl w)) else retP False) (\<lambda>created.
         if created then with_task_fds me (open_slot path) else retP (fs_err e))))"

definition sys_mkdir :: "nat \<Rightarrow> nat \<Rightarrow> nat kp" where
  "sys_mkdir ptr len = on_path ptr len (\<lambda>path. bindP (vfs_call (vfs_mkdir path)) (\<lambda>r. retP (unit_result r)))"

definition sys_unlink :: "nat \<Rightarrow> nat \<Rightarrow> nat kp" where
  "sys_unlink ptr len = on_path ptr len (\<lambda>path. bindP (vfs_call (vfs_unlink path)) (\<lambda>r. retP (unit_result r)))"

definition sys_rename :: "nat \<Rightarrow> nat \<Rightarrow> nat \<Rightarrow> nat \<Rightarrow> nat kp" where
  "sys_rename fptr flen tptr tlen =
     on_path fptr flen (\<lambda>a. on_path tptr tlen (\<lambda>b.
     bindP (vfs_call (vfs_rename a b)) (\<lambda>r. retP (unit_result r))))"

definition sys_fsync :: "nat \<Rightarrow> nat \<Rightarrow> nat kp" where
  "sys_fsync me fd =
     (if fd < 3 then retP (err EBADF)
      else bindP (get_fd me fd) (\<lambda>r.
        case r of
          None \<Rightarrow> retP (err EBADF)
        | Some (name, _) \<Rightarrow> bindP (vfs_call (vfs_fsync name)) (\<lambda>w. retP (unit_result w))))"

definition stat_record :: "file_stat \<Rightarrow> bytes" where
  "stat_record st = to_le 8 (st_size st) @ to_le 8 (st_atime st) @ to_le 8 (st_mtime st) @ to_le 8 (st_ctime st) @
     to_le 8 (if st_is_dir st then 1 else 0)"

definition sys_stat :: "nat \<Rightarrow> nat \<Rightarrow> nat \<Rightarrow> nat kp" where
  "sys_stat ptr len out =
     on_path ptr len (\<lambda>path k.
     bindP (liftP (user_buf_ok (k_paging k) out 40 True)) (\<lambda>ok.
     if \<not> ok then retP (err EFAULT)
     else bindP (vfs_call (vfs_stat path)) (\<lambda>r.
       case r of
         Inl e \<Rightarrow> retP (fs_err e)
       | Inr st \<Rightarrow> (\<lambda>k. (Ok 0, write_user out (stat_record st) k)))) k)"

text \<open>Two's complement reading of a 64-bit register, and \<open>i64::checked_add\<close>.\<close>

definition as_i64 :: "nat \<Rightarrow> int" where
  "as_i64 n = (if n < 2 ^ 63 then int n else int n - 2 ^ 64)"

definition seek_to :: "nat \<Rightarrow> nat \<Rightarrow> nat option" where
  "seek_to base off =
     (let n = as_i64 base + as_i64 off in if 0 \<le> n \<and> n < 2 ^ 63 then Some (nat n) else None)"

definition sys_seek :: "nat \<Rightarrow> nat \<Rightarrow> nat \<Rightarrow> nat \<Rightarrow> nat kp" where
  "sys_seek me fd off whence =
     (if fd < 3 then retP (err EBADF)
      else bindP (get_fd me fd) (\<lambda>r.
        case r of
          None \<Rightarrow> retP (err EBADF)
        | Some (name, cur) \<Rightarrow>
            bindP (if whence = 0 then retP (Inr 0)
                   else if whence = 1 then retP (Inr cur)
                   else if whence = 2 then
                     bindP (vfs_call (vfs_stat name)) (\<lambda>st. retP (case st of Inl e \<Rightarrow> Inl (fs_err e) | Inr st \<Rightarrow> Inr (st_size st)))
                   else retP (Inl (err EINVAL))) (\<lambda>base.
            case base of
              Inl e \<Rightarrow> retP e
            | Inr b \<Rightarrow>
                (case seek_to b off of
                   None \<Rightarrow> retP (err EINVAL)
                 | Some n \<Rightarrow> bindP (with_fd me fd (\<lambda>e. ((), e\<lparr>fd_pos := n\<rparr>))) (\<lambda>_. retP n)))))"

definition sys_close :: "nat \<Rightarrow> nat \<Rightarrow> nat kp" where
  "sys_close me fd =
     (if fd < 3 \<or> MAX_FDS \<le> fd then retP (err EBADF)
      else bindP (with_task_fds me (\<lambda>slots. (slots ! fd, slots[fd := None]))) (\<lambda>old.
        retP (if old = None then err EBADF else 0)))"

definition sys_ls :: "nat \<Rightarrow> nat \<Rightarrow> nat kp" where
  "sys_ls ptr len =
     bindP (if len = 0 then retP (Inr ''/'') else user_path ptr len) (\<lambda>p.
     case p of
       Inl e \<Rightarrow> retP e
     | Inr path \<Rightarrow>
         bindP (vfs_call (vfs_list path)) (\<lambda>r.
         case r of
           Inl _ \<Rightarrow> retP (err ENOENT)
         | Inr _ \<Rightarrow> bindP (vfs_call (vfs_list2 path)) (\<lambda>_. retP 0)))"

section \<open>Reading and writing\<close>

definition fd_write_at :: "nat \<Rightarrow> nat \<Rightarrow> bytes \<Rightarrow> nat kp" where
  "fd_write_at me fd buf =
     bindP (get_fd me fd) (\<lambda>r.
     case r of
       None \<Rightarrow> retP (err EBADF)
     | Some (name, pos) \<Rightarrow>
         bindP (vfs_call (vfs_write_at name pos buf)) (\<lambda>w.
         case w of
           Inl _ \<Rightarrow> retP (err EIO)
         | Inr n \<Rightarrow> bindP (advance_fd me fd n) (\<lambda>_. retP n)))"

text \<open>\<open>serial::write_bytes\<close>: nothing is sent before the port is initialised.\<close>

definition write_console :: "bytes \<Rightarrow> nat kp" where
  "write_console bs k =
     (case k_serial k of
        None \<Rightarrow> (Ok 0, k)
      | Some sent \<Rightarrow> (Ok (length bs), k\<lparr>k_serial := Some (sent @ bs)\<rparr>))"

definition sys_write :: "nat \<Rightarrow> nat \<Rightarrow> nat \<Rightarrow> nat \<Rightarrow> nat kp" where
  "sys_write me fd buf len0 k =
     (if len0 = 0 then (Ok 0, k)
      else let len = min len0 4096 in
        bindP (liftP (user_buf_ok (k_paging k) buf len False)) (\<lambda>ok.
        if \<not> ok then retP (err EFAULT)
        else if fd = 1 \<or> fd = 2 then write_console (read_user buf len k)
        else if 3 \<le> fd then fd_write_at me fd (read_user buf len k)
        else retP (err EBADF)) k)"

text \<open>One round of the console read: a complete line, or wait for one.\<close>

definition read_line_loop :: "nat \<Rightarrow> clocks \<Rightarrow> nat \<Rightarrow> nat \<Rightarrow> (nat + wait) kp" where
  "read_line_loop me ck buf len k =
     (case take_line (read_user buf len k) (k_keyboard k) :: (unit, nat \<times> bytes) res \<times> keyboard of
        (Ok (n, out), kb) \<Rightarrow>
          (let k1 = write_user buf out (k\<lparr>k_keyboard := kb\<rparr>) in
           if 0 < n then (Ok (Inl n), k1)
           else bindP (liftP (line_waiting (k_keyboard k1))) (\<lambda>more k2.
             bindP (reschedule me ck) (\<lambda>_. retP (Inr (WaitLine buf len)))
               (set_sched (if more then mark_ready me (k_sched k2) else block_current_on_input me (k_sched k2)) k2)) k1)
      | (_, kb) \<Rightarrow> (Panic, k\<lparr>k_keyboard := kb\<rparr>))"

definition sys_read :: "nat \<Rightarrow> clocks \<Rightarrow> nat \<Rightarrow> nat \<Rightarrow> nat \<Rightarrow> (nat + wait) kp" where
  "sys_read me ck fd buf len0 k =
     (if len0 = 0 then (Ok (Inl 0), k)
      else let len = min len0 4096 in
        if fd = 0 then
          bindP (liftP (user_buf_ok (k_paging k) buf len True)) (\<lambda>ok.
          if \<not> ok then retP (Inl (err EFAULT)) else read_line_loop me ck buf len) k
        else
          bindP (get_fd me fd) (\<lambda>r k.
          case r of
            None \<Rightarrow> (Ok (Inl (err EBADF)), k)
          | Some (name, pos) \<Rightarrow>
              bindP (liftP (user_buf_ok (k_paging k) buf len True)) (\<lambda>ok.
              if \<not> ok then retP (Inl (err EFAULT))
              else
                bindP (vfs_call (vfs_read_at name pos (read_user buf len k))) (\<lambda>rd.
                case rd of
                  Inl _ \<Rightarrow> retP (Inl (err EIO))
                | Inr (n, out) \<Rightarrow> (\<lambda>k.
                    bindP (advance_fd me fd n) (\<lambda>_. retP (Inl n)) (write_user buf out k)))) k) k)"

text \<open>One round of the raw event read.\<close>

definition input_read_loop :: "nat \<Rightarrow> clocks \<Rightarrow> nat \<Rightarrow> nat \<Rightarrow> nat \<Rightarrow> (nat + wait) kp" where
  "input_read_loop me ck buf len blocking k =
     (case drain (read_user buf len k) (k_input k) :: (unit, nat \<times> bytes) res \<times> ring of
        (Ok (n, out), r) \<Rightarrow>
          (let k1 = write_user buf out (k\<lparr>k_input := r\<rparr>) in
           if 0 < n then (Ok (Inl n), k1)
           else if blocking = 0 then (Ok (Inl 0), k1)
           else bindP (reschedule me ck) (\<lambda>_. retP (Inr (WaitInput buf len blocking)))
             (set_sched (block_current_on_raw_input me (k_sched k1)) k1))
      | (_, r) \<Rightarrow> (Panic, k\<lparr>k_input := r\<rparr>))"

definition sys_input_read :: "nat \<Rightarrow> clocks \<Rightarrow> nat \<Rightarrow> nat \<Rightarrow> nat \<Rightarrow> (nat + wait) kp" where
  "sys_input_read me ck buf len0 blocking k =
     (let len = min len0 4096 in
      if len < EV_SIZE then (Ok (Inl (err EINVAL)), k)
      else bindP (liftP (user_buf_ok (k_paging k) buf len True)) (\<lambda>ok.
        if \<not> ok then retP (Inl (err EFAULT)) else input_read_loop me ck buf len blocking) k)"

section \<open>Task calls\<close>

definition USER_TRAMPOLINE :: nat where "USER_TRAMPOLINE = 0x3FF000"

definition dead_frame_rewrite :: "frame \<Rightarrow> frame" where
  "dead_frame_rewrite f = f\<lparr>rcx := USER_TRAMPOLINE, r11 := 0x202\<rparr>"

text \<open>The bookkeeping of the Linux memory calls dies with the task.\<close>

definition linux_mem_drop :: "nat \<Rightarrow> kernel \<Rightarrow> kernel" where
  "linux_mem_drop pid k = k\<lparr>k_linux_mem := filter (\<lambda>e. fst e \<noteq> pid) (k_linux_mem k)\<rparr>"

definition sys_exit :: "nat \<Rightarrow> frame \<Rightarrow> frame kp" where
  "sys_exit me f k =
     (let k1 = drop_task_fds me k; k2 = linux_mem_drop (self_id me k1) k1 in
      (Ok (dead_frame_rewrite f), set_sched (record_exit me (rdi f mod 2 ^ 32) (k_sched k2)) k2))"

text \<open>One round of \<open>waitpid\<close>.\<close>

definition waitpid_loop :: "nat \<Rightarrow> clocks \<Rightarrow> nat \<Rightarrow> (nat + wait) kp" where
  "waitpid_loop me ck pid k =
     (case try_reap me pid (k_sched k) of
        (Some (cpid, code), s) \<Rightarrow> (Ok (Inl (cpid * 2 ^ 32 mod 2 ^ 64 + code)), set_sched s k)
      | (None, s) \<Rightarrow>
          if child_waitable me pid s then
            bindP (reschedule me ck) (\<lambda>_. retP (Inr (WaitChild pid))) (set_sched (block_on_child me s) k)
          else (Ok (Inl (err ECHILD)), set_sched s k))"

definition sys_kill :: "nat \<Rightarrow> frame \<Rightarrow> frame kp" where
  "sys_kill me f k =
     (let pid = rdi f in
      if pid = self_id me k then
        (let k1 = drop_task_fds me k in (Ok (dead_frame_rewrite f), set_sched (record_exit me 137 (k_sched k1)) k1))
      else
        (case kill me pid (k_sched k) of
           Ok (True, s) \<Rightarrow> (Ok (f\<lparr>rax := 0\<rparr>), drop_fds_for pid (set_sched s k))
         | Ok (False, s) \<Rightarrow> (Ok (f\<lparr>rax := err ESRCH\<rparr>), set_sched s k)
         | _ \<Rightarrow> (Panic, k)))"

definition sys_gettime :: "clocks \<Rightarrow> nat \<Rightarrow> nat" where
  "sys_gettime ck clock = (if clock = 0 then ck_ns ck else if clock = 1 then ck_real_ns ck else 2 ^ 64 - 1)"

definition sys_sleep :: "nat \<Rightarrow> clocks \<Rightarrow> nat \<Rightarrow> nat kp" where
  "sys_sleep me ck ns k =
     bindP (reschedule me ck) (\<lambda>_. retP 0)
       (set_sched (sleep_current me (min (ck_ms ck + max (ns div 1000000) 1) (2 ^ 64 - 1)) (k_sched k)) k)"

definition sys_yield :: "nat \<Rightarrow> clocks \<Rightarrow> nat kp" where
  "sys_yield me ck k = bindP (reschedule me ck) (\<lambda>_. retP 0) (set_sched (mark_ready me (k_sched k)) k)"

text \<open>\<open>str::split_whitespace\<close> on a UTF-8 byte string: the length of the white space in front, if any.\<close>

definition ws_len :: "nat list \<Rightarrow> nat" where
  "ws_len bs =
     (case bs of
        a # b # c # _ \<Rightarrow>
          if a = 0xE1 \<and> b = 0x9A \<and> c = 0x80 \<or> a = 0xE2 \<and> b = 0x80 \<and> (c \<le> 0x8A \<or> c = 0xA8 \<or> c = 0xA9 \<or> c = 0xAF) \<or>
            a = 0xE2 \<and> b = 0x81 \<and> c = 0x9F \<or> a = 0xE3 \<and> b = 0x80 \<and> c = 0x80 then 3
          else if a = 0xC2 \<and> (b = 0x85 \<or> b = 0xA0) then 2
          else if 9 \<le> a \<and> a \<le> 13 \<or> a = 32 then 1 else 0
      | a # b # _ \<Rightarrow>
          if a = 0xC2 \<and> (b = 0x85 \<or> b = 0xA0) then 2 else if 9 \<le> a \<and> a \<le> 13 \<or> a = 32 then 1 else 0
      | a # _ \<Rightarrow> if 9 \<le> a \<and> a \<le> 13 \<or> a = 32 then 1 else 0
      | [] \<Rightarrow> 0)"

function split_whitespace :: "string \<Rightarrow> string \<Rightarrow> string list" where
  "split_whitespace acc s =
     (let fin = (if acc = [] then [] else [acc]) in
      case s of
        [] \<Rightarrow> fin
      | c # cs \<Rightarrow>
          let n = ws_len (map of_char s) in
          if n = 0 then split_whitespace (acc @ [c]) cs else fin @ split_whitespace [] (drop n s))"
  by pat_completeness auto
termination
  by (relation "measure (\<lambda>(acc, s). length s)") auto

declare split_whitespace.simps [simp del]

definition spawn_errno :: "string \<Rightarrow> nat" where
  "spawn_errno e =
     (if e = ''no such file'' \<or> e = ''empty file'' then ENOENT
      else if e = ''image too large'' then E2BIG
      else if e = ''region overlaps an already-loaded program'' then EEXIST
      else if e = ''runtime mapper unavailable'' \<or> e = ''runtime frame allocator unavailable'' then ENOMEM
      else ENOEXEC)"

definition sys_spawn :: "services \<Rightarrow> nat \<Rightarrow> nat \<Rightarrow> nat kp" where
  "sys_spawn sv ptr len =
     on_path ptr len (\<lambda>cmdline.
     case split_whitespace [] cmdline of
       [] \<Rightarrow> retP (2 ^ 64 - 1)
     | exe # args \<Rightarrow> (\<lambda>k.
         case sv_spawn sv exe (exe # args) k of
           (Ok pid, k') \<Rightarrow> (Ok pid, k')
         | (Err e, k') \<Rightarrow> (Ok (err (spawn_errno e)), k')
         | (Panic, k') \<Rightarrow> (Panic, k')))"

definition sys_flush :: "nat kp" where
  "sys_flush k = (Ok 0, k\<lparr>k_vfs := (k_vfs k)\<lparr>DISK := map_option (\<lambda>d. d\<lparr>cache := flush (cache d)\<rparr>) (DISK (k_vfs k))\<rparr>\<rparr>)"

section \<open>The dispatcher\<close>

definition SYS_SPAWN :: nat where "SYS_SPAWN = 7"

text \<open>A value goes back in \<open>rax\<close>; a blocking call may stop in its loop.\<close>

definition ret :: "frame \<Rightarrow> nat kp \<Rightarrow> outcome kp" where
  "ret f m = bindP m (\<lambda>v. retP (Returns (f\<lparr>rax := v\<rparr>)))"

definition ret_or_wait :: "frame \<Rightarrow> (nat + wait) kp \<Rightarrow> outcome kp" where
  "ret_or_wait f m = bindP m (\<lambda>r. retP (case r of Inl v \<Rightarrow> Returns (f\<lparr>rax := v\<rparr>) | Inr w \<Rightarrow> Waits w f))"

definition ret_frame :: "frame kp \<Rightarrow> outcome kp" where
  "ret_frame m = bindP m (\<lambda>f. retP (Returns f))"

definition native_dispatch :: "services \<Rightarrow> nat \<Rightarrow> clocks \<Rightarrow> frame \<Rightarrow> outcome kp" where
  "native_dispatch sv me ck f =
     (if rax f = 0 then ret f (sys_write me (rdi f) (rsi f) (rdx f))
      else if rax f = 1 then ret_frame (sys_exit me f)
      else if rax f = 2 then ret f (sys_open me (rdi f) (rsi f))
      else if rax f = 3 then ret_or_wait f (sys_read me ck (rdi f) (rsi f) (rdx f))
      else if rax f = 4 then ret f (sys_close me (rdi f))
      else if rax f = 5 then ret f (sys_ls (rdi f) (rsi f))
      else if rax f = 6 then ret f (sys_mkdir (rdi f) (rsi f))
      else if rax f = SYS_SPAWN then ret f (sys_spawn sv (rdi f) (rsi f))
      else if rax f = 8 then ret f (retP (sys_gettime ck (rdi f)))
      else if rax f = 9 then ret f (\<lambda>k. (Ok (self_id me k), k))
      else if rax f = 10 then ret f (sys_sleep me ck (rdi f))
      else if rax f = 11 then ret f (sys_yield me ck)
      else if rax f = 12 then ret f (retP 0)
      else if rax f = 13 then ret f sys_flush
      else if rax f = 14 then ret_or_wait f (waitpid_loop me ck (rdi f))
      else if rax f = 15 then ret_frame (sys_kill me f)
      else if rax f = 16 then ret_or_wait f (sys_input_read me ck (rdi f) (rsi f) (rdx f))
      else if rax f = 17 then ret f (retP 0)
      else if rax f = 18 then ret f (sys_stat (rdi f) (rsi f) (rdx f))
      else if rax f = 19 then ret f (sys_seek me (rdi f) (rsi f) (rdx f))
      else if rax f = 20 then ret f (sys_unlink (rdi f) (rsi f))
      else if rax f = 21 then ret f (sys_rename (rdi f) (rsi f) (rdx f) (r8 f))
      else if rax f = 22 \<or> rax f = 23 then ret f (sys_fsync me (rdi f))
      else ret f (retP (err ENOSYS)))"

text \<open>The next round of a call that waits.\<close>

definition resume :: "nat \<Rightarrow> clocks \<Rightarrow> wait \<Rightarrow> frame \<Rightarrow> outcome kp" where
  "resume me ck w f =
     ret_or_wait f
       (case w of
          WaitChild pid \<Rightarrow> waitpid_loop me ck pid
        | WaitInput buf len blocking \<Rightarrow> input_read_loop me ck buf len blocking
        | WaitLine buf len \<Rightarrow> read_line_loop me ck buf len)"

end
