(* ===== verification/Linux_Abi.thy ===== *)
theory Linux_Abi
  imports Syscall
begin

text \<open>
  The Linux system call shim of \<open>kernel/src/syscall.rs\<close> (\<open>linux_dispatch\<close> and its two further tiers) and
  the dispatcher that chooses between it and the native calls, with the memory calls of
  \<open>kernel/src/userspace.rs\<close> that the shim serves.
\<close>

unbundle bit_operations_syntax

section \<open>Helpers\<close>

text \<open>Length of a string in user memory; the first argument counts the bytes still allowed.\<close>

primrec cstr_len :: "nat \<Rightarrow> nat \<Rightarrow> nat \<Rightarrow> kernel \<Rightarrow> (unit, nat option) res" where
  "cstr_len 0 p n k = Ok None"
| "cstr_len (Suc m) p n k =
     bindR (bindR (virt_addr (k_paging k) p) (page_flags (k_paging k))) (\<lambda>fl.
     if fl = None then Ok None
     else if k_mem k p = 0 then Ok (Some n)
     else cstr_len m (p + 1) (n + 1) k)"

definition linux_cstr_len :: "nat \<Rightarrow> kernel \<Rightarrow> (unit, nat option) res" where
  "linux_cstr_len p = cstr_len 4096 p 0"

text \<open>Zero user bytes one by one, as long as their pages are mapped.\<close>

primrec linux_zero_user :: "nat \<Rightarrow> nat \<Rightarrow> bool kp" where
  "linux_zero_user start 0 = retP True"
| "linux_zero_user start (Suc n) =
     (\<lambda>k. bindP (liftP (bindR (virt_addr (k_paging k) start) (page_flags (k_paging k)))) (\<lambda>fl.
       if fl = None then retP False
       else (\<lambda>k. linux_zero_user (start + 1) n (write_user start [0] k))) k)"

definition read_u64 :: "nat \<Rightarrow> kernel \<Rightarrow> nat" where
  "read_u64 p k = le_nat (read_user p 8 k)"

definition utsname :: bytes where
  "utsname = concat (map (\<lambda>s. map (\<lambda>c. of_nat (of_char c)) s @ replicate (65 - length s) 0)
     [''OnyxOS'', ''onyx'', ''9.7.0'', ''(none)'', ''x86_64'', ''(none)''])"

definition xorshift :: "u64 \<Rightarrow> u64" where
  "xorshift s =
     (let s1 = s XOR push_bit 13 s; s2 = s1 XOR drop_bit 7 s1 in s2 XOR push_bit 17 s2)"

primrec random_bytes :: "nat \<Rightarrow> u64 \<Rightarrow> bytes \<times> u64" where
  "random_bytes 0 s = ([], s)"
| "random_bytes (Suc n) s =
     (let s' = xorshift s; (bs, t) = random_bytes n s' in (ucast s' # bs, t))"

text \<open>The loop of \<open>writev\<close> over the vectors that are left, with the sum so far.\<close>

primrec writev_loop :: "nat \<Rightarrow> nat \<Rightarrow> nat \<Rightarrow> nat list \<Rightarrow> nat \<Rightarrow> nat kp" where
  "writev_loop me fd iovs [] acc = retP acc"
| "writev_loop me fd iovs (i # is) acc =
     (\<lambda>k.
       let rec = (case checked_add64 iovs (i * 16) of Some r \<Rightarrow> r | None \<Rightarrow> 2 ^ 64 - 1) in
       bindP (liftP (user_buf_ok (k_paging k) rec 16 False)) (\<lambda>ok.
       if \<not> ok then retP (err EFAULT)
       else
         let base = read_u64 rec k; len = read_u64 (rec + 8) k in
         if len = 0 then writev_loop me fd iovs is acc
         else bindP (sys_write me fd base len) (\<lambda>r.
           if 2 ^ 63 \<le> r then retP r
           else bindP (guardP (acc + r < 2 ^ 64)) (\<lambda>_. writev_loop me fd iovs is (acc + r)))) k)"

text \<open>Writing a result into a validated user buffer.\<close>

definition to_user :: "nat \<Rightarrow> nat \<Rightarrow> bytes \<Rightarrow> nat \<Rightarrow> nat \<Rightarrow> nat kp" where
  "to_user ptr len bs result fault k =
     bindP (liftP (user_buf_ok (k_paging k) ptr len True)) (\<lambda>ok k.
       if ok then (Ok result, write_user ptr bs k) else (Ok (err fault), k)) k"

definition linux_open :: "nat \<Rightarrow> nat \<Rightarrow> nat kp" where
  "linux_open me p k =
     (if p = 0 \<or> checked_add64 p 4096 = None then (Ok (err EFAULT), k)
      else bindP (liftP (linux_cstr_len p k)) (\<lambda>n.
        case n of Some l \<Rightarrow> sys_open me p l | None \<Rightarrow> retP (err EFAULT)) k)"

definition linux_fstat :: "nat \<Rightarrow> nat kp" where
  "linux_fstat p =
     (if checked_add64 p 144 = None then retP (err EFAULT)
      else bindP (linux_zero_user p 144) (\<lambda>ok. retP (if ok then 0 else err EFAULT)))"

section \<open>Memory calls\<close>

definition LINUX_HEAP_BASE :: nat where "LINUX_HEAP_BASE = 0x4000000"
definition LINUX_MMAP_BASE :: nat where "LINUX_MMAP_BASE = 0x8000000"
definition LINUX_MMAP_END :: nat where "LINUX_MMAP_END = 0x10000000"

definition linux_mem_entry :: "nat \<Rightarrow> (nat \<times> nat) kp" where
  "linux_mem_entry pid k =
     (case position (\<lambda>e. fst e = pid) (k_linux_mem k) of
        Some n \<Rightarrow> (Ok (snd (k_linux_mem k ! n)), k)
      | None \<Rightarrow> (Ok (LINUX_HEAP_BASE, LINUX_MMAP_BASE),
          k\<lparr>k_linux_mem := k_linux_mem k @ [(pid, LINUX_HEAP_BASE, LINUX_MMAP_BASE)]\<rparr>))"

definition linux_mem_set :: "nat \<Rightarrow> nat \<Rightarrow> nat \<Rightarrow> unit kp" where
  "linux_mem_set pid brk mmap k =
     (case position (\<lambda>e. fst e = pid) (k_linux_mem k) of
        Some n \<Rightarrow> (Ok (), k\<lparr>k_linux_mem := (k_linux_mem k)[n := (pid, brk, mmap)]\<rparr>)
      | None \<Rightarrow> (Ok (), k))"

definition linux_brk :: "services \<Rightarrow> nat \<Rightarrow> nat \<Rightarrow> nat kp" where
  "linux_brk sv pid addr =
     bindP (linux_mem_entry pid) (\<lambda>(brk, mmap).
     if addr = 0 \<or> addr \<le> brk \<or> LINUX_MMAP_BASE \<le> addr then retP brk
     else
       let new_top = page_of (addr + 0xFFF) in
       bindP (sv_map_pages sv brk ((new_top - brk + 0xFFF) div 0x1000)) (\<lambda>_.
       bindP (linux_mem_set pid new_top mmap) (\<lambda>_. retP new_top)))"

definition linux_mmap_anon :: "services \<Rightarrow> nat \<Rightarrow> nat \<Rightarrow> nat kp" where
  "linux_mmap_anon sv pid len =
     (if len = 0 then retP (err EINVAL)
      else bindP (linux_mem_entry pid) (\<lambda>(brk, mmap).
        let pages = (len + 0xFFF) div 0x1000; e = mmap + pages * 0x1000 in
        bindP (guardP (len + 0xFFF < 2 ^ 64 \<and> e < 2 ^ 64)) (\<lambda>_.
        if LINUX_MMAP_END < e then retP (err ENOMEM)
        else
          bindP (sv_map_pages sv mmap pages) (\<lambda>_.
          bindP (linux_mem_set pid brk e) (\<lambda>_. retP mmap)))))"

definition linux_mem_call :: "services \<Rightarrow> nat kp \<Rightarrow> nat kp" where
  "linux_mem_call sv m k = (if sv_ready sv k then m k else (Ok (err ENOMEM), k))"

section \<open>Further calls\<close>

definition linux_nanosleep :: "nat \<Rightarrow> clocks \<Rightarrow> nat \<Rightarrow> nat kp" where
  "linux_nanosleep me ck p k =
     bindP (liftP (user_buf_ok (k_paging k) p 16 False)) (\<lambda>ok.
       if ok then
         sys_sleep me ck (min (min (read_u64 p k * 1000000000) (2 ^ 64 - 1) + read_u64 (p + 8) k) (2 ^ 64 - 1))
       else retP (err EFAULT)) k"

definition arch_prctl :: "nat \<Rightarrow> nat \<Rightarrow> nat kp" where
  "arch_prctl code addr k =
     (if code = 0x1002 then
        bindP (liftP (if addr \<noteq> 0 then user_buf_ok (k_paging k) addr 1 True else Ok True)) (\<lambda>ok k.
          if ok then (Ok 0, k\<lparr>k_fs_base := addr\<rparr>) else (Ok (err EFAULT), k)) k
      else if code = 0x1003 then to_user addr 8 (to_le 8 (k_fs_base k)) 0 EFAULT k
      else (Ok (err EINVAL), k))"

definition clock_gettime :: "clocks \<Rightarrow> nat \<Rightarrow> nat \<Rightarrow> nat kp" where
  "clock_gettime ck clk out =
     (let ns0 = sys_gettime ck (if clk = 0 then 1 else 0); ns = (if ns0 = 2 ^ 64 - 1 then 0 else ns0) in
      to_user out 16 (to_le 8 (ns div 1000000000) @ to_le 8 (ns mod 1000000000)) 0 EFAULT)"

definition getrandom :: "nat \<Rightarrow> nat \<Rightarrow> nat kp" where
  "getrandom buf len0 k =
     (let len = min len0 256; (bs, s) = random_bytes len (k_rng k) in
      if len = 0 then (Ok (err EFAULT), k)
      else bindP (liftP (user_buf_ok (k_paging k) buf len True)) (\<lambda>ok k.
        if ok then (Ok len, (write_user buf bs k)\<lparr>k_rng := s\<rparr>) else (Ok (err EFAULT), k)) k)"

section \<open>The three tiers\<close>

definition linux_dispatch_tail :: "services \<Rightarrow> nat \<Rightarrow> clocks \<Rightarrow> frame \<Rightarrow> outcome kp" where
  "linux_dispatch_tail sv me ck f =
     (if rax f = 63 then ret f (to_user (rdi f) (6 * 65) utsname 0 EFAULT)
      else if rax f = 79 then
        ret f (if 2 \<le> rsi f then to_user (rdi f) 2 [0x2F, 0] 2 EINVAL else retP (err EINVAL))
      else if rax f = 158 then ret f (arch_prctl (rdi f) (rsi f))
      else if rax f = 228 then ret f (clock_gettime ck (rdi f) (rsi f))
      else if rax f = 231 then ret_frame (sys_exit me f)
      else if rax f = 318 then ret f (getrandom (rdi f) (rsi f))
      else ret f (retP (err ENOSYS)))"

definition linux_dispatch_more :: "services \<Rightarrow> nat \<Rightarrow> clocks \<Rightarrow> nat \<Rightarrow> frame \<Rightarrow> outcome kp" where
  "linux_dispatch_more sv me ck pid f =
     (if rax f = 13 \<or> rax f = 14 \<or> rax f = 202 \<or> rax f = 16 \<or> rax f = 21 then ret f (retP 0)
      else if rax f = 218 then ret f (retP pid)
      else if rax f = 17 then ret_or_wait f (sys_read me ck (rdi f) (rsi f) (rdx f))
      else if rax f = 20 then ret f (writev_loop me (rdi f) (rsi f) [0..<min (rdx f) 64] 0)
      else if rax f = 35 then ret f (linux_nanosleep me ck (rdi f))
      else if rax f = 39 then ret f (retP pid)
      else if rax f = 110 then ret f (retP 0)
      else linux_dispatch_tail sv me ck f)"

definition linux_dispatch :: "services \<Rightarrow> nat \<Rightarrow> clocks \<Rightarrow> frame \<Rightarrow> outcome kp" where
  "linux_dispatch sv me ck f k =
     (let pid = self_id me k in
      if rax f = 0 then ret_or_wait f (sys_read me ck (rdi f) (rsi f) (rdx f)) k
      else if rax f = 1 then ret f (sys_write me (rdi f) (rsi f) (rdx f)) k
      else if rax f = 2 \<or> rax f = 257 then ret f (linux_open me (rsi f)) k
      else if rax f = 3 then ret f (sys_close me (rdi f)) k
      else if rax f = 5 then ret f (linux_fstat (rsi f)) k
      else if rax f = 8 then ret f (sys_seek me (rdi f) (rsi f) (rdx f)) k
      else if rax f = 9 then
        ret f (if (r8 f + 1) mod 2 ^ 64 \<noteq> 0 then retP (err ENOMEM)
               else linux_mem_call sv (linux_mmap_anon sv pid (rsi f))) k
      else if rax f = 11 then ret f (retP 0) k
      else if rax f = 12 then ret f (linux_mem_call sv (linux_brk sv pid (rdi f))) k
      else linux_dispatch_more sv me ck pid f k)"

definition dispatch :: "services \<Rightarrow> nat \<Rightarrow> clocks \<Rightarrow> frame \<Rightarrow> outcome kp" where
  "dispatch sv me ck f k =
     (if current_is_linux me (k_sched k) then linux_dispatch sv me ck f k else native_dispatch sv me ck f k)"

end
