(* ===== verification/Syscall_Safe.thy ===== *)
theory Syscall_Safe
  imports Linux_Abi Sched_Live Fat_Paths
begin

text \<open>
  What the system calls guarantee about memory: a native call writes only to pages that user code may
  write to itself, also when it was suspended in between, and where the Linux shim breaks this rule.
\<close>

section \<open>Guarded programs\<close>

definition writable :: "kernel \<Rightarrow> nat \<Rightarrow> bool" where
  "writable k a \<longleftrightarrow> user_flags True (flags_of (k_paging k) a)"

text \<open>What stays during a call: the page tables and the mount table.\<close>

definition ctx :: "kernel \<Rightarrow> paging \<times> mount list" where
  "ctx k = (k_paging k, MOUNTS (k_vfs k))"

text \<open>The step kept these and every byte that user code could not have written.\<close>

definition guarded :: "kernel \<Rightarrow> kernel \<Rightarrow> bool" where
  "guarded k k' \<longleftrightarrow> ctx k' = ctx k \<and> (\<forall>a. \<not> writable k a \<longrightarrow> k_mem k' a = k_mem k a)"

definition safe :: "(paging \<times> mount list \<Rightarrow> bool) \<Rightarrow> 'a kp \<Rightarrow> bool" where
  "safe P m \<longleftrightarrow> (\<forall>k. paging_wf (k_paging k) \<and> P (ctx k) \<longrightarrow> guarded k (snd (m k)))"

lemma guarded_refl [simp]: "guarded k k"
  by (simp add: guarded_def)

lemma guarded_trans: "guarded k l \<Longrightarrow> guarded l m \<Longrightarrow> guarded k m"
  by (simp add: guarded_def writable_def ctx_def)

lemma guarded_same: "ctx k' = ctx k \<Longrightarrow> k_mem k' = k_mem k \<Longrightarrow> guarded k k'"
  by (simp add: guarded_def)

lemma safeD: "safe P m \<Longrightarrow> paging_wf (k_paging k) \<Longrightarrow> P (ctx k) \<Longrightarrow> m k = (r, k') \<Longrightarrow> guarded k k'"
  unfolding safe_def by (metis snd_conv)

lemma safe_basic [intro, simp]: "safe P (retP a)" "safe P (liftP r)" "safe P (guardP b)" "safe P panicP"
  by (simp_all add: safe_def guardP_def)

lemma safe_bindP [intro]:
  assumes "safe P m" "\<And>a. safe P (f a)"
  shows "safe P (bindP m f)"
  unfolding safe_def
proof (intro allI impI)
  fix k :: kernel
  assume wf: "paging_wf (k_paging k) \<and> P (ctx k)"
  obtain r k' where m: "m k = (r, k')" by (cases "m k")
  have g: "guarded k k'" using safeD [OF assms(1) _ _ m] wf by simp
  show "guarded k (snd (bindP m f k))"
  proof (cases r)
    case (Ok a)
    have "guarded k' (snd (f a k'))" using assms(2) [of a] wf g by (simp add: safe_def guarded_def ctx_def)
    then show ?thesis using m Ok guarded_trans [OF g] by simp
  qed (use m g in simp_all)
qed

text \<open>A program that leaves memory, page tables and mounts alone.\<close>

lemma safeI: "(\<And>k. ctx (snd (m k)) = ctx k \<and> k_mem (snd (m k)) = k_mem k) \<Longrightarrow> safe P m"
  by (simp add: safe_def guarded_same)

lemma safe_weaken: "safe P m \<Longrightarrow> (\<And>c. Q c \<Longrightarrow> P c) \<Longrightarrow> safe Q m"
  by (simp add: safe_def)

lemma write_user_simps [simp]:
  "k_paging (write_user p bs k) = k_paging k" "k_sched (write_user p bs k) = k_sched k" "k_vfs (write_user p bs k) = k_vfs k"
  "k_fds (write_user p bs k) = k_fds k" "k_input (write_user p bs k) = k_input k" "k_keyboard (write_user p bs k) = k_keyboard k"
  "ctx (write_user p bs k) = ctx k"
  by (simp_all add: write_user_def ctx_def)

text \<open>The context in which a buffer has been validated.\<close>

definition buf_ok :: "nat \<Rightarrow> nat \<Rightarrow> bool \<Rightarrow> paging \<times> mount list \<Rightarrow> bool" where
  "buf_ok p n w c \<longleftrightarrow> user_buf_ok (fst c) p n w = Ok True"

lemma write_user_guarded:
  assumes "paging_wf (k_paging k)" "buf_ok p n True (ctx k)" "length bs \<le> n"
  shows "guarded k (write_user p bs k)"
proof -
  have "bs = [] \<or> (\<forall>a. p \<le> a \<and> a < p + n \<longrightarrow> writable k a)"
    using user_buf_ok_spec [OF assms(1), of p n True] assms(2,3) by (auto simp: writable_def buf_ok_def ctx_def)
  then show ?thesis using assms(3) by (auto simp: guarded_def) (auto simp: write_user_def)
qed

lemma safe_write_user:
  assumes "\<And>c. P c \<Longrightarrow> buf_ok p n True c" "length bs \<le> n"
  shows "safe P (\<lambda>k. (r, write_user p bs k))"
  unfolding safe_def using write_user_guarded [OF _ assms(1) assms(2)] by auto

lemma safe_check:
  assumes "\<And>k. safe (\<lambda>c. P c \<and> buf_ok p n w c) (g k True)" "\<And>k. safe P (g k False)"
  shows "safe P (\<lambda>k. bindP (liftP (user_buf_ok (k_paging k) p n w)) (g k) k)"
  unfolding safe_def
proof (intro allI impI)
  fix k :: kernel
  assume a: "paging_wf (k_paging k) \<and> P (ctx k)"
  obtain b where b: "user_buf_ok (k_paging k) p n w = Ok b" using user_buf_ok_spec a by blast
  show "guarded k (snd (bindP (liftP (user_buf_ok (k_paging k) p n w)) (g k) k))"
    using assms(1) [of k] assms(2) [of k] a b by (cases b) (simp_all add: safe_def buf_ok_def ctx_def)
qed

section \<open>The components\<close>

lemma with_disk_mounts [simp]: "MOUNTS (snd (with_disk m v)) = MOUNTS v"
  by (simp add: with_disk_def split: option.splits prod.splits)

lemma with_fs_mounts [simp]: "MOUNTS (snd (with_fs p f v)) = MOUNTS v"
  by (simp add: with_fs_def split: option.splits)

lemmas vfs_ops = vfs_list_def vfs_open_def vfs_mkdir_def vfs_read_at_def vfs_write_at_def vfs_stat_def vfs_unlink_def
  vfs_rename_def vfs_fsync_def

lemma vfs_call_simps [simp]:
  "k_paging (snd (vfs_call m k)) = k_paging k" "k_mem (snd (vfs_call m k)) = k_mem k" "k_sched (snd (vfs_call m k)) = k_sched k"
  "k_fds (snd (vfs_call m k)) = k_fds k" "k_input (snd (vfs_call m k)) = k_input k" "k_keyboard (snd (vfs_call m k)) = k_keyboard k"
  "k_vfs (snd (vfs_call m k)) = snd (m (k_vfs k))"
  by (simp_all add: vfs_call_def split: prod.splits res.splits)

lemma safe_vfs_call [intro, simp]: "safe P (vfs_call (with_fs p f))"
  by (rule safeI) (simp add: ctx_def)

lemma safe_vfs_list2 [intro, simp]: "safe P (vfs_call (vfs_list2 p))"
  by (rule safeI) (simp add: ctx_def vfs_list2_def split: option.splits)

lemma set_sched_simps [simp]:
  "k_paging (set_sched s k) = k_paging k" "k_mem (set_sched s k) = k_mem k" "k_fds (set_sched s k) = k_fds k"
  "k_sched (set_sched s k) = s" "k_vfs (set_sched s k) = k_vfs k" "k_input (set_sched s k) = k_input k" "k_keyboard (set_sched s k) = k_keyboard k"
  "ctx (set_sched s k) = ctx k"
  by (simp_all add: set_sched_def ctx_def)

lemma reschedule_simps [simp]:
  "ctx (snd (reschedule me ck k)) = ctx k" "k_mem (snd (reschedule me ck k)) = k_mem k"
  "k_fds (snd (reschedule me ck k)) = k_fds k"
  by (simp_all add: reschedule_def split: res.splits prod.splits)

lemma with_task_fds_simps [simp]:
  "ctx (snd (with_task_fds me f k)) = ctx k" "k_mem (snd (with_task_fds me f k)) = k_mem k"
  "k_sched (snd (with_task_fds me f k)) = k_sched k" "k_vfs (snd (with_task_fds me f k)) = k_vfs k"
  by (simp_all add: with_task_fds_def Let_def ctx_def split: option.splits prod.splits)

lemma drop_fds_simps [simp]:
  "ctx (drop_fds_for i k) = ctx k" "k_mem (drop_fds_for i k) = k_mem k" "ctx (drop_task_fds me k) = ctx k" "k_mem (drop_task_fds me k) = k_mem k"
  "ctx (linux_mem_drop i k) = ctx k" "k_mem (linux_mem_drop i k) = k_mem k"
  by (simp_all add: drop_fds_for_def drop_task_fds_def linux_mem_drop_def ctx_def)

lemma safe_components [intro, simp]:
  "safe P (reschedule me ck)" "safe P (with_task_fds me f)" "safe P (with_fd me fd g)"
  by (rule safeI; simp add: with_fd_def)+

lemma safe_get_fd [intro, simp]: "safe P (get_fd me fd)" "safe P (advance_fd me fd n)"
  unfolding get_fd_def advance_fd_def by auto

lemma user_path_same: "snd (user_path p n k) = k"
  by (simp add: user_path_def bindP_def Let_def split: res.splits)

lemma safe_user_path [intro, simp]: "safe P (user_path p n)"
  by (rule safeI) (simp add: user_path_same)

lemma safe_on_path [intro]: "(\<And>path. safe P (f path)) \<Longrightarrow> safe P (on_path p n f)"
  unfolding on_path_def by (intro safe_bindP) (auto split: sum.split)

section \<open>The calls\<close>

lemma safe_file_calls:
  "safe P (sys_open me p n)" "safe P (sys_mkdir p n)" "safe P (sys_unlink p n)" "safe P (sys_rename p n q l)"
  "safe P (sys_fsync me fd)" "safe P (sys_seek me fd off wh)" "safe P (sys_close me fd)" "safe P (sys_ls p n)"
  unfolding sys_open_def sys_mkdir_def sys_unlink_def sys_rename_def sys_fsync_def sys_seek_def sys_close_def sys_ls_def vfs_ops
  by (auto intro!: safe_bindP safe_on_path split: sum.split option.split)

lemma length_stat_record [simp]: "length (stat_record st) = 40"
  by (simp add: stat_record_def)

lemma safe_sys_stat: "safe P (sys_stat p n out)"
  unfolding sys_stat_def vfs_ops
  by (rule safe_on_path, rule safe_check) (auto intro!: safe_bindP safe_write_user [where n = 40] split: sum.split)

lemma safe_write_console [intro, simp]: "safe P (write_console bs)"
  by (rule safeI) (simp add: write_console_def ctx_def split: option.splits)

lemma safe_fd_write_at [intro, simp]: "safe P (fd_write_at me fd bs)"
  unfolding fd_write_at_def vfs_ops by (auto intro!: safe_bindP split: sum.split option.split)

lemma safe_sys_write: "safe P (sys_write me fd p n)"
proof -
  have "safe P (\<lambda>k. bindP (liftP (user_buf_ok (k_paging k) p (min n 4096) False)) (\<lambda>ok.
        if \<not> ok then retP (err EFAULT)
        else if fd = 1 \<or> fd = 2 then write_console (read_user p (min n 4096) k)
        else if 3 \<le> fd then fd_write_at me fd (read_user p (min n 4096) k)
        else retP (err EBADF)) k)"
    by (rule safe_check) auto
  then show ?thesis by (cases "n = 0") (auto simp: safe_def sys_write_def Let_def)
qed

text \<open>
  A file system fills the buffer it was given: its length stays. In Rust this is the type of the
  argument, a mutable slice.
\<close>

definition slices_kept :: "mount list \<Rightarrow> bool" where
  "slices_kept ms \<longleftrightarrow> (\<forall>m \<in> set ms. \<forall>p off buf d n out d'.
     fs_read_at (mnt_fs m) p off buf d = (Ok (n, out), d') \<longrightarrow> length out = length buf)"

lemma vfs_read_length:
  "slices_kept (MOUNTS v) \<Longrightarrow> vfs_read_at p off buf v = (Ok (n, out), v') \<Longrightarrow> length out = length buf"
  by (auto simp: vfs_read_at_def with_fs_def with_disk_def slices_kept_def not_le split: option.splits prod.splits if_splits)
    (meson nth_mem)

lemma vfs_call_Inr: "vfs_call m k = (Ok (Inr a), k') \<Longrightarrow> \<exists>v. m (k_vfs k) = (Ok a, v)"
  by (auto simp: vfs_call_def split: prod.splits res.splits)

lemma length_put_front: "length xs \<le> length out \<Longrightarrow> length (put out 0 xs) = length out"
  by (simp add: put_def)

lemma take_line_length:
  "take_line_loop n out k = (Ok (m, out') :: (unit, nat \<times> bytes) res, k') \<Longrightarrow> length out' = length out"
proof (induction n arbitrary: k)
  case (Suc n)
  then obtain kv k1 where p: "ring_pop k = (Ok kv :: (unit, u64 option) res, k1)" by auto
  show ?case
  proof (cases kv)
    case None
    then show ?thesis using Suc.prems p by simp
  next
    case (Some v)
    then show ?thesis
      using Suc.prems Suc.IH p by (auto simp: Let_def length_put_front split: if_splits prod.splits)
  qed
qed simp

lemma drain_length:
  "drain_loop dst copied r = (Ok (m, out) :: (unit, nat \<times> bytes) res, r') \<Longrightarrow> length out = length dst"
proof (induction dst copied r arbitrary: m out r' rule: drain_loop.induct)
  case (1 dst copied r)
  show ?case
  proof (cases "0 < COUNT r \<and> copied + EV_SIZE \<le> length dst")
    case True
    then obtain e r1 where e: "take_event r = (Ok e :: (unit, input_event) res, r1)"
      "drain_loop (put dst copied (encode e)) (copied + EV_SIZE) r1 = (Ok (m, out) :: (unit, nat \<times> bytes) res, r')"
      using 1(2) by (subst (asm) drain_loop.simps) auto
    then show ?thesis using 1(1) [OF True e(2)] True by simp
  next
    case False
    then show ?thesis using 1(2) by (subst (asm) drain_loop.simps) auto
  qed
qed

lemma length_read_user [simp]: "length (read_user p n k) = n"
  by (simp add: read_user_def)

text \<open>Sequencing when the second part may rely on the value of the first.\<close>

lemma safe_bind_value:
  assumes "safe P m" "\<And>k a k'. paging_wf (k_paging k) \<Longrightarrow> P (ctx k) \<Longrightarrow> m k = (Ok a, k') \<Longrightarrow> safe P (f a)"
  shows "safe P (bindP m f)"
  unfolding safe_def
proof (intro allI impI)
  fix k :: kernel
  assume wf: "paging_wf (k_paging k) \<and> P (ctx k)"
  obtain r k' where m: "m k = (r, k')" by (cases "m k")
  have g: "guarded k k'" using safeD [OF assms(1) _ _ m] wf by simp
  show "guarded k (snd (bindP m f k))"
  proof (cases r)
    case (Ok a)
    have "guarded k' (snd (f a k'))" using assms(2) [of k a k'] m Ok wf g by (simp add: safe_def guarded_def ctx_def)
    then show ?thesis using m Ok guarded_trans [OF g] by simp
  qed (use m g in simp_all)
qed

lemma guarded_from: "ctx l = ctx k \<Longrightarrow> k_mem l = k_mem k \<Longrightarrow> guarded l m \<Longrightarrow> guarded k m"
  using guarded_trans [OF guarded_same] by blast

lemma reschedule_after [simp]:
  "ctx (snd (bindP (reschedule me ck) (\<lambda>_. retP w) k)) = ctx k" "k_mem (snd (bindP (reschedule me ck) (\<lambda>_. retP w) k)) = k_mem k"
  "k_fds (snd (bindP (reschedule me ck) (\<lambda>_. retP w) k)) = k_fds k"
proof -
  obtain r l where e: "reschedule me ck k = (r, l)" by fastforce
  have "ctx l = ctx k" "k_mem l = k_mem k" "k_fds l = k_fds k" using reschedule_simps [of me ck k, unfolded e] by simp_all
  then show "ctx (snd (bindP (reschedule me ck) (\<lambda>_. retP w) k)) = ctx k" "k_mem (snd (bindP (reschedule me ck) (\<lambda>_. retP w) k)) = k_mem k"
    "k_fds (snd (bindP (reschedule me ck) (\<lambda>_. retP w) k)) = k_fds k"
    by (cases r; simp add: e)+
qed

lemma safe_read_line_loop: "safe (buf_ok p n True) (read_line_loop me ck p n)"
  unfolding safe_def
proof (intro allI impI)
  fix k :: kernel
  assume a: "paging_wf (k_paging k) \<and> buf_ok p n True (ctx k)"
  obtain r kb where t: "take_line (read_user p n k) (k_keyboard k) = (r :: (unit, nat \<times> bytes) res, kb)" by fastforce
  show "guarded k (snd (read_line_loop me ck p n k))"
  proof (cases r)
    case (Ok mo)
    obtain m out where mo: "mo = (m, out)" by fastforce
    let ?k = "write_user p out (k\<lparr>k_keyboard := kb\<rparr>)"
    have "length out = n" using take_line_length [of _ "read_user p n k"] t Ok mo by (simp add: take_line_def)
    then have "guarded (k\<lparr>k_keyboard := kb\<rparr>) ?k" using a by (intro write_user_guarded [where n = n]) (simp_all add: ctx_def)
    then have g: "guarded k ?k" by (rule guarded_from [rotated 2]) (simp_all add: ctx_def)
    have "ctx (snd (read_line_loop me ck p n k)) = ctx ?k \<and> k_mem (snd (read_line_loop me ck p n k)) = k_mem ?k"
      using t Ok mo by (cases "line_waiting kb") (simp_all add: read_line_loop_def Let_def)
    then show ?thesis using guarded_trans [OF g guarded_same] by blast
  qed (use t in \<open>simp_all add: read_line_loop_def guarded_same ctx_def\<close>)
qed

lemma safe_after:
  assumes "safe P (\<lambda>k. (r, g k))" "safe P m"
  shows "safe P (\<lambda>k. m (g k))"
  unfolding safe_def
proof (intro allI impI)
  fix k :: kernel
  assume a: "paging_wf (k_paging k) \<and> P (ctx k)"
  then have g: "guarded k (g k)" using assms(1) by (simp add: safe_def)
  then have "guarded (g k) (snd (m (g k)))" using assms(2) a by (simp add: safe_def guarded_def ctx_def)
  then show "guarded k (snd (m (g k)))" by (rule guarded_trans [OF g])
qed

lemma safe_input_read_loop: "safe (buf_ok p n True) (input_read_loop me ck p n b)"
  unfolding safe_def
proof (intro allI impI)
  fix k :: kernel
  assume a: "paging_wf (k_paging k) \<and> buf_ok p n True (ctx k)"
  obtain r q where t: "drain (read_user p n k) (k_input k) = (r :: (unit, nat \<times> bytes) res, q)" by fastforce
  show "guarded k (snd (input_read_loop me ck p n b k))"
  proof (cases r)
    case (Ok mo)
    obtain m out where mo: "mo = (m, out)" by fastforce
    let ?k = "write_user p out (k\<lparr>k_input := q\<rparr>)"
    have "length out = n" using drain_length [of "read_user p n k"] t Ok mo by (simp add: drain_def)
    then have "guarded (k\<lparr>k_input := q\<rparr>) ?k" using a by (intro write_user_guarded [where n = n]) (simp_all add: ctx_def)
    then have g: "guarded k ?k" by (rule guarded_from [rotated 2]) (simp_all add: ctx_def)
    have "ctx (snd (input_read_loop me ck p n b k)) = ctx ?k \<and> k_mem (snd (input_read_loop me ck p n b k)) = k_mem ?k"
      using t Ok mo by (simp add: input_read_loop_def Let_def)
    then show ?thesis using guarded_trans [OF g guarded_same] by blast
  qed (use t in \<open>simp_all add: input_read_loop_def guarded_same ctx_def\<close>)
qed

lemma safe_sys_input_read: "safe P (sys_input_read me ck p n b)"
proof -
  have "safe P (\<lambda>k. bindP (liftP (user_buf_ok (k_paging k) p (min n 4096) True)) (\<lambda>ok.
        if \<not> ok then retP (Inl (err EFAULT)) else input_read_loop me ck p (min n 4096) b) k)"
    by (rule safe_check) (auto intro: safe_weaken [OF safe_input_read_loop])
  then show ?thesis by (cases "min n 4096 < EV_SIZE") (auto simp: safe_def sys_input_read_def Let_def)
qed

lemma safe_read_file:
  "safe (\<lambda>c. slices_kept (snd c) \<and> buf_ok p n True c)
    (bindP (vfs_call (vfs_read_at name pos (read_user p n k))) (\<lambda>rd.
       case rd of
         Inl _ \<Rightarrow> retP (Inl (err EIO))
       | Inr (m, out) \<Rightarrow> (\<lambda>k. bindP (advance_fd me fd m) (\<lambda>_. retP (Inl m)) (write_user p out k))))"
proof (rule safe_bind_value)
  show "safe (\<lambda>c. slices_kept (snd c) \<and> buf_ok p n True c) (vfs_call (vfs_read_at name pos (read_user p n k)))"
    unfolding vfs_ops by simp
next
  fix l rd l'
  assume l: "slices_kept (snd (ctx l)) \<and> buf_ok p n True (ctx l)" "vfs_call (vfs_read_at name pos (read_user p n k)) l = (Ok rd, l')"
  show "safe (\<lambda>c. slices_kept (snd c) \<and> buf_ok p n True c) (case rd of
         Inl _ \<Rightarrow> retP (Inl (err EIO))
       | Inr (m, out) \<Rightarrow> (\<lambda>k. bindP (advance_fd me fd m) (\<lambda>_. retP (Inl m)) (write_user p out k)))"
  proof (cases rd)
    case (Inr mo)
    obtain m out where mo: "mo = (m, out)" by fastforce
    have "length out = n"
      using l vfs_call_Inr [of "vfs_read_at name pos (read_user p n k)" l "(m, out)"] Inr mo
      by (auto simp: ctx_def dest: vfs_read_length)
    then show ?thesis
      unfolding Inr mo sum.case prod.case
      by (intro safe_after [where g = "write_user p out" and m = "bindP (advance_fd me fd m) (\<lambda>_. retP (Inl m))" and r = "Ok ()"]
        safe_write_user [where n = n] safe_bindP safe_get_fd safe_basic) simp_all
  qed simp
qed

lemma safe_sys_read: "safe (\<lambda>c. slices_kept (snd c)) (sys_read me ck fd p n0)"
proof -
  let ?n = "min n0 4096"
  let ?Q = "\<lambda>c. slices_kept (snd c)"
  have line: "safe ?Q (\<lambda>k. bindP (liftP (user_buf_ok (k_paging k) p ?n True)) (\<lambda>ok.
          if \<not> ok then retP (Inl (err EFAULT)) else read_line_loop me ck p ?n) k)"
    by (rule safe_check) (auto intro: safe_weaken [OF safe_read_line_loop])
  have disk: "safe ?Q (bindP (get_fd me fd) (\<lambda>r k.
          case r of
            None \<Rightarrow> (Ok (Inl (err EBADF)), k)
          | Some (name, pos) \<Rightarrow>
              bindP (liftP (user_buf_ok (k_paging k) p ?n True)) (\<lambda>ok.
              if \<not> ok then retP (Inl (err EFAULT))
              else
                bindP (vfs_call (vfs_read_at name pos (read_user p ?n k))) (\<lambda>rd.
                case rd of
                  Inl _ \<Rightarrow> retP (Inl (err EIO))
                | Inr (m, out) \<Rightarrow> (\<lambda>k. bindP (advance_fd me fd m) (\<lambda>_. retP (Inl m)) (write_user p out k)))) k))"
  proof (rule safe_bindP)
    fix r :: "(string \<times> nat) option"
    show "safe ?Q (\<lambda>k. case r of
            None \<Rightarrow> (Ok (Inl (err EBADF)), k)
          | Some (name, pos) \<Rightarrow>
              bindP (liftP (user_buf_ok (k_paging k) p ?n True)) (\<lambda>ok.
              if \<not> ok then retP (Inl (err EFAULT))
              else
                bindP (vfs_call (vfs_read_at name pos (read_user p ?n k))) (\<lambda>rd.
                case rd of
                  Inl _ \<Rightarrow> retP (Inl (err EIO))
                | Inr (m, out) \<Rightarrow> (\<lambda>k. bindP (advance_fd me fd m) (\<lambda>_. retP (Inl m)) (write_user p out k)))) k)"
    proof (cases r)
      case None
      then show ?thesis by (simp add: safe_def)
    next
      case (Some np)
      then show ?thesis by (cases np) (simp, rule safe_check, auto intro: safe_read_file)
    qed
  qed simp
  show ?thesis using line disk by (auto simp: safe_def sys_read_def Let_def)
qed

lemma safe_task_calls:
  "safe P (sys_exit me f)" "safe P (sys_kill me f)" "safe P (waitpid_loop me ck pid)" "safe P (sys_sleep me ck ns)"
  "safe P (sys_yield me ck)" "safe P sys_flush"
proof -
  show "safe P (sys_exit me f)" by (rule safeI) (simp add: sys_exit_def Let_def)
  show "safe P (sys_kill me f)" by (rule safeI) (auto simp: sys_kill_def Let_def split: res.splits prod.splits bool.splits)
  show "safe P (waitpid_loop me ck pid)" by (rule safeI) (simp add: waitpid_loop_def split: prod.splits option.splits)
  show "safe P (sys_sleep me ck ns)" "safe P (sys_yield me ck)" by (rule safeI; simp add: sys_sleep_def sys_yield_def)+
  show "safe P sys_flush" by (rule safeI) (simp add: sys_flush_def ctx_def)
qed

lemma safe_ret [intro]:
  "safe P m \<Longrightarrow> safe P (ret f m)" "safe P w \<Longrightarrow> safe P (ret_or_wait f w)" "safe P x \<Longrightarrow> safe P (ret_frame x)"
  unfolding ret_def ret_or_wait_def ret_frame_def by auto

lemma safe_native_dispatch: "rax f \<noteq> SYS_SPAWN \<Longrightarrow> safe (\<lambda>c. slices_kept (snd c)) (native_dispatch sv me ck f)"
  unfolding native_dispatch_def
  by (auto intro!: safe_ret safe_file_calls safe_sys_stat safe_sys_write safe_sys_read safe_sys_input_read safe_task_calls
    intro: safeI)

section \<open>Suspended calls\<close>

text \<open>A suspended call holds a buffer only after validating it.\<close>

definition wait_ok :: "paging \<Rightarrow> wait \<Rightarrow> bool" where
  "wait_ok pg w \<longleftrightarrow>
     (case w of
        WaitChild _ \<Rightarrow> True
      | WaitInput p n _ \<Rightarrow> user_buf_ok pg p n True = Ok True
      | WaitLine p n \<Rightarrow> user_buf_ok pg p n True = Ok True)"

lemma waits_loops:
  "read_line_loop me ck p n k = (Ok (Inr w), k') \<Longrightarrow> w = WaitLine p n"
  "input_read_loop me ck p n b k = (Ok (Inr w), k') \<Longrightarrow> w = WaitInput p n b"
  "waitpid_loop me ck pid k = (Ok (Inr w), k') \<Longrightarrow> w = WaitChild pid"
  by (auto simp: read_line_loop_def input_read_loop_def waitpid_loop_def Let_def split: prod.splits res.splits if_splits option.splits)

lemma waits_sys_read: "sys_read me ck fd p n k = (Ok (Inr w), k') \<Longrightarrow> wait_ok (k_paging k) w"
  by (auto simp: sys_read_def Let_def wait_ok_def dest!: waits_loops(1) split: if_splits option.splits sum.splits prod.splits)

lemma waits_sys_input_read: "sys_input_read me ck p n b k = (Ok (Inr w), k') \<Longrightarrow> wait_ok (k_paging k) w"
  by (auto simp: sys_input_read_def Let_def wait_ok_def dest!: waits_loops(2) split: if_splits)

lemma waits_ret:
  "ret f m k \<noteq> (Ok (Waits w g), k')" "ret_frame x k \<noteq> (Ok (Waits w g), k')"
  "ret_or_wait f y k = (Ok (Waits w g), k') \<Longrightarrow> y k = (Ok (Inr w), k')"
  by (auto simp: ret_def ret_frame_def ret_or_wait_def split: sum.splits)

lemma waits_native: "native_dispatch sv me ck f k = (Ok (Waits w g), k') \<Longrightarrow> wait_ok (k_paging k) w"
  by (auto simp: native_dispatch_def waits_ret(1,2) wait_ok_def dest!: waits_ret(3) waits_loops(3) dest: waits_sys_read waits_sys_input_read
    split: if_splits)

lemma safe_resume:
  assumes "paging_wf (k_paging k)" "wait_ok (k_paging k) w" "resume me ck w f k = (r, k')"
  shows "guarded k k'" "r = Ok (Waits w' g) \<Longrightarrow> w' = w"
proof -
  have "safe (buf_ok p n True) (resume me ck w f)" if "w = WaitLine p n" for p n
    using that safe_read_line_loop by (auto simp: resume_def)
  moreover have "safe (buf_ok p n True) (resume me ck w f)" if "w = WaitInput p n b" for p n b
    using that safe_input_read_loop by (auto simp: resume_def)
  moreover have "safe (\<lambda>_. True) (resume me ck w f)" if "w = WaitChild pid" for pid
    using that safe_task_calls(3) by (auto simp: resume_def)
  ultimately show "guarded k k'"
    using assms by (cases w) (auto simp: wait_ok_def buf_ok_def ctx_def dest!: safeD)
  show "r = Ok (Waits w' g) \<Longrightarrow> w' = w"
    using assms(3) by (cases w) (auto simp: resume_def dest!: waits_ret(3) waits_loops)
qed

section \<open>Properties\<close>

text \<open>A machine with one task, where the page at \<open>0x100000\<close> belongs to the kernel.\<close>

definition split_paging :: paging where
  "split_paging = flat_paging\<lparr>tables := (\<lambda>_ i. user_pte\<lparr>USER_ACCESSIBLE := i < 256\<rparr>)\<rparr>"

definition no_services :: services where
  "no_services = \<lparr>sv_spawn = (\<lambda>_ _. errP ''no such file''), sv_ready = (\<lambda>_. False), sv_map_pages = (\<lambda>_ _. panicP)\<rparr>"

definition sample_kernel :: kernel where
  "sample_kernel = \<lparr>k_sched = first_runs, k_vfs = \<lparr>MOUNTS = [], DISK = None\<rparr>, k_fds = [], k_input = ring_start, k_keyboard = keyboard_start,
     k_paging = split_paging, k_mem = (\<lambda>_. 7), k_serial = Some [], k_fs_base = 0, k_rng = 1, k_linux_mem = []\<rparr>"

definition sample_frame :: frame where
  "sample_frame = \<lparr>rax = 0, rdi = 0, rsi = 0, rdx = 0, rcx = 0, r8 = 0, r11 = 0\<rparr>"

definition sample_clocks :: clocks where
  "sample_clocks = \<lparr>ck_ms = 0, ck_ns = 0, ck_real_ns = 0\<rparr>"

lemma split_paging:
  "paging_wf split_paging" "flags_of split_paging a = Some (user_pte\<lparr>USER_ACCESSIBLE := a div 4096 mod 512 < 256\<rparr>)"
  by (simp_all add: paging_wf_def split_paging_def flat_paging_def flags_of_def page_flags_def virt_addr_def next_table_def pte_frame_def
    table_ptr_def checked_add64_def user_pte_def USER_PTR_MAX_def table_index_def)

text \<open>
  C3. Kernel memory is out of reach. Whatever a program passes in its registers, a native system call
  other than \<open>spawn\<close> leaves the page tables and every byte alone that is not on a page user code may
  write to. A call that is suspended has validated its buffer, and each later round of its loop gives
  the same guarantee. Here the mounted file systems only fill the buffers they are given, which
  \<open>fat_slices_kept\<close> shows of the FAT driver.
\<close>

theorem native_calls_spare_kernel_memory:
  assumes "paging_wf (k_paging k)"
  shows "(slices_kept (MOUNTS (k_vfs k)) \<and> \<not> current_is_linux me (k_sched k) \<and> rax f \<noteq> SYS_SPAWN \<and> dispatch sv me ck f k = (r, k') \<longrightarrow>
      k_paging k' = k_paging k \<and> (\<forall>a. \<not> writable k a \<longrightarrow> k_mem k' a = k_mem k a) \<and>
      (\<forall>w g. r = Ok (Waits w g) \<longrightarrow> wait_ok (k_paging k') w)) \<and>
    (wait_ok (k_paging k) w \<and> resume me ck w f k = (r, k') \<longrightarrow>
      k_paging k' = k_paging k \<and> (\<forall>a. \<not> writable k a \<longrightarrow> k_mem k' a = k_mem k a) \<and>
      (\<forall>w' g. r = Ok (Waits w' g) \<longrightarrow> wait_ok (k_paging k') w'))"
proof (intro conjI impI)
  assume a: "slices_kept (MOUNTS (k_vfs k)) \<and> \<not> current_is_linux me (k_sched k) \<and> rax f \<noteq> SYS_SPAWN \<and> dispatch sv me ck f k = (r, k')"
  then have d: "native_dispatch sv me ck f k = (r, k')" by (auto simp: dispatch_def)
  have "guarded k k'" using safeD [OF safe_native_dispatch assms _ d] a by (simp add: ctx_def)
  then show "k_paging k' = k_paging k" "\<forall>a. \<not> writable k a \<longrightarrow> k_mem k' a = k_mem k a"
    "\<forall>w g. r = Ok (Waits w g) \<longrightarrow> wait_ok (k_paging k') w"
    using d waits_native by (auto simp: guarded_def ctx_def)
next
  assume a: "wait_ok (k_paging k) w \<and> resume me ck w f k = (r, k')"
  then show "k_paging k' = k_paging k" "\<forall>a. \<not> writable k a \<longrightarrow> k_mem k' a = k_mem k a"
    "\<forall>w' g. r = Ok (Waits w' g) \<longrightarrow> wait_ok (k_paging k') w'"
    using safe_resume [OF assms, of w me ck f r k'] by (auto simp: guarded_def ctx_def)
qed

theorem native_calls_spare_kernel_memory_witness:
  "k_mem (snd (dispatch no_services 0 sample_clocks (sample_frame\<lparr>rax := 16, rdi := 0x100000, rsi := 24\<rparr>) sample_kernel)) 0x100000 = 7"
proof -
  let ?d = "dispatch no_services 0 sample_clocks (sample_frame\<lparr>rax := 16, rdi := 0x100000, rsi := 24\<rparr>) sample_kernel"
  have "\<not> writable sample_kernel 0x100000" "slices_kept (MOUNTS (k_vfs sample_kernel))" "\<not> current_is_linux 0 (k_sched sample_kernel)"
    by (simp_all add: writable_def sample_kernel_def split_paging(2) user_flags_def slices_kept_def current_is_linux_def cur_index_def
      first_runs_def new_task_def)
  moreover have "paging_wf (k_paging sample_kernel)" by (simp add: sample_kernel_def split_paging(1))
  ultimately show ?thesis
    using native_calls_spare_kernel_memory [of sample_kernel 0 "sample_frame\<lparr>rax := 16, rdi := 0x100000, rsi := 24\<rparr>" no_services sample_clocks "fst ?d" "snd ?d"]
    by (simp add: SYS_SPAWN_def) (simp add: sample_kernel_def)
qed

section \<open>The Linux shim\<close>

lemma write_user_split: "write_user (p + length xs) ys (write_user p xs k) = write_user p (xs @ ys) k"
proof -
  have "(\<lambda>a. if p + length xs \<le> a \<and> a < p + length xs + length ys then ys ! (a - (p + length xs))
      else if p \<le> a \<and> a < p + length xs then xs ! (a - p) else k_mem k a) =
    (\<lambda>a. if p \<le> a \<and> a < p + length (xs @ ys) then (xs @ ys) ! (a - p) else k_mem k a)"
    by (rule ext) (auto simp: nth_append)
  then show ?thesis by (simp add: write_user_def cong: if_cong)
qed

lemma write_user_Nil [simp]: "write_user p [] k = k"
proof -
  have "(\<lambda>a. if p \<le> a \<and> a < p + length [] then [] ! (a - p) else k_mem k a) = k_mem k" by (rule ext) auto
  then show ?thesis by (simp add: write_user_def)
qed

lemma zero_user_mapped:
  assumes "paging_wf (k_paging k)" "\<And>i. i < n \<Longrightarrow> canonical (k_paging k) (p + i) \<and> flags_of (k_paging k) (p + i) \<noteq> None"
  shows "linux_zero_user p n k = (Ok True, write_user p (replicate n 0) k)"
  using assms
proof (induction n arbitrary: p k)
  case 0
  then show ?case by simp
next
  case (Suc n)
  obtain fl where fl: "flags_of (k_paging k) p = Some fl" "canonical (k_paging k) p" using Suc.prems(2) [of 0] by auto
  then have "page_flags (k_paging k) p = Ok (Some fl)" using page_flags_total [OF Suc.prems(1)] by simp
  then have "linux_zero_user p (Suc n) k = linux_zero_user (p + 1) n (write_user p [0] k)" using fl(2) by (simp add: virt_addr_def)
  also have "\<dots> = (Ok True, write_user (p + 1) (replicate n 0) (write_user p [0] k))"
  proof (rule Suc.IH)
    show "canonical (k_paging (write_user p [0] k)) (p + 1 + i) \<and> flags_of (k_paging (write_user p [0] k)) (p + 1 + i) \<noteq> None"
      if "i < n" for i using Suc.prems(2) [of "Suc i"] that by simp
  qed (use Suc.prems(1) in simp)
  finally show ?case using write_user_split [of p "[0]" "replicate n 0" k] by simp
qed


definition linux_kernel :: kernel where
  "linux_kernel = sample_kernel\<lparr>k_sched := set_task 0 (\<lambda>t. t\<lparr>linux_abi := True\<rparr>) first_runs\<rparr>"


section \<open>The FAT driver keeps slices\<close>

definition yields :: "('a \<Rightarrow> bool) \<Rightarrow> ('s, 'e, 'a) prog \<Rightarrow> bool" where
  "yields P m \<longleftrightarrow> (\<forall>s r s'. m s = (Ok r, s') \<longrightarrow> P r)"

lemma yields_basic [simp]: "yields P (retP a) \<longleftrightarrow> P a" "yields P (errP e)"
  by (simp_all add: yields_def)

lemma yields_bindP: "(\<And>a. yields P (f a)) \<Longrightarrow> yields P (bindP m f)"
  by (fastforce simp: yields_def bindP_Ok_iff)

lemma yields_guardP: "(b \<Longrightarrow> yields P (f ())) \<Longrightarrow> yields P (bindP (guardP b) f)"
  by (cases b) (simp_all add: yields_def bindP_def guardP_def)

lemma put_subslice_length:
  "out \<le> length buf \<Longrightarrow> n \<le> length buf - out \<Longrightarrow> length (put buf out (subslice x i (i + n))) = length buf"
  by (intro length_put) (simp add: subslice_def)

lemma file_read_loop_length: "yields (\<lambda>r. length (snd r) = length buf) (file_read_loop v sz cs idx pos out buf)"
proof (induction cs arbitrary: idx pos out buf)
  case (Cons c cs)
  show ?case unfolding file_read_loop.simps
  proof (rule yields_bindP, rule yields_guardP)
    fix cbuf
    assume g: "idx * cluster_bytes v \<le> pos \<and> pos - idx * cluster_bytes v \<le> cluster_bytes v \<and> out \<le> length buf \<and> pos \<le> sz"
    define i n where "i = pos - idx * cluster_bytes v" and "n = min (min (cluster_bytes v - i) (length buf - out)) (sz - pos)"
    have l: "length (put buf out (subslice cbuf i (i + n))) = length buf"
      by (rule put_subslice_length) (simp_all add: n_def g)
    show "yields (\<lambda>r. length (snd r) = length buf) (let in_off = pos - idx * cluster_bytes v;
         n = min (min (cluster_bytes v - in_off) (length buf - out)) (sz - pos);
         buf' = put buf out (subslice cbuf in_off (in_off + n)) in
     if out + n = length buf \<or> sz \<le> pos + n then retP (out + n, buf')
     else file_read_loop v sz cs (idx + 1) (pos + n) (out + n) buf')"
      unfolding Let_def i_def [symmetric] n_def [symmetric] using l Cons.IH [of "put buf out (subslice cbuf i (i + n))"] by simp
  qed
qed simp

lemma fat_read_at_length: "yields (\<lambda>r. length (snd r) = length buf) (fat_read_at v path off buf)"
  by (auto simp: fat_read_at_def read_entry_def Let_def split: option.split resolution.split
    intro!: yields_bindP file_read_loop_length)

lemma fat_slices_kept: "\<forall>m \<in> set ms. \<exists>v now. mnt_fs m = fat_filesystem v now \<Longrightarrow> slices_kept ms"
  using fat_read_at_length by (fastforce simp: slices_kept_def fat_filesystem_def yields_def)

end
