(* ===== verification/Spec2Isabelle.thy ===== *)
theory Spec2Isabelle
  imports Onyx_Prelude Rtc Ata Blkcache Input_Ring Frames Vfs Block Fat_Names Fat_Lfn Fat_Volume Fat_Files Fat_Write Fat_Paths Scheduler Sched_Live
    Keyboard Paging Syscall Linux_Abi Syscall_Safe
begin

text \<open>
  Verification of the OnyxOS kernel: a shallow embedding of the storage stack, the scheduler, the
  memory bookkeeping, the input path, the clock and the system calls of the Rust kernel under
  \<open>src/kernel/src\<close>.

  \<^bold>\<open>The program and its parts.\<close> A user program enters the kernel through \<open>dispatch\<close> (\<open>syscall.rs\<close>).
  A file call validates its pointers against the page tables (\<open>memory.rs\<close>), finds the mounted file
  system by the longest prefix of the path (\<open>vfs.rs\<close>) and reaches the FAT32 driver (\<open>fat.rs\<close>), which
  reads and writes sectors through a write-through cache (\<open>blkcache.rs\<close>) over the ATA driver
  (\<open>ata.rs\<close>); the partitions come from \<open>block.rs\<close>. A blocking call hands the CPU to the scheduler
  (\<open>scheduler.rs\<close>, \<open>smp.rs\<close>), whose wake pass looks at the deadlines, at the keyboard line
  (\<open>keyboard.rs\<close>) and at the ring of raw events (\<open>input.rs\<close>). Time stamps and the wall clock come from
  \<open>rtc.rs\<close>; physical frames from the allocator of \<open>memory.rs\<close>.

  \<^bold>\<open>How code becomes definitions.\<close> A function that changes state is a program of type
  \<open>('s, 'e, 'a) prog\<close>: it maps a state to a result and a new state. A result is \<open>Ok\<close>, \<open>Err\<close> (the
  \<open>Err\<close> of Rust) or \<open>Panic\<close>: an index out of range, a failed \<open>expect\<close> and an overflow of a sum,
  difference or product that the source does not write as wrapping, checked or saturating. Structs are
  records, enums are datatypes, bytes are 8-bit words. Indices, addresses and counters are natural
  numbers with the width written out where the code can reach it; where the code computes on bits the
  values are words.

  \<^bold>\<open>The theories.\<close>

  \<^item> \<open>Onyx_Prelude\<close>: results, programs, the lemma collections, slices, little-endian numbers, and the
    locales \<open>kept_invariant\<close> and \<open>state_machine\<close> for transition systems, which \<open>Scheduler\<close> interprets. The
    other interfaces stand with their provider: \<open>sector_cache\<close> and \<open>block_device\<close> in \<open>Blkcache\<close>, and
    \<open>bounded_fifo\<close> in \<open>Input_Ring\<close>, which \<open>Keyboard\<close> interprets a second time for its own ring.

  \<^item> \<open>Rtc\<close> (\<open>rtc.rs\<close>): reading the CMOS clock, calendar arithmetic, the running clock and the time
    zone. Conversions are inverse to each other, decoding inverts the register image in all four
    formats, and the clock advances by the elapsed seconds.

  \<^item> \<open>Ata\<close> (\<open>ata.rs\<close>): probing, polling and transfers. The controller is a parameter: a stream of
    status values, the IDENTIFY words, the medium, and how it decodes the address registers. Raw
    writes read back, failed writes store a prefix, requests out of range touch nothing.

  \<^item> \<open>Blkcache\<close> (\<open>blkcache.rs\<close>): the second-chance cache. Coherence is kept by every operation and
    cached reads are transparent; a write that fails part way leaves a stale sector.

  \<^item> \<open>Input_Ring\<close> (\<open>input.rs\<close>) and \<open>Keyboard\<close> (\<open>keyboard.rs\<close>): both rings refine a bounded queue; a
    drain delivers the oldest events; \<open>take_line\<close> computes the line a reference editor computes.

  \<^item> \<open>Frames\<close> (\<open>memory.rs\<close>): the frame allocator as a transition system with its callers. In every
    reachable state an allocated frame is usable and owned by nobody else.

  \<^item> \<open>Vfs\<close> (\<open>vfs.rs\<close>): the driver interface as a record of operations, path splitting, the choice of
    the mount and the path operations.

  \<^item> \<open>Block\<close> (\<open>block.rs\<close>): MBR and GPT scanning, CRC32 against the table-driven reference.

  \<^item> \<open>Fat_Names\<close>, \<open>Fat_Lfn\<close>, \<open>Fat_Volume\<close>, \<open>Fat_Files\<close>, \<open>Fat_Write\<close>, \<open>Fat_Paths\<close> (\<open>fat.rs\<close>): names
    and time stamps; long-name slots; mounting, the allocation table, chains and clusters; the file
    and directory operations; the effect of a write on one file; and the operations by path, with the
    result that a write by path is read back by path and leaves every other chain alone.

  \<^item> \<open>Scheduler\<close> and \<open>Sched_Live\<close> (\<open>scheduler.rs\<close>, \<open>smp.rs\<close>): the task table and the CPUs as a
    transition system in which any CPU may take the next step. One owner per context, the choice of
    the most urgent task, the turn of every runnable task, wake-ups, and exit status delivered once.

  \<^item> \<open>Paging\<close> (\<open>memory.rs\<close>, \<open>syscall.rs\<close>): the page walk and \<open>user_buf_ok\<close>, which accepts exactly the
    ranges on pages that user code may access.

  \<^item> \<open>Syscall\<close> (\<open>syscall.rs\<close>, \<open>errno.rs\<close>), \<open>Linux_Abi\<close> (the Linux shim of \<open>syscall.rs\<close>, \<open>userspace.rs\<close>)
    and \<open>Syscall_Safe\<close>: every system call over the joint state of the components, and what a call can
    do to memory: native calls leave kernel memory alone, the \<open>fstat\<close> of the shim does not.

  \<^bold>\<open>Bounds and fuel.\<close> Loops over data are structural recursion. The polling loops of the ATA driver
  and the clock end by the limits of the source. A chain walk is limited by the cluster count the
  source passes. The sweep of the cache ends because each round clears a dwell bit or fills an entry.
  The loop of \<open>take_line\<close> has the capacity of the ring as fuel, and each round removes a key. A call
  that blocks stops at the point where it gives up the CPU, and \<open>resume\<close> is its next round.

  \<^bold>\<open>Not modelled.\<close> The second file system driver \<open>ext2.rs\<close> (the virtual file system is modelled over
  any driver); graphics, GPU and screen output; assembly, descriptor tables, interrupt controllers and
  other machine control; firmware tables and the PCI bus; the PS/2 mouse protocol; the boot sequence
  with its self tests and counters; host tools and user programs. Of modelled files: the machine
  contexts and stacks of \<open>scheduler.rs\<close>; the mapper construction of \<open>memory.rs\<close>; the entry stubs of
  \<open>syscall.rs\<close>; the ELF loader of \<open>userspace.rs\<close>, which is a parameter of \<open>spawn\<close> and of the memory
  calls of the shim; what is printed. Locks are not modelled where every access is under the lock; the
  interleaving of CPUs is modelled in the scheduler.
\<close>

end
